theory Spec2Isabelle
  imports Complex_Main "HOL-Library.List_Lexorder"
begin

section \<open>Conventions\<close>

text \<open>
  The development embeds the inference engine of the lymph package: the class
  \<open>Unilateral\<close> of \<open>lymph/unilateral.py\<close>, the class \<open>BilateralSystem\<close> of
  \<open>lymph/system.py\<close>, the edge synchronisation of \<open>lymph/models/bilateral.py\<close> and
  \<open>comp_transition_tensor\<close> of \<open>lymph/helper.py\<close>.

  Python floats are modelled as real numbers, numpy arrays as lists (a matrix is the
  list of its rows unless said otherwise), and every exception the source can raise is
  a value of the type \<open>error\<close>: a function that can raise returns \<open>error + 'a\<close>.
\<close>

datatype error =
    ValueError
  | IndexError
  | KeyError
  | TypeError
  | AttributeError
  | ZeroDivisionError
  | UnboundLocalError
  | OverflowError
  | GraphError

type_synonym vec = "real list"
type_synonym matrix = "real list list"
type_synonym tensor = "real list list list"

text \<open>
  A float that numpy computes without raising: a real number, an infinity or NaN.
  Rounding is not modelled.
\<close>

datatype npfloat = Fin real | PosInf | NegInf | NaN

text \<open>
  A number as Python's \<open>int\<close> can be handed one: an integer, a truth value or a float.
  \<open>int\<close> is the identity on an integer, gives 1 and 0 for \<open>True\<close> and \<open>False\<close>,
  cuts the fraction of a float off towards zero, and raises ValueError for NaN and
  OverflowError for an infinity.
\<close>

datatype pyscalar = PyInt int | PyBool bool | PyFloat npfloat

definition py_int :: "pyscalar \<Rightarrow> error + int" where
  "py_int v =
     (case v of
        PyInt i \<Rightarrow> Inr i
      | PyBool b \<Rightarrow> Inr (if b then 1 else 0)
      | PyFloat x \<Rightarrow>
          (case x of
             Fin r \<Rightarrow> Inr (if 0 \<le> r then \<lfloor>r\<rfloor> else \<lceil>r\<rceil>)
           | NaN \<Rightarrow> Inl ValueError
           | PosInf \<Rightarrow> Inl OverflowError
           | NegInf \<Rightarrow> Inl OverflowError))"

section \<open>The per-edge transition tensor (helper.py)\<close>

text \<open>\<open>np.eye(n)\<close>.\<close>

definition eye :: "nat \<Rightarrow> matrix" where
  "eye n = map (\<lambda>i. map (\<lambda>j. if i = j then 1 else 0) [0..<n]) [0..<n]"

text \<open>
  The assignment \<open>tensor[a, b, :] = arr\<close> of numpy: an index out of bounds raises
  IndexError, an array that is neither of the row's length nor of length one cannot be
  broadcast into the row and raises ValueError.
\<close>

definition set_slice :: "tensor \<Rightarrow> nat \<Rightarrow> nat \<Rightarrow> real list \<Rightarrow> error + tensor" where
  "set_slice T a b arr =
     (if length T \<le> a then Inl IndexError
      else if length (T ! a) \<le> b then Inl IndexError
      else if length arr = length (T ! a ! b) then Inr (T[a := (T ! a)[b := arr]])
      else if length arr = 1 then
        Inr (T[a := (T ! a)[b := replicate (length (T ! a ! b)) (hd arr)]])
      else Inl ValueError)"

text \<open>
  \<open>comp_transition_tensor\<close>, branch by branch. \<open>np.stack\<close> of an empty list of
  arrays raises ValueError; \<open>[0.] * (num_child - 2)\<close> is empty when the factor is not
  positive, as the truncating subtraction of \<open>nat\<close> gives.
\<close>

definition comp_transition_tensor ::
  "nat \<Rightarrow> nat \<Rightarrow> bool \<Rightarrow> bool \<Rightarrow> real \<Rightarrow> real \<Rightarrow> error + tensor" where
  "comp_transition_tensor num_parent num_child is_tumor_spread is_growth spread_prob micro_mod =
     (if num_parent = 0 then Inl ValueError
      else
        let tensor = replicate num_parent (eye num_child);
            pad = replicate (num_child - 2) (0::real)
        in
          if is_tumor_spread then
            set_slice tensor 0 0 ([1 - spread_prob, spread_prob] @ pad)
          else if is_growth then
            set_slice tensor 1 1 [0, 1 - spread_prob, spread_prob]
          else if num_parent = 3 then
            (let micro_spread = spread_prob * micro_mod in
             case set_slice tensor 1 0 ([1 - micro_spread, micro_spread] @ pad) of
               Inl e \<Rightarrow> Inl e
             | Inr tensor1 \<Rightarrow>
                 (let macro_spread = spread_prob in
                  set_slice tensor1 2 0 ([1 - macro_spread, macro_spread] @ pad)))
          else set_slice tensor 1 0 ([1 - spread_prob, spread_prob] @ pad))"

text \<open>A vector of length \<open>n\<close> that is a probability distribution.\<close>

definition is_dist :: "nat \<Rightarrow> real list \<Rightarrow> bool" where
  "is_dist n r = (length r = n \<and> list_all (\<lambda>x. 0 \<le> x \<and> x \<le> 1) r \<and> sum_list r = 1)"

text \<open>A tensor of shape \<open>(p, c, c)\<close> all of whose slices \<open>T[a, b, :]\<close> are distributions.\<close>

definition dist_tensor :: "nat \<Rightarrow> nat \<Rightarrow> tensor \<Rightarrow> bool" where
  "dist_tensor p c T =
     (length T = p \<and> list_all (\<lambda>M. length M = c \<and> list_all (is_dist c) M) T)"

section \<open>Results of computations that may raise or not return\<close>

text \<open>
  The digit loop of \<open>change_base\<close> has no guard on its base and need not terminate,
  so what is built on it returns \<open>None\<close> when it does not return, \<open>Some (Inl e)\<close>
  when it raises \<open>e\<close> and \<open>Some (Inr v)\<close> when it returns \<open>v\<close>.
\<close>

type_synonym 'a res = "(error + 'a) option"

definition return_res :: "'a \<Rightarrow> 'a res" where
  "return_res v = Some (Inr v)"

definition raise_res :: "error \<Rightarrow> 'a res" where
  "raise_res e = Some (Inl e)"

definition bind_res :: "'a res \<Rightarrow> ('a \<Rightarrow> 'b res) \<Rightarrow> 'b res" where
  "bind_res x f = (case x of None \<Rightarrow> None | Some (Inl e) \<Rightarrow> Some (Inl e) | Some (Inr v) \<Rightarrow> f v)"

definition bind_err :: "error + 'a \<Rightarrow> ('a \<Rightarrow> error + 'b) \<Rightarrow> error + 'b" where
  "bind_err x f = (case x of Inl e \<Rightarrow> Inl e | Inr v \<Rightarrow> f v)"

text \<open>A loop body run over a list, left to right, stopping at the first exception.\<close>

fun fold_err :: "('a \<Rightarrow> 's \<Rightarrow> error + 's) \<Rightarrow> 'a list \<Rightarrow> 's \<Rightarrow> error + 's" where
  "fold_err f [] s = Inr s"
| "fold_err f (x # xs) s = bind_err (f x s) (fold_err f xs)"

fun map_err :: "('a \<Rightarrow> error + 'b) \<Rightarrow> 'a list \<Rightarrow> error + 'b list" where
  "map_err f [] = Inr []"
| "map_err f (x # xs) =
     bind_err (f x) (\<lambda>y. bind_err (map_err f xs) (\<lambda>ys. Inr (y # ys)))"

fun map_res :: "('a \<Rightarrow> 'b res) \<Rightarrow> 'a list \<Rightarrow> 'b list res" where
  "map_res f [] = return_res []"
| "map_res f (x # xs) =
     bind_res (f x) (\<lambda>y. bind_res (map_res f xs) (\<lambda>ys. return_res (y # ys)))"

text \<open>Python's \<open>xs[i]\<close>: a negative index counts from the end.\<close>

definition py_nth :: "'a list \<Rightarrow> int \<Rightarrow> error + 'a" where
  "py_nth xs i =
     (if 0 \<le> i \<and> i < int (length xs) then Inr (xs ! nat i)
      else if i < 0 \<and> - int (length xs) \<le> i then Inr (xs ! nat (int (length xs) + i))
      else Inl IndexError)"

section \<open>The graph of a unilateral model (unilateral.py)\<close>

text \<open>
  The classes \<open>Node\<close> and \<open>Edge\<close> live in \<open>lymph/node.py\<close> and \<open>lymph/edge.py\<close>,
  which are not among the sources; \<open>unilateral.py\<close> reads the fields \<open>name\<close>,
  \<open>typ\<close>, \<open>state\<close>, \<open>inc\<close>, \<open>out\<close> of a node and \<open>start\<close>, \<open>end\<close>, \<open>t\<close> of an
  edge. Nodes are kept in one list, in creation order, and an edge refers to its two
  nodes by their positions in that list, so that the aliasing of the Python objects
  (\<open>self.lnls\<close> holds the very nodes of \<open>self.nodes\<close>) is kept.
\<close>

record node =
  node_name :: string
  node_typ :: string
  node_state :: int

record edge =
  edge_start :: nat
  edge_end :: nat
  edge_t :: real

text \<open>
  The attributes of a \<open>Unilateral\<close> object. An attribute that may be absent
  (\<open>hasattr\<close> is false, reading it raises AttributeError) is an option: the cached
  matrices \<open>_A\<close> and \<open>_B\<close>, the cached \<open>_obs_list\<close>, the dictionary
  \<open>_modality_tables\<close> (in insertion order) and the dictionaries \<open>_C\<close> and \<open>_f\<close>
  keyed by T-stage. A data matrix \<open>C\<close> is kept as the list of its columns.
\<close>

type_synonym cmatrix = "bool list list"

record unilateral =
  nodes :: "node list"
  edges :: "edge list"
  A_cache :: "matrix option"
  modality_tables :: "(string \<times> matrix) list option"
  obs_list_cache :: "int list list option"
  B_cache :: "matrix option"
  C_dict :: "(string \<rightharpoonup> cmatrix) option"
  f_dict :: "(string \<rightharpoonup> nat list) option"

text \<open>\<open>self.lnls\<close> and \<open>self.tumors\<close>: the nodes sorted by type in \<open>__init__\<close>.\<close>

definition tumors :: "unilateral \<Rightarrow> nat list" where
  "tumors m = filter (\<lambda>k. node_typ (nodes m ! k) = ''tumor'') [0..<length (nodes m)]"

definition lnls :: "unilateral \<Rightarrow> nat list" where
  "lnls m = filter (\<lambda>k. node_typ (nodes m ! k) \<noteq> ''tumor'') [0..<length (nodes m)]"

text \<open>
  Modelled from the spec: the setter of \<open>Node.state\<close> for an LNL, the only nodes that
  \<open>Unilateral\<close> writes a state to (\<open>lymph/node.py\<close> is not among the sources). "State:
  integer in [0, K - 1], where K = 2 for binary LNLs": the setter stores 0 or 1 and
  refuses every other value with ValueError.
\<close>

definition node_state_set :: "node \<Rightarrow> int \<Rightarrow> error + node" where
  "node_state_set nd newstate =
     (if newstate = 0 \<or> newstate = 1 then Inr (nd\<lparr>node_state := newstate\<rparr>)
      else Inl ValueError)"

text \<open>
  The loop of the \<open>state\<close> setter, \<open>for i, node in enumerate(self.lnls): node.state =
  int(newstate[i])\<close>, on the list of all nodes. It stops at the first entry that
  \<open>int\<close> or the setter of the node refuses; the nodes written before keep their new
  states.
\<close>

fun set_states :: "nat list \<Rightarrow> pyscalar list \<Rightarrow> node list \<Rightarrow> error option \<times> node list" where
  "set_states (k # ks) (v # vs) ns =
     (case bind_err (py_int v) (node_state_set (ns ! k)) of
        Inl e \<Rightarrow> (Some e, ns)
      | Inr nd \<Rightarrow> set_states ks vs (ns[k := nd]))"
| "set_states _ _ ns = (None, ns)"

text \<open>The property \<open>state\<close> and its setter.\<close>

definition state_get :: "unilateral \<Rightarrow> bool list" where
  "state_get m = map (\<lambda>k. node_state (nodes m ! k) \<noteq> 0) (lnls m)"

text \<open>
  The setter returns what it raised, if anything, together with the model as the call
  leaves it, so that what an exception leaves behind can be stated.
\<close>

definition state_set :: "unilateral \<Rightarrow> pyscalar list \<Rightarrow> error option \<times> unilateral" where
  "state_set m newstate =
     (if length newstate \<noteq> length (lnls m) then (Some ValueError, m)
      else (case set_states (lnls m) newstate (nodes m) of
              (e, ns) \<Rightarrow> (e, m\<lparr>nodes := ns\<rparr>)))"

section \<open>State and observation enumeration (unilateral.py)\<close>

definition convertString :: string where
  "convertString = ''0123456789ABCDEF''"

text \<open>
  The loop \<open>while number >= base: result = result + convertString[number % base];
  number = number // base\<close>. With base zero the remainder raises ZeroDivisionError;
  with base one and a positive number the loop does not end.
\<close>

partial_function (option) change_base_loop ::
  "nat \<Rightarrow> nat \<Rightarrow> string \<Rightarrow> (error + nat \<times> string) option" where
  "change_base_loop number base result =
     (if base \<le> number then
        (if base = 0 then Some (Inl ZeroDivisionError)
         else change_base_loop (number div base) base
                (result @ [convertString ! (number mod base)]))
      else Some (Inr (number, result)))"

text \<open>
  \<open>change_base\<close> as \<open>unilateral.py\<close> defines it (no guard on a base below two, the
  number zero converted to the empty string before padding).
\<close>

definition change_base :: "nat \<Rightarrow> nat \<Rightarrow> bool \<Rightarrow> nat option \<Rightarrow> string res" where
  "change_base number base reverse len =
     (if 16 < base then raise_res ValueError
      else bind_res (change_base_loop number base [])
        (\<lambda>(number', result0).
           let result = (if 0 < number' then result0 @ [convertString ! number'] else result0);
               len' = (case len of None \<Rightarrow> length result
                       | Some l \<Rightarrow> if l < length result then length result else l);
               pad = replicate (len' - length result) (CHR ''0'')
           in return_res (if reverse then result @ pad else pad @ rev result)))"

text \<open>\<open>int(digit)\<close> on one character: ValueError on what is not a decimal digit.\<close>

definition int_of_digit :: "char \<Rightarrow> error + int" where
  "int_of_digit c =
     (case List.find (\<lambda>k. ''0123456789'' ! k = c) [0..<10] of
        None \<Rightarrow> Inl ValueError
      | Some k \<Rightarrow> Inr (int k))"

text \<open>
  \<open>_gen_state_list\<close>: row \<open>i\<close> is \<open>[int(digit) for digit in change_base(i, 2,
  length=len(self.lnls))]\<close>; the assignment of a row of another length into the array
  of shape \<open>(2**L, L)\<close> raises ValueError (a row of length one is broadcast).
\<close>

definition state_list_row :: "nat \<Rightarrow> nat \<Rightarrow> int list res" where
  "state_list_row L i =
     bind_res (change_base i 2 False (Some L))
       (\<lambda>digits. case map_err int_of_digit digits of
            Inl e \<Rightarrow> raise_res e
          | Inr row \<Rightarrow>
              if length row = L then return_res row
              else if length row = 1 then return_res (replicate L (hd row))
              else raise_res ValueError)"

definition gen_state_list :: "nat \<Rightarrow> int list list res" where
  "gen_state_list L = map_res (state_list_row L) [0..<2 ^ L]"

text \<open>
  The property \<open>state_list\<close>. Its cache \<open>_state_list\<close> is never deleted and the
  list of LNLs never changes after \<open>__init__\<close>, so the cached value is the generated
  one and the cache is left out of the state.
\<close>

definition state_list :: "unilateral \<Rightarrow> int list list res" where
  "state_list m = gen_state_list (length (lnls m))"

text \<open>
  \<open>_gen_mask\<close>: for every state index \<open>i\<close> the indices \<open>j\<close> with
  \<open>not np.any(np.greater(state_list[i,:], state_list[j,:]))\<close>, in increasing order.
\<close>

definition gen_mask :: "int list list \<Rightarrow> nat list list" where
  "gen_mask sl =
     map (\<lambda>i. filter (\<lambda>j. \<not> list_ex (\<lambda>(a, b). b < a) (zip (sl ! i) (sl ! j)))
                 [0..<length sl])
       [0..<length sl]"

definition mask :: "unilateral \<Rightarrow> nat list list res" where
  "mask m = bind_res (state_list m) (\<lambda>sl. return_res (gen_mask sl))"

section \<open>Construction and spread parameters (unilateral.py)\<close>

text \<open>
  Modelled from the spec: the constructor of \<open>Node\<close> (\<open>lymph/node.py\<close> is not among
  the sources). "Tumor nodes always have state 1"; an LNL starts healthy.
\<close>

definition Node :: "string \<Rightarrow> string \<Rightarrow> node" where
  "Node nm ty = \<lparr>node_name = nm, node_typ = ty, node_state = (if ty = ''tumor'' then 1 else 0)\<rparr>"

text \<open>\<open>find_node\<close>: the first node of that name, or \<open>None\<close>.\<close>

definition find_node :: "node list \<Rightarrow> string \<Rightarrow> nat option" where
  "find_node ns nm = List.find (\<lambda>k. node_name (ns ! k) = nm) [0..<length ns]"

text \<open>
  Modelled from the spec: the constructor of \<open>Edge\<close> (\<open>lymph/edge.py\<close> is not among
  the sources). An edge joins two nodes of the graph and is entered into \<open>start.out\<close>
  and \<open>end.inc\<close>; a neighbour name that is no node is a \<open>GraphError\<close>. The weight a
  new edge starts with is the parameter \<open>t0\<close>.
\<close>

definition Edge :: "real \<Rightarrow> nat option \<Rightarrow> nat option \<Rightarrow> error + edge" where
  "Edge t0 start end' =
     (case (start, end') of
        (Some a, Some b) \<Rightarrow> Inr \<lparr>edge_start = a, edge_end = b, edge_t = t0\<rparr>
      | _ \<Rightarrow> Inl GraphError)"

text \<open>
  \<open>Unilateral.__init__\<close>. The graph dictionary is the list of its items in insertion
  order, a key being the pair (type, name).
\<close>

type_synonym graph = "((string \<times> string) \<times> string list) list"

definition init_unilateral :: "real \<Rightarrow> graph \<Rightarrow> error + unilateral" where
  "init_unilateral t0 graph =
     (let ns = map (\<lambda>(key, values). Node (snd key) (fst key)) graph in
      bind_err
        (map_err (\<lambda>(key, value). Edge t0 (find_node ns (snd key)) (find_node ns value))
           (concat (map (\<lambda>(key, values). map (\<lambda>value. (key, value)) values) graph)))
        (\<lambda>es. Inr \<lparr>nodes = ns, edges = es, A_cache = None, modality_tables = None,
                   obs_list_cache = None, B_cache = None, C_dict = None, f_dict = None\<rparr>))"

text \<open>\<open>self.base_edges\<close> and \<open>self.trans_edges\<close>, as positions in \<open>self.edges\<close>.\<close>

definition base_edges :: "unilateral \<Rightarrow> nat list" where
  "base_edges m =
     filter (\<lambda>q. node_typ (nodes m ! edge_start (edges m ! q)) = ''tumor'')
       [0..<length (edges m)]"

definition trans_edges :: "unilateral \<Rightarrow> nat list" where
  "trans_edges m =
     filter (\<lambda>q. node_typ (nodes m ! edge_start (edges m ! q)) \<noteq> ''tumor'')
       [0..<length (edges m)]"

text \<open>\<open>lnl.inc\<close>: the edges that end in node \<open>k\<close>, in creation order.\<close>

definition inc :: "unilateral \<Rightarrow> nat \<Rightarrow> edge list" where
  "inc m k = filter (\<lambda>e. edge_end e = k) (edges m)"

definition base_probs :: "unilateral \<Rightarrow> real list" where
  "base_probs m = map (\<lambda>q. edge_t (edges m ! q)) (base_edges m)"

definition trans_probs :: "unilateral \<Rightarrow> real list" where
  "trans_probs m = map (\<lambda>q. edge_t (edges m ! q)) (trans_edges m)"

definition spread_probs :: "unilateral \<Rightarrow> real list" where
  "spread_probs m = base_probs m @ trans_probs m"

text \<open>
  Modelled from the spec: the setter of \<open>Edge.t\<close> (\<open>lymph/edge.py\<close> is not among the
  sources). "\<open>spread_prob\<close> in [0,1]": the setter stores a value of the unit interval
  and refuses every other value with ValueError.
\<close>

definition edge_t_set :: "edge \<Rightarrow> real \<Rightarrow> error + edge" where
  "edge_t_set e new_t =
     (if 0 \<le> new_t \<and> new_t \<le> 1 then Inr (e\<lparr>edge_t := new_t\<rparr>) else Inl ValueError)"

text \<open>
  The loop \<open>for i, edge in enumerate(edge_list): edge.t = new_probs[i]\<close>; a short
  array raises IndexError. The loop stops at the first exception, and the edges written
  before it keep their new weights: the result is what was raised, if anything, and the
  edges as the loop leaves them.
\<close>

fun set_probs ::
  "nat list \<Rightarrow> nat \<Rightarrow> real list \<Rightarrow> edge list \<Rightarrow> error option \<times> edge list" where
  "set_probs [] i new es = (None, es)"
| "set_probs (q # qs) i new es =
     (if i < length new then
        (case edge_t_set (es ! q) (new ! i) of
           Inl e \<Rightarrow> (Some e, es)
         | Inr ed \<Rightarrow> set_probs qs (Suc i) new (es[q := ed]))
      else (Some IndexError, es))"

text \<open>
  The setters: the new weights are written, then \<open>_A\<close> is deleted if it is there. When
  the loop raises, the deletion is not reached and a cached \<open>_A\<close> stays.
\<close>

definition base_probs_set :: "unilateral \<Rightarrow> real list \<Rightarrow> error option \<times> unilateral" where
  "base_probs_set m new_base_probs =
     (case set_probs (base_edges m) 0 new_base_probs (edges m) of
        (Some e, es) \<Rightarrow> (Some e, m\<lparr>edges := es\<rparr>)
      | (None, es) \<Rightarrow> (None, m\<lparr>edges := es, A_cache := None\<rparr>))"

definition trans_probs_set :: "unilateral \<Rightarrow> real list \<Rightarrow> error option \<times> unilateral" where
  "trans_probs_set m new_trans_probs =
     (case set_probs (trans_edges m) 0 new_trans_probs (edges m) of
        (Some e, es) \<Rightarrow> (Some e, m\<lparr>edges := es\<rparr>)
      | (None, es) \<Rightarrow> (None, m\<lparr>edges := es, A_cache := None\<rparr>))"

definition spread_probs_set :: "unilateral \<Rightarrow> real list \<Rightarrow> error option \<times> unilateral" where
  "spread_probs_set m new_spread_probs =
     (let num_base_edges = length (base_edges m) in
      case base_probs_set m (take num_base_edges new_spread_probs) of
        (Some e, m1) \<Rightarrow> (Some e, m1)
      | (None, m1) \<Rightarrow> trans_probs_set m1 (drop num_base_edges new_spread_probs))"

section \<open>The transition matrix (unilateral.py)\<close>

text \<open>
  Modelled from the spec: \<open>node_trans_prob\<close> of \<open>lymph/node.py\<close>, which is not among
  the sources. "Each edge independently may fire; the probability that the LNL stays
  in its current state equals the product over incoming edges of the no-transition
  row; the probability it advances is 1 minus that", the no-transition entry of an edge
  being \<open>1 - spread_prob\<close> under an active parent (state 1) and 1 otherwise.
\<close>

definition node_trans_prob :: "int list \<Rightarrow> real list \<Rightarrow> real list" where
  "node_trans_prob in_states in_weights =
     (let stay_prob = prod_list (map (\<lambda>(s, w). if s = 1 then 1 - w else 1)
                                   (zip in_states in_weights))
      in [stay_prob, 1 - stay_prob])"

text \<open>
  The loop of \<open>comp_transition_prob\<close> over \<open>enumerate(self.lnls)\<close>: only an LNL whose
  state is falsy contributes a factor.
\<close>

fun comp_transition_loop ::
  "unilateral \<Rightarrow> int list \<Rightarrow> (nat \<times> nat) list \<Rightarrow> real \<Rightarrow> error + real" where
  "comp_transition_loop m newstate [] res = Inr res"
| "comp_transition_loop m newstate ((i, k) # rest) res =
     (if node_state (nodes m ! k) = 0 then
        (let in_states = map (\<lambda>e. node_state (nodes m ! edge_start e)) (inc m k);
             in_weights = map edge_t (inc m k)
         in bind_err (py_nth newstate (int i))
              (\<lambda>v. bind_err (py_nth (node_trans_prob in_states in_weights) v)
                 (\<lambda>p. comp_transition_loop m newstate rest (res * p))))
      else comp_transition_loop m newstate rest res)"

definition comp_transition_prob ::
  "unilateral \<Rightarrow> int list \<Rightarrow> bool \<Rightarrow> error + real \<times> unilateral" where
  "comp_transition_prob m newstate acquire =
     bind_err (comp_transition_loop m newstate (zip [0..<length (lnls m)] (lnls m)) 1)
       (\<lambda>res. if acquire then
                 (case state_set m (map PyInt newstate) of
                    (Some e, _) \<Rightarrow> Inl e
                  | (None, m') \<Rightarrow> Inr (res, m'))
               else Inr (res, m))"

definition zeros :: "nat \<Rightarrow> nat \<Rightarrow> matrix" where
  "zeros r c = replicate r (replicate c 0)"

text \<open>The assignment \<open>A[i, j] = v\<close>.\<close>

definition set_entry :: "matrix \<Rightarrow> nat \<Rightarrow> nat \<Rightarrow> real \<Rightarrow> error + matrix" where
  "set_entry A i j v =
     (if i < length A \<and> j < length (A ! i) then Inr (A[i := (A ! i)[j := v]])
      else Inl IndexError)"

text \<open>
  One round of the outer loop of \<open>_gen_A\<close>: the model is put into state \<open>i\<close>, then
  the entries of row \<open>i\<close> at the columns of \<open>mask[i]\<close> are written.
\<close>

definition gen_A_row ::
  "int list list \<Rightarrow> nat list list \<Rightarrow> nat \<Rightarrow> unilateral \<times> matrix \<Rightarrow> error + unilateral \<times> matrix"
  where
  "gen_A_row sl mk i = (\<lambda>(m, A).
     case state_set m (map PyInt (sl ! i)) of
       (Some e, _) \<Rightarrow> Inl e
     | (None, m1) \<Rightarrow>
         bind_err
           (fold_err (\<lambda>j A'. bind_err (comp_transition_prob m1 (sl ! j) False)
                                (\<lambda>(p, _). set_entry A' i j p))
              (mk ! i) A)
           (\<lambda>A'. Inr (m1, A')))"

text \<open>
  \<open>_gen_A\<close>: a matrix of zeros is allocated only when \<open>_A\<close> is absent; the nodes keep
  the last state the loop put them in.
\<close>

definition gen_A :: "unilateral \<Rightarrow> unilateral res" where
  "gen_A m =
     (let A0 = (case A_cache m of
                  None \<Rightarrow> zeros (2 ^ length (lnls m)) (2 ^ length (lnls m))
                | Some a \<Rightarrow> a)
      in bind_res (state_list m) (\<lambda>sl.
         bind_res (mask m) (\<lambda>mk.
           case fold_err (gen_A_row sl mk) [0..<length sl] (m, A0) of
             Inl e \<Rightarrow> raise_res e
           | Inr (m', A) \<Rightarrow> return_res (m'\<lparr>A_cache := Some A\<rparr>))))"

text \<open>The property \<open>A\<close>: the cached matrix, generated on a miss.\<close>

definition A_get :: "unilateral \<Rightarrow> (matrix \<times> unilateral) res" where
  "A_get m =
     (case A_cache m of
        Some a \<Rightarrow> return_res (a, m)
      | None \<Rightarrow>
          bind_res (gen_A m)
            (\<lambda>m'. case A_cache m' of
                     Some a \<Rightarrow> return_res (a, m')
                   | None \<Rightarrow> raise_res AttributeError))"

section \<open>Time evolution (unilateral.py)\<close>

text \<open>
  Products of numpy, with the shape check of \<open>@\<close>: a vector times a matrix given by
  its rows, and a matrix times a matrix.
\<close>

definition ncols :: "matrix \<Rightarrow> nat" where
  "ncols M = (case M of [] \<Rightarrow> 0 | r # _ \<Rightarrow> length r)"

definition vec_mat :: "vec \<Rightarrow> matrix \<Rightarrow> error + vec" where
  "vec_mat v M =
     (if length v \<noteq> length M then Inl ValueError
      else Inr (map (\<lambda>j. \<Sum>i\<leftarrow>[0..<length M]. v ! i * M ! i ! j) [0..<ncols M]))"

definition mat_mul :: "matrix \<Rightarrow> matrix \<Rightarrow> error + matrix" where
  "mat_mul X Y = map_err (\<lambda>r. vec_mat r Y) X"

text \<open>
  \<open>numpy.linalg.matrix_power\<close>: the power of a square matrix, by repeated
  multiplication; for a negative exponent numpy first inverts the matrix with
  \<open>numpy.linalg.inv\<close>, which is the parameter \<open>np_inv\<close> here.
\<close>

fun mat_pow_nat :: "matrix \<Rightarrow> nat \<Rightarrow> error + matrix" where
  "mat_pow_nat X 0 = Inr (eye (length X))"
| "mat_pow_nat X (Suc n) = bind_err (mat_pow_nat X n) (\<lambda>Y. mat_mul Y X)"

definition mat_pow :: "(matrix \<Rightarrow> error + matrix) \<Rightarrow> matrix \<Rightarrow> int \<Rightarrow> error + matrix" where
  "mat_pow np_inv X n =
     (if \<not> list_all (\<lambda>r. length r = length X) X then Inl ValueError
      else if 0 \<le> n then mat_pow_nat X (nat n)
      else bind_err (np_inv X) (\<lambda>Y. mat_pow_nat Y (nat (- n))))"

text \<open>
  The loop of \<open>_evolve\<close>, \<open>for i in range(len_time_range): state_probs[i] = state;
  state = state @ self.A\<close>, closed by \<open>state_probs[-1] = state\<close>: the rows of
  \<open>state_probs\<close>.
\<close>

fun evolve_steps :: "nat \<Rightarrow> vec \<Rightarrow> matrix \<Rightarrow> error + matrix" where
  "evolve_steps 0 state A = Inr [state]"
| "evolve_steps (Suc n) state A =
     bind_err (vec_mat state A)
       (\<lambda>state'. bind_err (evolve_steps n state' A) (\<lambda>rows. Inr (state # rows)))"

datatype ndarray = Vector vec | Matrix matrix

text \<open>
  \<open>_evolve\<close>. The matrix read through \<open>self.A\<close> is cached by the first read, so the
  reads inside the loop return the same matrix.
\<close>

definition evolve ::
  "(matrix \<Rightarrow> error + matrix) \<Rightarrow> unilateral \<Rightarrow> int \<Rightarrow> int option \<Rightarrow> (ndarray \<times> unilateral) res"
  where
  "evolve np_inv m t_first t_last =
     bind_res (state_list m) (\<lambda>sl.
       let start_state = (replicate (length sl) 0)[0 := 1] in
       bind_res (A_get m) (\<lambda>(A, m1).
         case bind_err (mat_pow np_inv A t_first) (vec_mat start_state) of
           Inl e \<Rightarrow> raise_res e
         | Inr state \<Rightarrow>
             (case t_last of
                None \<Rightarrow> return_res (Vector state, m1)
              | Some t_end \<Rightarrow>
                  (let len_time_range = t_end - t_first in
                   if len_time_range < 0 then raise_res ValueError
                   else (case evolve_steps (nat len_time_range) state A of
                           Inl e \<Rightarrow> raise_res e
                         | Inr state_probs \<Rightarrow> return_res (Matrix state_probs, m1))))))"

section \<open>Modalities and the observation matrix (unilateral.py)\<close>

text \<open>Assignment to a key of a dictionary kept in insertion order.\<close>

fun dict_put :: "('k \<times> 'v) list \<Rightarrow> 'k \<Rightarrow> 'v \<Rightarrow> ('k \<times> 'v) list" where
  "dict_put [] k v = [(k, v)]"
| "dict_put ((k', v') # kvs) k v =
     (if k' = k then (k, v) # kvs else (k', v') # dict_put kvs k v)"

text \<open>
  The setter of \<open>modalities\<close>: a new dictionary of tables, one 2x2 table
  \<open>[[sp, 1 - sn], [1 - sp, sn]]\<close> per modality, after the check of the two numbers.
  The caches \<open>_obs_list\<close> and \<open>_B\<close> are not touched.
\<close>

definition modalities_set :: "unilateral \<Rightarrow> (string \<times> real list) list \<Rightarrow> error + unilateral" where
  "modalities_set m modality_spsn =
     bind_err
       (fold_err (\<lambda>(modality, spsn) tables.
            let has_len_2 = (length spsn = 2);
                is_above_lb = list_all (\<lambda>x. 1 / 2 \<le> x) spsn;
                is_below_ub = list_all (\<lambda>x. x \<le> 1) spsn
            in if \<not> has_len_2 \<or> \<not> is_above_lb \<or> \<not> is_below_ub then Inl ValueError
               else (let sp = spsn ! 0; sn = spsn ! 1
                     in Inr (dict_put tables modality [[sp, 1 - sn], [1 - sp, sn]])))
          modality_spsn [])
       (\<lambda>tables. Inr (m\<lparr>modality_tables := Some tables\<rparr>))"

text \<open>The getter of \<open>modalities\<close>: the empty dictionary when no table was set.\<close>

definition modalities_get :: "unilateral \<Rightarrow> (string \<times> real list) list" where
  "modalities_get m =
     (case modality_tables m of
        None \<Rightarrow> []
      | Some tables \<Rightarrow> map (\<lambda>(modality, table). (modality, [table ! 0 ! 0, table ! 1 ! 1])) tables)"

text \<open>
  \<open>_gen_obs_list\<close>: row \<open>i\<close> holds at position \<open>j * n_obs + k\<close> the digit
  \<open>tmp[k * L + j]\<close> of \<open>tmp = change_base(i, 2, length=n_obs * L)\<close>; the two loops
  over \<open>j\<close> and \<open>k\<close> reach every position \<open>p\<close> once, with \<open>j = p div n_obs\<close> and
  \<open>k = p mod n_obs\<close>.
\<close>

definition obs_list_row :: "nat \<Rightarrow> nat \<Rightarrow> nat \<Rightarrow> int list res" where
  "obs_list_row n_obs L i =
     bind_res (change_base i 2 False (Some (n_obs * L)))
       (\<lambda>tmp. case map_err (\<lambda>p. bind_err (py_nth tmp (int ((p mod n_obs) * L + p div n_obs)))
                                  int_of_digit) [0..<n_obs * L] of
            Inl e \<Rightarrow> raise_res e
          | Inr row \<Rightarrow> return_res row)"

definition gen_obs_list :: "unilateral \<Rightarrow> int list list res" where
  "gen_obs_list m =
     (case modality_tables m of
        None \<Rightarrow> raise_res AttributeError
      | Some tables \<Rightarrow>
          map_res (obs_list_row (length tables) (length (lnls m)))
            [0..<2 ^ (length tables * length (lnls m))])"

text \<open>The property \<open>obs_list\<close>: the cached list, generated and stored on a miss.\<close>

definition obs_list :: "unilateral \<Rightarrow> (int list list \<times> unilateral) res" where
  "obs_list m =
     (case obs_list_cache m of
        Some ol \<Rightarrow> return_res (ol, m)
      | None \<Rightarrow> bind_res (gen_obs_list m)
                  (\<lambda>ol. return_res (ol, m\<lparr>obs_list_cache := Some ol\<rparr>)))"

text \<open>
  Modelled from the spec: \<open>Node.obs_prob\<close> (\<open>lymph/node.py\<close> is not among the
  sources), the probability of the observation given the node's state, read from the
  modality's table, whose layout \<open>table[obs, state]\<close> is the one the setter of
  \<open>modalities\<close> builds.
\<close>

definition obs_prob :: "node \<Rightarrow> int \<Rightarrow> matrix \<Rightarrow> error + real" where
  "obs_prob nd obs obstable =
     bind_err (py_nth obstable obs) (\<lambda>row. py_nth row (node_state nd))"

text \<open>\<open>comp_observation_prob\<close> on the dictionary of one diagnosis per modality.\<close>

definition comp_observation_prob :: "unilateral \<Rightarrow> (string \<times> int list) list \<Rightarrow> error + real" where
  "comp_observation_prob m diagnoses_dict =
     fold_err (\<lambda>(modality, diagnoses) prob.
         if length diagnoses \<noteq> length (lnls m) then Inl ValueError
         else
           (case modality_tables m of
              None \<Rightarrow> Inl AttributeError
            | Some tables \<Rightarrow>
                (case map_of tables modality of
                   None \<Rightarrow> Inl KeyError
                 | Some obstable \<Rightarrow>
                     fold_err (\<lambda>(i, k) prob'.
                         bind_err (obs_prob (nodes m ! k) (diagnoses ! i) obstable)
                           (\<lambda>p. Inr (prob' * p)))
                       (zip [0..<length (lnls m)] (lnls m)) prob)))
       diagnoses_dict 1"

text \<open>
  \<open>_gen_B\<close>: for every state \<open>i\<close> (the model is put into it) and every observation
  \<open>j\<close> the entry \<open>B[i, j]\<close> is the probability of the observation cut into one slice
  \<open>obs[L * k : L * (k + 1)]\<close> per modality.
\<close>

definition gen_B_row ::
  "int list list \<Rightarrow> int list list \<Rightarrow> nat \<Rightarrow> unilateral \<times> matrix \<Rightarrow> error + unilateral \<times> matrix"
  where
  "gen_B_row sl ol i = (\<lambda>(m, B).
     case state_set m (map PyInt (sl ! i)) of
       (Some e, _) \<Rightarrow> Inl e
     | (None, m1) \<Rightarrow>
         (case modality_tables m1 of
            None \<Rightarrow> Inl AttributeError
          | Some tables \<Rightarrow>
              (let n_lnl = length (lnls m1) in
               bind_err
                 (fold_err (\<lambda>j B'.
                      let obs = ol ! j;
                          diagnoses_dict =
                            map (\<lambda>(k, modality). (modality, take n_lnl (drop (n_lnl * k) obs)))
                              (zip [0..<length tables] (map fst tables))
                      in bind_err (comp_observation_prob m1 diagnoses_dict)
                           (\<lambda>p. set_entry B' i j p))
                    [0..<length ol] B)
                 (\<lambda>B'. Inr (m1, B')))))"

definition gen_B :: "unilateral \<Rightarrow> unilateral res" where
  "gen_B m =
     bind_res (state_list m) (\<lambda>sl.
       bind_res (obs_list m) (\<lambda>(ol, m0).
         let B0 = (case B_cache m0 of None \<Rightarrow> zeros (length sl) (length ol) | Some b \<Rightarrow> b) in
         case fold_err (gen_B_row sl ol) [0..<length sl] (m0, B0) of
           Inl e \<Rightarrow> raise_res e
         | Inr (m', B) \<Rightarrow> return_res (m'\<lparr>B_cache := Some B\<rparr>)))"

definition B_get :: "unilateral \<Rightarrow> (matrix \<times> unilateral) res" where
  "B_get m =
     (case B_cache m of
        Some b \<Rightarrow> return_res (b, m)
      | None \<Rightarrow>
          bind_res (gen_B m)
            (\<lambda>m'. case B_cache m' of
                     Some b \<Rightarrow> return_res (b, m')
                   | None \<Rightarrow> raise_res AttributeError))"

section \<open>Data compression (unilateral.py)\<close>

text \<open>
  One entry of a diagnosis agrees with one entry of a complete observation when it is
  missing or the two are equal (\<open>True == 1\<close> and \<open>False == 0\<close> in Python).
\<close>

definition entry_matches :: "int \<Rightarrow> bool option \<Rightarrow> bool" where
  "entry_matches x d = (case d of None \<Rightarrow> True | Some b \<Rightarrow> x = (if b then 1 else 0))"

text \<open>
  \<open>np.all(np.equal(obs, row, where=<row not missing>, out=np.ones_like(row,
  dtype=bool)))\<close>: the output has the shape of \<open>row\<close>, so \<open>obs\<close> must have the length
  of \<open>row\<close> or, broadcast, length one; any other pair of shapes raises ValueError.
\<close>

definition compatible :: "int list \<Rightarrow> bool option list \<Rightarrow> error + bool" where
  "compatible obs row =
     (if length obs = length row then Inr (list_all (\<lambda>(x, d). entry_matches x d) (zip obs row))
      else if length obs = 1 then Inr (list_all (entry_matches (hd obs)) row)
      else Inl ValueError)"

text \<open>
  \<open>np.unique(tmp_C, axis=1, return_counts=True)\<close>: the distinct columns in
  lexicographic order, each with the number of its occurrences.
\<close>

definition np_unique :: "cmatrix \<Rightarrow> cmatrix \<times> nat list" where
  "np_unique cols =
     (let u = sort (remdups cols) in (u, map (\<lambda>c. count_list cols c) u))"

text \<open>\<open>_gen_C\<close>; \<open>t_stage\<close> is \<open>None\<close> in the mode "BN", whose key is "BN".\<close>

definition gen_C ::
  "unilateral \<Rightarrow> bool option list list \<Rightarrow> string option \<Rightarrow> bool \<Rightarrow> bool \<Rightarrow> unilateral res" where
  "gen_C m table t_stage delete_ones aggregate_duplicates =
     (let (C0, f0) = (case (C_dict m, f_dict m) of
                        (Some c, Some f) \<Rightarrow> (c, f)
                      | _ \<Rightarrow> (Map.empty, Map.empty));
          stage = (case t_stage of None \<Rightarrow> ''BN'' | Some st \<Rightarrow> st)
      in bind_res (obs_list m) (\<lambda>(ol, m1).
         case map_err (\<lambda>row. map_err (\<lambda>obs. compatible obs row) ol) table of
           Inl e \<Rightarrow> raise_res e
         | Inr tmp_C \<Rightarrow>
             (let tmp_C1 = (if delete_ones
                            then filter (\<lambda>col. length (filter id col) \<noteq> length ol) tmp_C
                            else tmp_C);
                  (tmp_C2, tmp_f) = (if aggregate_duplicates then np_unique tmp_C1
                                     else (tmp_C1, replicate (length table) 1))
              in return_res (m1\<lparr>C_dict := Some (C0(stage \<mapsto> tmp_C2)),
                                 f_dict := Some (f0(stage \<mapsto> tmp_f))\<rparr>))))"

text \<open>
  The patient table: one record per row of the DataFrame, with its T-stage and, per
  modality, its diagnosis of the LNLs (\<open>None\<close> for a missing entry).
\<close>

record patient =
  t_stage_of :: string
  diagnoses_of :: "(string \<times> bool option list) list"

text \<open>
  The row of \<open>data[self._modality_tables.keys()].values\<close> for one patient: the
  diagnoses of the model's modalities, in their order; KeyError without one of them.
\<close>

definition table_row :: "string list \<Rightarrow> patient \<Rightarrow> error + bool option list" where
  "table_row keys p =
     bind_err (map_err (\<lambda>k. case map_of (diagnoses_of p) k of
                              None \<Rightarrow> Inl KeyError
                            | Some d \<Rightarrow> Inr d) keys)
       (\<lambda>ds. Inr (concat ds))"

fun fold_res :: "('a \<Rightarrow> 's \<Rightarrow> 's res) \<Rightarrow> 'a list \<Rightarrow> 's \<Rightarrow> 's res" where
  "fold_res f [] s = return_res s"
| "fold_res f (x # xs) s = bind_res (f x s) (fold_res f xs)"

text \<open>\<open>load_data\<close>; a mode that is neither "HMM" nor "BN" loads nothing.\<close>

definition load_data ::
  "unilateral \<Rightarrow> patient list \<Rightarrow> string list option \<Rightarrow> (string \<times> real list) list option \<Rightarrow>
     string \<Rightarrow> bool \<Rightarrow> bool \<Rightarrow> unilateral res" where
  "load_data m data t_stages modality_spsn mode delete_ones aggregate_duplicates =
     (case (case modality_spsn of
              Some spsn \<Rightarrow> modalities_set m spsn
            | None \<Rightarrow> if modalities_get m = [] then Inl ValueError else Inr m) of
        Inl e \<Rightarrow> raise_res e
      | Inr m1 \<Rightarrow>
          (case modality_tables m1 of
             None \<Rightarrow> raise_res AttributeError
           | Some tables \<Rightarrow>
               if mode = ''HMM'' then
                 (let stages = (case t_stages of
                                  None \<Rightarrow> remdups (map t_stage_of data)
                                | Some ts \<Rightarrow> ts)
                  in fold_res (\<lambda>stage m2.
                         case map_err (table_row (map fst tables))
                                (filter (\<lambda>p. t_stage_of p = stage) data) of
                           Inl e \<Rightarrow> raise_res e
                         | Inr table \<Rightarrow>
                             gen_C m2 table (Some stage) delete_ones aggregate_duplicates)
                       stages m1)
               else if mode = ''BN'' then
                 (case map_err (table_row (map fst tables)) data of
                    Inl e \<Rightarrow> raise_res e
                  | Inr table \<Rightarrow> gen_C m1 table None delete_ones aggregate_duplicates)
               else return_res m1))"

section \<open>Likelihood and risk (unilateral.py)\<close>

text \<open>
  The operations of IEEE arithmetic on the values of \<open>npfloat\<close>: the sum, the product,
  the quotient and \<open>np.log\<close>.
\<close>

fun np_add :: "npfloat \<Rightarrow> npfloat \<Rightarrow> npfloat" where
  "np_add (Fin x) (Fin y) = Fin (x + y)"
| "np_add NaN _ = NaN"
| "np_add _ NaN = NaN"
| "np_add PosInf NegInf = NaN"
| "np_add NegInf PosInf = NaN"
| "np_add PosInf _ = PosInf"
| "np_add _ PosInf = PosInf"
| "np_add NegInf _ = NegInf"
| "np_add _ NegInf = NegInf"

fun np_neg :: "npfloat \<Rightarrow> npfloat" where
  "np_neg (Fin x) = Fin (- x)"
| "np_neg PosInf = NegInf"
| "np_neg NegInf = PosInf"
| "np_neg NaN = NaN"

text \<open>The product of a finite real and a float.\<close>

fun np_scale :: "real \<Rightarrow> npfloat \<Rightarrow> npfloat" where
  "np_scale c (Fin y) = Fin (c * y)"
| "np_scale c NaN = NaN"
| "np_scale c PosInf = (if c = 0 then NaN else if 0 < c then PosInf else NegInf)"
| "np_scale c NegInf = (if c = 0 then NaN else if 0 < c then NegInf else PosInf)"

definition np_log :: "real \<Rightarrow> npfloat" where
  "np_log x = (if 0 < x then Fin (ln x) else if x = 0 then NegInf else NaN)"

definition np_div :: "real \<Rightarrow> real \<Rightarrow> npfloat" where
  "np_div x d =
     (if d \<noteq> 0 then Fin (x / d)
      else if x = 0 then NaN else if 0 < x then PosInf else NegInf)"

definition np_sum :: "npfloat list \<Rightarrow> npfloat" where
  "np_sum xs = foldl np_add (Fin 0) xs"

text \<open>\<open>v @ C\<close> for a data matrix given by its columns, and \<open>f @ x\<close> for counts \<open>f\<close>.\<close>

definition vec_cols :: "vec \<Rightarrow> cmatrix \<Rightarrow> error + vec" where
  "vec_cols v cols =
     (if list_all (\<lambda>c. length c = length v) cols
      then Inr (map (\<lambda>c. \<Sum>(x, b)\<leftarrow>zip v c. if b then x else 0) cols)
      else Inl ValueError)"

definition counts_dot :: "nat list \<Rightarrow> npfloat list \<Rightarrow> error + npfloat" where
  "counts_dot f xs =
     (if length f = length xs then Inr (np_sum (map (\<lambda>(k, x). np_scale (real k) x) (zip f xs)))
      else Inl ValueError)"

text \<open>\<open>_spread_probs_are_valid\<close>: the shape of a vector is its length.\<close>

definition spread_probs_are_valid :: "unilateral \<Rightarrow> real list \<Rightarrow> error + bool" where
  "spread_probs_are_valid m new_spread_probs =
     (if length new_spread_probs \<noteq> length (spread_probs m) then Inl ValueError
      else if list_ex (\<lambda>x. x < 0) new_spread_probs then Inr False
      else if list_ex (\<lambda>x. 1 < x) new_spread_probs then Inr False
      else Inr True)"

text \<open>
  \<open>np.around(x).astype(int)\<close>: rounding to the nearest integer, a tie to the even one,
  then the cast to a 64-bit integer. C leaves the cast of a float outside the range of
  the integer type undefined; numpy on x86-64 then gives the least 64-bit integer, and
  that is the value taken here.
\<close>

definition np_around :: "real \<Rightarrow> int" where
  "np_around x =
     (let f = \<lfloor>x\<rfloor>; d = x - of_int f;
          r = (if d < 1 / 2 then f else if 1 / 2 < d then f + 1
               else if even f then f else f + 1)
      in if - (2 ^ 63) \<le> r \<and> r < 2 ^ 63 then r else - (2 ^ 63))"

text \<open>
  Modelled from the spec: \<open>Node.bn_prob\<close> (\<open>lymph/node.py\<close> is not among the
  sources), the local conditional probability of the node's own state given its
  parents, "under the edge parameters treated as one-shot independent-cause firing".
\<close>

definition bn_prob :: "unilateral \<Rightarrow> nat \<Rightarrow> error + real" where
  "bn_prob m k =
     py_nth (node_trans_prob (map (\<lambda>e. node_state (nodes m ! edge_start e)) (inc m k))
               (map edge_t (inc m k)))
       (node_state (nodes m ! k))"

text \<open>
  The Bayesian-network loop shared by \<open>log_likelihood\<close> and \<open>risk\<close>: for every state
  the product of \<open>bn_prob\<close> over the LNLs, the model being put into that state.
\<close>

definition bn_state_probs :: "unilateral \<Rightarrow> (vec \<times> unilateral) res" where
  "bn_state_probs m =
     bind_res (state_list m) (\<lambda>sl.
       case fold_err (\<lambda>state (a, m1).
                case state_set m1 (map PyInt state) of
                  (Some e, _) \<Rightarrow> Inl e
                | (None, m2) \<Rightarrow>
                    bind_err (fold_err (\<lambda>k x. bind_err (bn_prob m2 k) (\<lambda>p. Inr (x * p)))
                                (lnls m2) 1)
                      (\<lambda>x. Inr (a @ [x], m2)))
              sl ([], m) of
         Inl e \<Rightarrow> raise_res e
       | Inr r \<Rightarrow> return_res r)"

text \<open>
  The last loop of the HMM branch of \<open>log_likelihood\<close>:
  \<open>p = state_probs[stage] @ self.B @ self.C[stage]; llh += self.f[stage] @ np.log(p)\<close>.
\<close>

definition llh_step ::
  "(string \<times> vec) list \<Rightarrow> string \<Rightarrow> npfloat \<times> unilateral \<Rightarrow> (npfloat \<times> unilateral) res" where
  "llh_step state_probs stage = (\<lambda>(llh, m).
     case map_of state_probs stage of
       None \<Rightarrow> raise_res KeyError
     | Some sp \<Rightarrow>
         bind_res (B_get m) (\<lambda>(B, m1).
           case (C_dict m1, f_dict m1) of
             (Some C, Some f) \<Rightarrow>
               (case (C stage, f stage) of
                  (Some Cs, Some fs) \<Rightarrow>
                    (case bind_err (bind_err (vec_mat sp B) (\<lambda>v. vec_cols v Cs))
                            (\<lambda>p. counts_dot fs (map np_log p)) of
                       Inl e \<Rightarrow> raise_res e
                     | Inr x \<Rightarrow> return_res (np_add llh x, m1))
                | _ \<Rightarrow> raise_res KeyError)
           | _ \<Rightarrow> raise_res AttributeError))"

text \<open>
  The loop over the T-stages for explicit diagnose times. The accumulator holds the
  dictionary \<open>state_probs\<close>, or \<open>None\<close> once the source has returned \<open>-np.inf\<close>
  from inside the loop, and the model as the calls of \<open>_evolve\<close> have left it.
\<close>

definition diag_time_step ::
  "(matrix \<Rightarrow> error + matrix) \<Rightarrow> (string \<times> real) list \<Rightarrow> int option \<Rightarrow> string \<Rightarrow>
     (string \<times> vec) list option \<times> unilateral \<Rightarrow> ((string \<times> vec) list option \<times> unilateral) res"
  where
  "diag_time_step np_inv diag_times max_t stage = (\<lambda>(acc, m).
     case acc of
       None \<Rightarrow> return_res (None, m)
     | Some state_probs \<Rightarrow>
         (case map_of diag_times stage of
            None \<Rightarrow> raise_res KeyError
          | Some dt \<Rightarrow>
              (let diag_time = np_around dt in
               case max_t of
                 None \<Rightarrow> raise_res TypeError
               | Some mt \<Rightarrow>
                   if mt < diag_time then return_res (None, m)
                   else bind_res (evolve np_inv m diag_time None)
                          (\<lambda>(r, m1). case r of
                               Vector v \<Rightarrow> return_res (Some (dict_put state_probs stage v), m1)
                             | Matrix _ \<Rightarrow> raise_res TypeError))))"

text \<open>
  The loop over the T-stages for distributions over the diagnose time:
  \<open>state_probs[stage] = time_dists[stage] @ self._evolve(t_last=max_t)\<close>.
\<close>

definition time_dist_step ::
  "(matrix \<Rightarrow> error + matrix) \<Rightarrow> (string \<times> vec) list \<Rightarrow> int \<Rightarrow> string \<Rightarrow>
     (string \<times> vec) list \<times> unilateral \<Rightarrow> ((string \<times> vec) list \<times> unilateral) res"
  where
  "time_dist_step np_inv time_dists max_t stage = (\<lambda>(state_probs, m).
     case map_of time_dists stage of
       None \<Rightarrow> raise_res KeyError
     | Some td \<Rightarrow>
         bind_res (evolve np_inv m 0 (Some max_t))
           (\<lambda>(r, m1). case r of
                Vector _ \<Rightarrow> raise_res TypeError
              | Matrix ev \<Rightarrow>
                  (case vec_mat td ev of
                     Inl e \<Rightarrow> raise_res e
                   | Inr v \<Rightarrow> return_res (dict_put state_probs stage v, m1))))"

text \<open>
  The part of the HMM branch that fills \<open>state_probs\<close>; \<open>len\<close> of a dictionary is
  the length of the list of its items.
\<close>

definition hmm_state_probs ::
  "(matrix \<Rightarrow> error + matrix) \<Rightarrow> unilateral \<Rightarrow> string list \<Rightarrow> (string \<times> real) list option \<Rightarrow>
     int option \<Rightarrow> (string \<times> vec) list option \<Rightarrow> ((string \<times> vec) list option \<times> unilateral) res"
  where
  "hmm_state_probs np_inv m ts diag_times max_t time_dists =
     (case diag_times of
        Some dts \<Rightarrow>
          if length dts \<noteq> length ts then raise_res ValueError
          else fold_res (diag_time_step np_inv dts max_t) ts (Some [], m)
      | None \<Rightarrow>
          (case time_dists of
             Some tds \<Rightarrow>
               if length tds \<noteq> length ts then raise_res ValueError
               else if ts = [] then raise_res IndexError
               else
                 (case map_of tds (hd ts) of
                    None \<Rightarrow> raise_res KeyError
                  | Some td0 \<Rightarrow>
                      bind_res (fold_res (time_dist_step np_inv tds (int (length td0) - 1)) ts ([], m))
                        (\<lambda>(state_probs, m1). return_res (Some state_probs, m1)))
           | None \<Rightarrow> raise_res ValueError))"

text \<open>The Bayesian-network branch of \<open>log_likelihood\<close>.\<close>

definition bn_log_likelihood :: "unilateral \<Rightarrow> (npfloat \<times> unilateral) res" where
  "bn_log_likelihood m =
     bind_res (bn_state_probs m) (\<lambda>(a, m1).
       bind_res (B_get m1) (\<lambda>(B, m2).
         case (C_dict m2, f_dict m2) of
           (Some C, Some f) \<Rightarrow>
             (case (C ''BN'', f ''BN'') of
                (Some Cs, Some fs) \<Rightarrow>
                  (case bind_err (bind_err (vec_mat a B) (\<lambda>b. vec_cols b Cs))
                          (\<lambda>p. counts_dot fs (map np_log p)) of
                     Inl e \<Rightarrow> raise_res e
                   | Inr x \<Rightarrow> return_res (x, m2))
              | _ \<Rightarrow> raise_res KeyError)
         | _ \<Rightarrow> raise_res AttributeError))"

text \<open>
  \<open>log_likelihood\<close>. Without \<open>t_stages\<close> the source reads \<open>self.f_dict\<close>, an
  attribute that \<open>Unilateral\<close> never sets; with a mode that is neither "HMM" nor "BN"
  it returns a variable that was never assigned.
\<close>

definition log_likelihood ::
  "(matrix \<Rightarrow> error + matrix) \<Rightarrow> unilateral \<Rightarrow> real list \<Rightarrow> string list option \<Rightarrow>
     (string \<times> real) list option \<Rightarrow> int option \<Rightarrow> (string \<times> vec) list option \<Rightarrow> string \<Rightarrow>
     (npfloat \<times> unilateral) res" where
  "log_likelihood np_inv m new_spread_probs t_stages diag_times max_t time_dists mode =
     (case spread_probs_are_valid m new_spread_probs of
        Inl e \<Rightarrow> raise_res e
      | Inr False \<Rightarrow> return_res (NegInf, m)
      | Inr True \<Rightarrow>
          (case spread_probs_set m new_spread_probs of
             (Some e, _) \<Rightarrow> raise_res e
           | (None, m1) \<Rightarrow>
               if mode = ''HMM'' then
                 (case t_stages of
                    None \<Rightarrow> raise_res AttributeError
                  | Some ts \<Rightarrow>
                      bind_res (hmm_state_probs np_inv m1 ts diag_times max_t time_dists)
                        (\<lambda>(acc, m2). case acc of
                             None \<Rightarrow> return_res (NegInf, m2)
                           | Some state_probs \<Rightarrow>
                               fold_res (llh_step state_probs) ts (Fin 0, m2)))
               else if mode = ''BN'' then bn_log_likelihood m1
               else raise_res UnboundLocalError))"

text \<open>
  \<open>np.all(np.equal(inv, state, where=(inv != None), out=np.ones_like(state,
  dtype=bool)))\<close>: here the output has the shape of the complete \<open>state\<close>, so the
  pattern \<open>inv\<close> must have its length or, broadcast, length one.
\<close>

definition matches_pattern :: "bool option list \<Rightarrow> int list \<Rightarrow> error + bool" where
  "matches_pattern pattern state =
     (if length pattern = length state
      then Inr (list_all (\<lambda>(x, d). entry_matches x d) (zip state pattern))
      else if length pattern = 1 then Inr (list_all (\<lambda>x. entry_matches x (hd pattern)) state)
      else Inl ValueError)"

datatype risk_result = Risks "npfloat list" | Risk npfloat

text \<open>
  The first half of \<open>risk\<close>: the prior \<open>pX\<close> over the hidden states, \<open>None\<close> when
  the mode is neither "HMM" nor "BN" and the variable is never assigned.
\<close>

definition risk_prior ::
  "(matrix \<Rightarrow> error + matrix) \<Rightarrow> unilateral \<Rightarrow> int option \<Rightarrow> vec option \<Rightarrow> string \<Rightarrow>
     (vec option \<times> unilateral) res" where
  "risk_prior np_inv m diag_time time_dist mode =
     (if mode = ''HMM'' then
        (case diag_time of
           Some t \<Rightarrow>
             bind_res (evolve np_inv m t None)
               (\<lambda>(r, m1). case r of
                    Vector v \<Rightarrow> return_res (Some v, m1)
                  | Matrix _ \<Rightarrow> raise_res TypeError)
         | None \<Rightarrow>
             (case time_dist of
                Some td \<Rightarrow>
                  (let max_t = int (length td) in
                   bind_res (evolve np_inv m 0 (Some (max_t - 1)))
                     (\<lambda>(r, m1). case r of
                          Vector _ \<Rightarrow> raise_res TypeError
                        | Matrix state_probs \<Rightarrow>
                            (case vec_mat td state_probs of
                               Inl e \<Rightarrow> raise_res e
                             | Inr v \<Rightarrow> return_res (Some v, m1))))
              | None \<Rightarrow> raise_res ValueError))
      else if mode = ''BN'' then
        bind_res (bn_state_probs m) (\<lambda>(a, m1). return_res (Some a, m1))
      else return_res (None, m))"

text \<open>
  The vector \<open>cZ\<close> of \<open>risk\<close>: allocated with the length of \<open>pZ\<close>, then written at
  the index of every complete observation of \<open>obs_list\<close>.
\<close>

definition risk_encoding :: "int list list \<Rightarrow> bool option list \<Rightarrow> nat \<Rightarrow> error + bool list" where
  "risk_encoding ol obs n =
     bind_err (map_err (\<lambda>complete_obs. compatible complete_obs obs) ol)
       (\<lambda>cZ. if n < length cZ then Inl IndexError
               else Inr (cZ @ replicate (n - length cZ) False))"

text \<open>
  \<open>risk\<close>. \<open>pZX = self.B.T * pX\<close> has the entries \<open>B[x, z] * pX[x]\<close>, and
  \<open>res = cZ @ pZX / (cZ @ pZ)\<close> divides every entry of the vector \<open>cZ @ pZX\<close> by the
  number \<open>cZ @ pZ\<close>, a division by zero giving NaN or an infinity, not an exception.
\<close>

definition risk ::
  "(matrix \<Rightarrow> error + matrix) \<Rightarrow> unilateral \<Rightarrow> real list option \<Rightarrow> bool option list option \<Rightarrow>
     (string \<times> bool option list) list \<Rightarrow> int option \<Rightarrow> vec option \<Rightarrow> string \<Rightarrow>
     (risk_result \<times> unilateral) res" where
  "risk np_inv m new_spread_probs involvement diagnoses diag_time time_dist mode =
     (case (case new_spread_probs of
              None \<Rightarrow> (None, m)
            | Some sp \<Rightarrow> spread_probs_set m sp) of
        (Some e, _) \<Rightarrow> raise_res e
      | (None, m1) \<Rightarrow>
          (case modality_tables m1 of
             None \<Rightarrow> raise_res AttributeError
           | Some tables \<Rightarrow>
               (let obs = concat (map (\<lambda>(modality, _).
                                   case map_of diagnoses modality of
                                     Some d \<Rightarrow> d
                                   | None \<Rightarrow> replicate (length (lnls m1)) None) tables)
                in bind_res (risk_prior np_inv m1 diag_time time_dist mode) (\<lambda>(pX_opt, m2).
                   bind_res (B_get m2) (\<lambda>(B, m3).
                     case pX_opt of
                       None \<Rightarrow> raise_res UnboundLocalError
                     | Some pX \<Rightarrow>
                         (case vec_mat pX B of
                            Inl e \<Rightarrow> raise_res e
                          | Inr pZ \<Rightarrow>
                              bind_res (obs_list m3) (\<lambda>(ol, m4).
                                case risk_encoding ol obs (length pZ) of
                                  Inl e \<Rightarrow> raise_res e
                                | Inr cZ \<Rightarrow>
                                    (let num = map (\<lambda>x. \<Sum>z\<leftarrow>[0..<length pZ].
                                                      if cZ ! z then B ! x ! z * pX ! x else 0)
                                                 [0..<length pX];
                                         den = (\<Sum>z\<leftarrow>[0..<length pZ]. if cZ ! z then pZ ! z else 0);
                                         res = map (\<lambda>v. np_div v den) num
                                     in case involvement of
                                          None \<Rightarrow> return_res (Risks res, m4)
                                        | Some pattern \<Rightarrow>
                                            bind_res (state_list m4) (\<lambda>sl.
                                              case map_err (matches_pattern pattern) sl of
                                                Inl e \<Rightarrow> raise_res e
                                              | Inr cX \<Rightarrow>
                                                  if length cX \<noteq> length res
                                                  then raise_res ValueError
                                                  else return_res
                                                    (Risk (np_sum
                                                       (map (\<lambda>(c, r). np_scale (if c then 1 else 0) r)
                                                          (zip cX res))), m4))))))))))"

section \<open>Synchronisation of the two sides of a bilateral model (models/bilateral.py)\<close>

text \<open>
  Modelled from the spec: the class \<open>graph.Edge\<close> of the bilateral model
  (\<open>lymph/graph.py\<close> is not among the sources). An edge object carries the private
  values \<open>_spread_prob\<close> and \<open>_micro_mod\<close> behind the properties \<open>spread_prob\<close> and
  \<open>micro_mod\<close>, and the list \<open>trigger_callbacks\<close> that \<open>init_edge_sync\<close> appends to.
  The objects live in a store, a reference being a position in it.

  A callback is the closure \<open>sync\<close> that \<open>create_property_sync_callback\<close> returns:
  it holds \<open>names\<close>, \<open>this\<close> and \<open>other\<close>.
\<close>

datatype callback = Sync (cb_names: "string list") (cb_this: nat) (cb_other: nat)

record graph_edge =
  ge_name :: string
  private_spread_prob :: real
  private_micro_mod :: real
  trigger_callbacks :: "callback list"

type_synonym edge_store = "graph_edge list"

text \<open>
  Modelled from the spec: reading a property returns the private value; an attribute
  the class does not have is an AttributeError.
\<close>

definition getattr_edge :: "graph_edge \<Rightarrow> string \<Rightarrow> error + real" where
  "getattr_edge e name =
     (if name = ''spread_prob'' then Inr (private_spread_prob e)
      else if name = ''micro_mod'' then Inr (private_micro_mod e)
      else Inl AttributeError)"

text \<open>\<open>setattr(this, f"_{name}", value)\<close>, for the two names that \<open>getattr\<close> lets through.\<close>

definition setattr_private :: "graph_edge \<Rightarrow> string \<Rightarrow> real \<Rightarrow> graph_edge" where
  "setattr_private e name v =
     (if name = ''spread_prob'' then e\<lparr>private_spread_prob := v\<rparr>
      else if name = ''micro_mod'' then e\<lparr>private_micro_mod := v\<rparr>
      else e)"

text \<open>
  \<open>create_property_sync_callback\<close> and the body of the \<open>sync\<close> it returns:
  \<open>for name in names: setattr(this, private_name, getattr(other, name))\<close>.
\<close>

definition create_property_sync_callback :: "string list \<Rightarrow> nat \<Rightarrow> nat \<Rightarrow> callback" where
  "create_property_sync_callback names this other = Sync names this other"

definition sync :: "callback \<Rightarrow> edge_store \<Rightarrow> error + edge_store" where
  "sync cb h =
     fold_err (\<lambda>name h'.
         bind_err (getattr_edge (h' ! cb_other cb) name)
           (\<lambda>v. Inr (h'[cb_this cb := setattr_private (h' ! cb_this cb) name v])))
       (cb_names cb) h"

text \<open>
  The decorator \<open>trigger\<close> of helper.py: the wrapped function runs first, then every
  callback of \<open>self.trigger_callbacks\<close>, in order.
\<close>

definition trigger ::
  "(edge_store \<Rightarrow> error + edge_store) \<Rightarrow> nat \<Rightarrow> edge_store \<Rightarrow> error + edge_store" where
  "trigger func self h =
     bind_err (func h) (\<lambda>h1. fold_err sync (trigger_callbacks (h1 ! self)) h1)"

text \<open>
  Modelled from the spec: the setter of \<open>spread_prob\<close>. The synchronisation is
  "performed synchronously inside a setter": the setter writes the private value and
  is wrapped by \<open>trigger\<close>.
\<close>

definition set_spread_prob :: "nat \<Rightarrow> real \<Rightarrow> edge_store \<Rightarrow> error + edge_store" where
  "set_spread_prob self new_spread_prob =
     trigger (\<lambda>h. Inr (h[self := (h ! self)\<lparr>private_spread_prob := new_spread_prob\<rparr>])) self"

text \<open>\<open>list.index\<close>: the first position of a value, ValueError when it is absent.\<close>

definition py_index :: "'a list \<Rightarrow> 'a \<Rightarrow> error + nat" where
  "py_index xs x =
     (case List.find (\<lambda>i. xs ! i = x) [0..<length xs] of
        None \<Rightarrow> Inl ValueError
      | Some i \<Rightarrow> Inr i)"

definition append_callback :: "nat \<Rightarrow> callback \<Rightarrow> edge_store \<Rightarrow> edge_store" where
  "append_callback e cb h =
     h[e := (h ! e)\<lparr>trigger_callbacks := trigger_callbacks (h ! e) @ [cb]\<rparr>]"

text \<open>
  \<open>init_edge_sync\<close>. The lists \<open>this_edge_names\<close> and \<open>other_edge_names\<close> hold the
  edges themselves (\<open>[e_name for e_name in this_edge_list]\<close>), so the set, its
  intersection and \<open>index\<close> compare edges with the equality of the class \<open>Edge\<close>.
  That equality is the parameter \<open>key\<close>: two edges are equal when their keys are. The
  identity is Python's default, the name of the edge another choice. A set is iterated
  in an order Python does not fix; the order of first occurrence is taken here.
\<close>

definition init_edge_sync ::
  "(nat \<Rightarrow> 'k) \<Rightarrow> string list \<Rightarrow> nat list \<Rightarrow> nat list \<Rightarrow> edge_store \<Rightarrow> error + edge_store" where
  "init_edge_sync key property_names this_edge_list other_edge_list h =
     (let this_edge_names = map key this_edge_list;
          other_edge_names = map key other_edge_list
      in fold_err (\<lambda>edge_name h'.
           bind_err (py_index this_edge_names edge_name) (\<lambda>a.
             bind_err (py_index other_edge_names edge_name) (\<lambda>b.
               let this_edge = this_edge_list ! a;
                   other_edge = other_edge_list ! b
               in Inr (append_callback other_edge
                         (create_property_sync_callback property_names other_edge this_edge)
                         (append_callback this_edge
                            (create_property_sync_callback property_names this_edge other_edge)
                            h')))))
           (filter (\<lambda>k. k \<in> set other_edge_names) (remdups this_edge_names)) h)"

text \<open>
  The edges of \<open>Bilateral.__init__\<close>. Both sides are built from the same graph, so they
  have tumor edges of the same names \<open>ts\<close> and LNL and growth edges of the same names
  \<open>ls\<close>; every edge starts with the values \<open>p0\<close> and \<open>mm0\<close> and no callback. The store
  holds the ipsilateral tumor edges, the ipsilateral LNL edges, the contralateral tumor
  edges and the contralateral LNL edges, in this order.
\<close>

definition new_edge :: "real \<Rightarrow> real \<Rightarrow> string \<Rightarrow> graph_edge" where
  "new_edge p0 mm0 name =
     \<lparr>ge_name = name, private_spread_prob = p0, private_micro_mod = mm0,
      trigger_callbacks = []\<rparr>"

definition ipsi_tumor_edges :: "string list \<Rightarrow> string list \<Rightarrow> nat list" where
  "ipsi_tumor_edges ts ls = [0..<length ts]"

definition ipsi_lnl_edges :: "string list \<Rightarrow> string list \<Rightarrow> nat list" where
  "ipsi_lnl_edges ts ls = [length ts..<length ts + length ls]"

definition contra_tumor_edges :: "string list \<Rightarrow> string list \<Rightarrow> nat list" where
  "contra_tumor_edges ts ls = [length ts + length ls..<2 * length ts + length ls]"

definition contra_lnl_edges :: "string list \<Rightarrow> string list \<Rightarrow> nat list" where
  "contra_lnl_edges ts ls = [2 * length ts + length ls..<2 * length ts + 2 * length ls]"

definition init_bilateral ::
  "(nat \<Rightarrow> 'k) \<Rightarrow> real \<Rightarrow> real \<Rightarrow> string list \<Rightarrow> string list \<Rightarrow> bool \<Rightarrow> bool \<Rightarrow> bool \<Rightarrow>
     error + edge_store" where
  "init_bilateral key p0 mm0 ts ls is_trinary tumor_spread_symmetric lnl_spread_symmetric =
     (let h0 = map (new_edge p0 mm0) ts @ map (new_edge p0 mm0) ls
               @ map (new_edge p0 mm0) ts @ map (new_edge p0 mm0) ls;
          property_names = [''spread_prob''] @ (if is_trinary then [''micro_mod''] else [])
      in bind_err
           (if tumor_spread_symmetric
            then init_edge_sync key property_names (ipsi_tumor_edges ts ls)
                   (contra_tumor_edges ts ls) h0
            else Inr h0)
           (\<lambda>h1. if lnl_spread_symmetric
                  then init_edge_sync key property_names (ipsi_lnl_edges ts ls)
                         (contra_lnl_edges ts ls) h1
                  else Inr h1))"

section \<open>Parameters of the two sides in the older interface (system.py)\<close>

text \<open>
  \<open>BilateralSystem\<close> sorts its edges into the four lists \<open>ipsi_base\<close>, \<open>contra_base\<close>,
  \<open>ipsi_trans\<close> and \<open>contra_trans\<close>; every edge is in one list only. The record holds
  the weight \<open>t\<close> of each edge of each list.
\<close>

record bilateral_system =
  ipsi_base :: "real list"
  contra_base :: "real list"
  ipsi_trans :: "real list"
  contra_trans :: "real list"

text \<open>
  The two loops of \<open>set_theta\<close> over one block of parameters. Symmetric:
  \<open>for i in range(len(ipsi)): ipsi[i].t = theta[cursor]; contra[i].t = theta[cursor];
  cursor += 1\<close>. Independent: \<open>for edge in ipsi: edge.t = theta[cursor]; cursor += 1\<close>,
  then the same over \<open>contra\<close>. An index beyond the array or the list is an IndexError;
  the assignment to \<open>t\<close> is taken to be a plain write, as in the setters of
  \<open>Unilateral\<close>.
\<close>

definition set_symmetric ::
  "vec \<Rightarrow> real list \<times> real list \<times> nat \<Rightarrow> error + real list \<times> real list \<times> nat" where
  "set_symmetric theta = (\<lambda>(ipsi, contra, cursor).
     fold_err (\<lambda>i (ipsi', contra', cursor').
         if length theta \<le> cursor' then Inl IndexError
         else if length contra' \<le> i then Inl IndexError
         else Inr (ipsi'[i := theta ! cursor'], contra'[i := theta ! cursor'], cursor' + 1))
       [0..<length ipsi] (ipsi, contra, cursor))"

definition set_side :: "vec \<Rightarrow> real list \<times> nat \<Rightarrow> error + real list \<times> nat" where
  "set_side theta = (\<lambda>(side, cursor).
     fold_err (\<lambda>i (side', cursor').
         if length theta \<le> cursor' then Inl IndexError
         else Inr (side'[i := theta ! cursor'], cursor' + 1))
       [0..<length side] (side, cursor))"

definition set_block ::
  "vec \<Rightarrow> bool \<Rightarrow> real list \<times> real list \<times> nat \<Rightarrow> error + real list \<times> real list \<times> nat"
  where
  "set_block theta symmetric = (\<lambda>(ipsi, contra, cursor).
     if symmetric then set_symmetric theta (ipsi, contra, cursor)
     else bind_err (set_side theta (ipsi, cursor)) (\<lambda>(ipsi', cursor').
            bind_err (set_side theta (contra, cursor')) (\<lambda>(contra', cursor'').
              Inr (ipsi', contra', cursor''))))"

text \<open>
  \<open>BilateralSystem.set_theta\<close>. In the mode "HMM" it ends with \<open>self._gen_A()\<close>, which
  reads the parameters just written and computes the matrices of the two sides; that
  call is the parameter \<open>gen_A_both\<close>.
\<close>

definition set_theta ::
  "(bilateral_system \<Rightarrow> error + bilateral_system) \<Rightarrow> bilateral_system \<Rightarrow> vec \<Rightarrow> bool \<Rightarrow> bool \<Rightarrow>
     string \<Rightarrow> error + bilateral_system" where
  "set_theta gen_A_both s theta base_symmetric trans_symmetric mode =
     bind_err (set_block theta base_symmetric (ipsi_base s, contra_base s, 0))
       (\<lambda>(ib, cb, cursor).
          bind_err (set_block theta trans_symmetric (ipsi_trans s, contra_trans s, cursor))
            (\<lambda>(it, ct, _).
               let s' = s\<lparr>ipsi_base := ib, contra_base := cb, ipsi_trans := it,
                          contra_trans := ct\<rparr>
               in if mode = ''HMM'' then gen_A_both s' else Inr s'))"

section \<open>Closed forms and conditions used in the statements\<close>

text \<open>
  The definitions of this section are not part of the program. They give in closed form
  what its loops compute: the binary digits of a number (\<open>lsb_digits\<close>, \<open>bits\<close>,
  \<open>padded\<close>, \<open>of_bits\<close>), the rows of \<open>state_list\<close> and \<open>obs_list\<close> (\<open>states\<close>,
  \<open>obs_rows\<close>), the entries of the transition matrix (\<open>trans_prob\<close>, \<open>row_weight\<close>,
  \<open>A_matrix\<close>) and of the observation matrix (\<open>obs_weight\<close>, \<open>B_entry\<close>,
  \<open>B_matrix\<close>). They name the conditions on a model that the statements need: a model
  put into a state (\<open>with_state\<close>), two models that differ in the states of their LNLs
  only (\<open>same_base\<close>), caches of the right shape (\<open>good_cache\<close>, \<open>shape_of\<close>), callbacks
  that write into the edge they are registered on (\<open>writes_self\<close>). And they fix the
  models of the closed instances (\<open>example_model\<close>, \<open>one_lnl_model\<close>).
\<close>

fun lsb_digits :: "nat \<Rightarrow> string" where
  "lsb_digits n = (if n = 0 then [] else (convertString ! (n mod 2)) # lsb_digits (n div 2))"

declare lsb_digits.simps [simp del]

fun bits :: "nat \<Rightarrow> nat \<Rightarrow> int list" where
  "bits 0 i = []"
| "bits (Suc L) i = bits L (i div 2) @ [int (i mod 2)]"

definition padded :: "nat \<Rightarrow> nat \<Rightarrow> string" where
  "padded L n = replicate (L - length (lsb_digits n)) (CHR ''0'') @ rev (lsb_digits n)"

fun write_probs :: "nat list \<Rightarrow> nat \<Rightarrow> real list \<Rightarrow> edge list \<Rightarrow> edge list" where
  "write_probs [] i new es = es"
| "write_probs (q # qs) i new es =
     write_probs qs (Suc i) new (es[q := (es ! q)\<lparr>edge_t := new ! i\<rparr>])"

fun write_states :: "nat list \<Rightarrow> int list \<Rightarrow> node list \<Rightarrow> node list" where
  "write_states (k # ks) (v # vs) ns = write_states ks vs (ns[k := (ns ! k)\<lparr>node_state := v\<rparr>])"
| "write_states _ _ ns = ns"

definition with_state :: "unilateral \<Rightarrow> int list \<Rightarrow> unilateral" where
  "with_state m s = m\<lparr>nodes := write_states (lnls m) s (nodes m)\<rparr>"

definition accepted :: "pyscalar \<Rightarrow> bool" where
  "accepted v = (py_int v = Inr 0 \<or> py_int v = Inr 1)"

definition refusal :: "pyscalar \<Rightarrow> error" where
  "refusal v = (case py_int v of Inl e \<Rightarrow> e | Inr _ \<Rightarrow> ValueError)"

definition int_value :: "pyscalar \<Rightarrow> int" where
  "int_value v = (case py_int v of Inl _ \<Rightarrow> 0 | Inr i \<Rightarrow> i)"

definition lnl_dist :: "unilateral \<Rightarrow> nat \<Rightarrow> real list" where
  "lnl_dist m k =
     node_trans_prob (map (\<lambda>e. node_state (nodes m ! edge_start e)) (inc m k))
       (map edge_t (inc m k))"

definition trans_prob :: "unilateral \<Rightarrow> int list \<Rightarrow> real" where
  "trans_prob m s' =
     prod_list (map (\<lambda>(i, k). if node_state (nodes m ! k) = 0
                               then lnl_dist m k ! nat (s' ! i) else 1)
                  (zip [0..<length (lnls m)] (lnls m)))"

definition binary :: "int list \<Rightarrow> bool" where
  "binary s = list_all (\<lambda>x. x = 0 \<or> x = 1) s"

definition states :: "nat \<Rightarrow> int list list" where
  "states L = map (bits L) [0..<2 ^ L]"

definition A_matrix :: "unilateral \<Rightarrow> matrix" where
  "A_matrix m =
     (let L = length (lnls m); sl = states L in
      map (\<lambda>i. map (\<lambda>j. if j \<in> set (gen_mask sl ! i)
                         then trans_prob (with_state m (sl ! i)) (sl ! j) else 0)
                  [0..<2 ^ L])
        [0..<2 ^ L])"

definition same_base :: "unilateral \<Rightarrow> unilateral \<Rightarrow> bool" where
  "same_base m m' =
     (lnls m' = lnls m \<and> (\<forall>s. length s = length (lnls m) \<longrightarrow> with_state m' s = with_state m s))"

definition edge_factor :: "int \<Rightarrow> real \<Rightarrow> int \<Rightarrow> real" where
  "edge_factor x p y = (if x = 0 then [p, 1 - p] ! nat y else 1)"

definition row_weight :: "int list \<Rightarrow> real list \<Rightarrow> int list \<Rightarrow> real" where
  "row_weight s a s' =
     (if list_ex (\<lambda>(x, y). y < x) (zip s s') then 0
      else prod_list (map (\<lambda>(x, p, y). edge_factor x p y) (zip s (zip a s'))))"

definition result_value :: "('a \<times> 's) res \<Rightarrow> 'a res" where
  "result_value r = (case r of None \<Rightarrow> None | Some (Inl e) \<Rightarrow> Some (Inl e)
                     | Some (Inr (v, _)) \<Rightarrow> Some (Inr v))"

definition example_graph :: graph where
  "example_graph =
     [((''tumor'', ''T''), [''I'', ''II'']), ((''lnl'', ''I''), [''II'']), ((''lnl'', ''II''), [])]"

definition example_model :: "real \<Rightarrow> real \<Rightarrow> real \<Rightarrow> unilateral" where
  "example_model b1 b2 t1 =
     \<lparr>nodes = [Node ''T'' ''tumor'', Node ''I'' ''lnl'', Node ''II'' ''lnl''],
      edges = [\<lparr>edge_start = 0, edge_end = 1, edge_t = b1\<rparr>,
               \<lparr>edge_start = 0, edge_end = 2, edge_t = b2\<rparr>,
               \<lparr>edge_start = 1, edge_end = 2, edge_t = t1\<rparr>],
      A_cache = None, modality_tables = None, obs_list_cache = None, B_cache = None,
      C_dict = None, f_dict = None\<rparr>"

definition reads_fresh_A :: "unilateral \<Rightarrow> bool" where
  "reads_fresh_A m =
     (A_cache m = None \<and>
      (\<exists>m'. A_get m = Some (Inr (A_matrix m, m')) \<and> A_cache m' = Some (A_matrix m)
            \<and> edges m' = edges m))"

definition square_of :: "nat \<Rightarrow> matrix \<Rightarrow> bool" where
  "square_of n X = (length X = n \<and> list_all (\<lambda>r. length r = n) X)"

definition good_cache :: "unilateral \<Rightarrow> bool" where
  "good_cache m = (case A_cache m of None \<Rightarrow> True
                   | Some A \<Rightarrow> square_of (2 ^ length (lnls m)) A)"

definition obs_index :: "nat \<Rightarrow> nat \<Rightarrow> nat \<Rightarrow> nat" where
  "obs_index n_obs L p = (p mod n_obs) * L + p div n_obs"

definition obs_rows :: "nat \<Rightarrow> nat \<Rightarrow> int list list" where
  "obs_rows n_obs L =
     map (\<lambda>i. map (\<lambda>p. bits (n_obs * L) i ! obs_index n_obs L p) [0..<n_obs * L])
       [0..<2 ^ (n_obs * L)]"

definition compat_vector :: "int list list \<Rightarrow> bool option list \<Rightarrow> bool list" where
  "compat_vector ol row = map (\<lambda>obs. list_all (\<lambda>(x, d). entry_matches x d) (zip obs row)) ol"

definition bit_of :: "bool \<Rightarrow> int" where
  "bit_of b = (if b then 1 else 0)"

definition of_bits :: "bool list \<Rightarrow> nat" where
  "of_bits d = foldl (\<lambda>acc b. 2 * acc + (if b then 1 else 0)) 0 d"

definition shape_of :: "nat \<Rightarrow> nat \<Rightarrow> matrix \<Rightarrow> bool" where
  "shape_of r c X = (length X = r \<and> list_all (\<lambda>row. length row = c) X)"

definition tables_ok :: "(string \<times> matrix) list \<Rightarrow> bool" where
  "tables_ok tables = list_all (\<lambda>(name, table). shape_of 2 2 table) tables"

definition obs_weight :: "matrix \<Rightarrow> int list \<Rightarrow> int list \<Rightarrow> real" where
  "obs_weight table obs s = prod_list (map (\<lambda>(ob, x). table ! nat ob ! nat x) (zip obs s))"

definition slices :: "(string \<times> matrix) list \<Rightarrow> nat \<Rightarrow> int list \<Rightarrow> (string \<times> int list) list" where
  "slices tables L obs =
     map (\<lambda>(k, modality). (modality, take L (drop (L * k) obs)))
       (zip [0..<length tables] (map fst tables))"

definition B_entry :: "(string \<times> matrix) list \<Rightarrow> int list \<Rightarrow> (string \<times> int list) list \<Rightarrow> real" where
  "B_entry tables s dd =
     prod_list (map (\<lambda>(name, d). case map_of tables name of
                                    None \<Rightarrow> 0
                                  | Some table \<Rightarrow> obs_weight table d s) dd)"

definition B_matrix :: "(string \<times> matrix) list \<Rightarrow> nat \<Rightarrow> matrix" where
  "B_matrix tables L =
     map (\<lambda>i. map (\<lambda>j. B_entry tables (states L ! i)
                         (slices tables L (obs_rows (length tables) L ! j)))
                 [0..<2 ^ (length tables * L)])
       [0..<2 ^ L]"

definition one_lnl_model :: "real \<Rightarrow> (string \<times> matrix) list option \<Rightarrow> unilateral" where
  "one_lnl_model p tables =
     \<lparr>nodes = [Node ''T'' ''tumor'', Node ''II'' ''lnl''],
      edges = [\<lparr>edge_start = 0, edge_end = 1, edge_t = p\<rparr>],
      A_cache = None, modality_tables = tables, obs_list_cache = None, B_cache = None,
      C_dict = None, f_dict = None\<rparr>"

definition known_name :: "string \<Rightarrow> bool" where
  "known_name name = (name = ''spread_prob'' \<or> name = ''micro_mod'')"

definition writes_self :: "edge_store \<Rightarrow> bool" where
  "writes_self h =
     list_all (\<lambda>e. list_all (\<lambda>cb. cb_this cb = e \<and> list_all known_name (cb_names cb))
                      (trigger_callbacks (h ! e)))
       [0..<length h]"

subsection \<open>Closed forms of the time evolution\<close>

text \<open>
  The product of a vector with a matrix, and the powers of a matrix by repeated
  multiplication from the right, without the checks of the shapes.
\<close>

definition vm :: "vec \<Rightarrow> matrix \<Rightarrow> vec" where
  "vm v M = map (\<lambda>j. \<Sum>i\<leftarrow>[0..<length M]. v ! i * M ! i ! j) [0..<ncols M]"

fun mpow :: "matrix \<Rightarrow> nat \<Rightarrow> matrix" where
  "mpow X 0 = eye (length X)"
| "mpow X (Suc n) = map (\<lambda>r. vm r X) (mpow X n)"

text \<open>
  The distribution over the hidden states after \<open>t\<close> steps from the healthy state,
  and the list of the distributions at the steps \<open>0, ..., n\<close> that \<open>_evolve\<close>
  returns for \<open>t_last = n\<close>.
\<close>

definition start_state :: "nat \<Rightarrow> vec" where
  "start_state n = (replicate n 0)[0 := 1]"

definition state_at :: "matrix \<Rightarrow> nat \<Rightarrow> vec" where
  "state_at A t = vm (start_state (length A)) (mpow A t)"

fun steps :: "nat \<Rightarrow> vec \<Rightarrow> matrix \<Rightarrow> matrix" where
  "steps 0 state A = [state]"
| "steps (Suc n) state A = state # steps n (vm state A) A"

text \<open>
  The dictionary \<open>state_probs\<close> that the two loops of \<open>log_likelihood\<close> fill
  when the transition matrix is \<open>A\<close>.
\<close>

definition diag_state_probs ::
  "matrix \<Rightarrow> (string \<times> real) list \<Rightarrow> string list \<Rightarrow> (string \<times> vec) list" where
  "diag_state_probs A diag_times ts =
     fold (\<lambda>stage d. case map_of diag_times stage of
                        None \<Rightarrow> d
                      | Some dt \<Rightarrow> dict_put d stage (state_at A (nat (np_around dt)))) ts []"

definition dist_state_probs ::
  "matrix \<Rightarrow> (string \<times> vec) list \<Rightarrow> nat \<Rightarrow> string list \<Rightarrow> (string \<times> vec) list" where
  "dist_state_probs A time_dists max_t ts =
     fold (\<lambda>stage d. case map_of time_dists stage of
                        None \<Rightarrow> d
                      | Some td \<Rightarrow> dict_put d stage (vm td (steps max_t (state_at A 0) A))) ts []"

subsection \<open>Closed forms of the data compression\<close>

text \<open>
  The row of the table for one patient when every modality has a diagnosis, and the
  table that \<open>load_data\<close> hands to \<open>_gen_C\<close> for one T-stage.
\<close>

definition patient_row :: "string list \<Rightarrow> patient \<Rightarrow> bool option list" where
  "patient_row keys p =
     concat (map (\<lambda>k. case map_of (diagnoses_of p) k of None \<Rightarrow> [] | Some d \<Rightarrow> d) keys)"

definition stage_rows :: "string list \<Rightarrow> patient list \<Rightarrow> string \<Rightarrow> bool option list list" where
  "stage_rows keys data stage = map (patient_row keys) (filter (\<lambda>p. t_stage_of p = stage) data)"

text \<open>
  What the dictionaries \<open>_C\<close> and \<open>_f\<close> hold for a T-stage; \<open>_gen_C\<close> starts
  from two empty dictionaries unless both exist.
\<close>

definition stored_C :: "unilateral \<Rightarrow> string \<Rightarrow> cmatrix option" where
  "stored_C m stage = (case (C_dict m, f_dict m) of (Some c, Some f) \<Rightarrow> c stage | _ \<Rightarrow> None)"

definition stored_f :: "unilateral \<Rightarrow> string \<Rightarrow> nat list option" where
  "stored_f m stage = (case (C_dict m, f_dict m) of (Some c, Some f) \<Rightarrow> f stage | _ \<Rightarrow> None)"

text \<open>
  The matrix \<open>C\<close> and the counts \<open>f\<close> compress the rows for the list \<open>ol\<close> of
  observations: the columns are pairwise distinct, have one entry per observation and
  are not all ones, \<open>f ! k\<close> is the number of rows whose compatibility vector is
  column \<open>k\<close>, and the counts add up to the number of rows with an entry that is
  not missing.
\<close>

definition compresses :: "int list list \<Rightarrow> bool option list list \<Rightarrow> cmatrix \<Rightarrow> nat list \<Rightarrow> bool" where
  "compresses ol rows C f =
     (distinct C \<and> length f = length C
      \<and> (\<forall>k < length C. length (C ! k) = length ol \<and> C ! k \<noteq> replicate (length ol) True
             \<and> f ! k = length (filter (\<lambda>row. compat_vector ol row = C ! k) rows))
      \<and> sum_list f = length (filter (\<lambda>row. \<exists>d \<in> set row. d \<noteq> None) rows))"

text \<open>A float that is a number: neither NaN nor an infinity.\<close>

definition finite_float :: "npfloat \<Rightarrow> bool" where
  "finite_float r = (case r of Fin _ \<Rightarrow> True | _ \<Rightarrow> False)"

section \<open>Properties of the transition tensor\<close>

lemma is_dist_eye_row: "i < n \<Longrightarrow> is_dist n (map (\<lambda>j. if i = j then 1 else 0) [0..<n])"
proof -
  assume i: "i < n"
  have "sum_list (map (\<lambda>j. if i = j then (1::real) else 0) [0..<n]) =
          (\<Sum>j\<in>set [0..<n]. if i = j then 1 else 0)"
    by (rule sum_list_distinct_conv_sum_set) simp
  also have "\<dots> = 1" using i by simp
  finally show ?thesis by (auto simp: is_dist_def list_all_iff)
qed

lemma dist_tensor_eye: "dist_tensor p c (replicate p (eye c))"
  by (auto simp: dist_tensor_def eye_def list_all_iff is_dist_eye_row)

lemma set_slice_dist:
  assumes "dist_tensor p c T" and "is_dist c arr" and "a < p" and "b < c"
  shows "\<exists>T'. set_slice T a b arr = Inr T' \<and> dist_tensor p c T'"
proof -
  from assms have lenT: "length T = p" and Ta: "length (T ! a) = c"
    and rows: "list_all (is_dist c) (T ! a)"
    by (auto simp: dist_tensor_def list_all_length)
  with assms have lenr: "length (T ! a ! b) = c"
    by (auto simp: list_all_length is_dist_def)
  have arr: "length arr = c" using assms(2) by (simp add: is_dist_def)
  let ?T' = "T[a := (T ! a)[b := arr]]"
  have eq: "set_slice T a b arr = Inr ?T'"
    using assms(3,4) lenT Ta lenr arr by (simp add: set_slice_def)
  have "set ((T ! a)[b := arr]) \<subseteq> insert arr (set (T ! a))"
    by (rule set_update_subset_insert)
  with rows assms(2) have row': "list_all (is_dist c) ((T ! a)[b := arr])"
    by (auto simp: list_all_iff)
  have "set ?T' \<subseteq> insert ((T ! a)[b := arr]) (set T)"
    by (rule set_update_subset_insert)
  with row' Ta assms(1) have "dist_tensor p c ?T'"
    by (auto simp: dist_tensor_def list_all_iff)
  with eq show ?thesis by blast
qed

lemma is_dist_spread:
  assumes "0 \<le> q" and "q \<le> 1" and "2 \<le> c"
  shows "is_dist c ([1 - q, q] @ replicate (c - 2) (0::real))"
  using assms by (auto simp: is_dist_def list_all_iff sum_list_replicate)

lemma is_dist_growth:
  assumes "0 \<le> q" and "q \<le> 1"
  shows "is_dist 3 [0, 1 - q, q]"
  using assms by (simp add: is_dist_def)

text \<open>
  Claim C9, as amended. For \<open>num_parent\<close> and \<open>num_child\<close> in \<open>{2, 3}\<close>, parameters in
  \<open>[0, 1]\<close> and every combination of the flags but a growth edge (\<open>is_growth\<close> without
  \<open>is_tumor_spread\<close>) into a binary child, \<open>comp_transition_tensor\<close> returns a tensor
  of shape \<open>(num_parent, num_child, num_child)\<close> whose every slice
  \<open>[parent_state, child_prev, :]\<close> has entries in \<open>[0, 1]\<close> that sum to one.
\<close>

theorem comp_transition_tensor_slices_are_distributions:
  assumes "num_parent = 2 \<or> num_parent = 3" and "num_child = 2 \<or> num_child = 3"
    and "0 \<le> spread_prob" and "spread_prob \<le> 1"
    and "0 \<le> micro_mod" and "micro_mod \<le> 1"
    and "is_growth \<Longrightarrow> is_tumor_spread \<or> num_child = 3"
  shows "\<exists>T. comp_transition_tensor num_parent num_child is_tumor_spread is_growth
              spread_prob micro_mod = Inr T
           \<and> length T = num_parent
           \<and> (\<forall>a < num_parent. length (T ! a) = num_child
                \<and> (\<forall>b < num_child. length (T ! a ! b) = num_child
                      \<and> (\<forall>x \<in> set (T ! a ! b). 0 \<le> x \<and> x \<le> 1)
                      \<and> sum_list (T ! a ! b) = 1))"
proof -
  let ?T0 = "replicate num_parent (eye num_child)"
  let ?pad = "replicate (num_child - 2) (0::real)"
  have c2: "2 \<le> num_child" and p2: "2 \<le> num_parent" using assms(1,2) by auto
  have T0: "dist_tensor num_parent num_child ?T0" by (rule dist_tensor_eye)
  have mm: "0 \<le> spread_prob * micro_mod" "spread_prob * micro_mod \<le> 1"
    using assms(3-6) by (simp_all add: mult_le_one)
  have "\<exists>T. comp_transition_tensor num_parent num_child is_tumor_spread is_growth
              spread_prob micro_mod = Inr T \<and> dist_tensor num_parent num_child T"
  proof (cases is_tumor_spread)
    case True
    obtain T where "set_slice ?T0 0 0 ([1 - spread_prob, spread_prob] @ ?pad) = Inr T"
      and "dist_tensor num_parent num_child T"
      using set_slice_dist [OF T0 is_dist_spread [OF assms(3,4) c2], of 0 0] p2 c2 by auto
    with True p2 show ?thesis by (auto simp: comp_transition_tensor_def Let_def)
  next
    case nt: False
    show ?thesis
    proof (cases is_growth)
      case True
      with nt assms(7) have c3: "num_child = 3" by simp
      obtain T where "set_slice ?T0 1 1 [0, 1 - spread_prob, spread_prob] = Inr T"
        and "dist_tensor num_parent num_child T"
        using set_slice_dist [OF T0, of "[0, 1 - spread_prob, spread_prob]" 1 1]
          is_dist_growth [OF assms(3,4)] p2 c3 by auto
      with True nt p2 show ?thesis by (auto simp: comp_transition_tensor_def Let_def)
    next
      case ng: False
      show ?thesis
      proof (cases "num_parent = 3")
        case True
        obtain T1 where T1: "set_slice ?T0 1 0
              ([1 - spread_prob * micro_mod, spread_prob * micro_mod] @ ?pad) = Inr T1"
          and d1: "dist_tensor num_parent num_child T1"
          using set_slice_dist [OF T0 is_dist_spread [OF mm c2], of 1 0] p2 c2 by auto
        obtain T2 where T2: "set_slice T1 2 0 ([1 - spread_prob, spread_prob] @ ?pad) = Inr T2"
          and d2: "dist_tensor num_parent num_child T2"
          using set_slice_dist [OF d1 is_dist_spread [OF assms(3,4) c2], of 2 0] True c2
          by auto
        from True nt ng T1 T2 d2 show ?thesis
          by (auto simp: comp_transition_tensor_def Let_def)
      next
        case False
        obtain T where "set_slice ?T0 1 0 ([1 - spread_prob, spread_prob] @ ?pad) = Inr T"
          and "dist_tensor num_parent num_child T"
          using set_slice_dist [OF T0 is_dist_spread [OF assms(3,4) c2], of 1 0] p2 c2 by auto
        with False nt ng p2 show ?thesis by (auto simp: comp_transition_tensor_def Let_def)
      qed
    qed
  qed
  then obtain T where eq: "comp_transition_tensor num_parent num_child is_tumor_spread
        is_growth spread_prob micro_mod = Inr T"
    and d: "dist_tensor num_parent num_child T" by blast
  from d have "length T = num_parent
      \<and> (\<forall>a < num_parent. length (T ! a) = num_child
            \<and> (\<forall>b < num_child. length (T ! a ! b) = num_child
                  \<and> (\<forall>x \<in> set (T ! a ! b). 0 \<le> x \<and> x \<le> 1)
                  \<and> sum_list (T ! a ! b) = 1))"
    by (auto simp: dist_tensor_def is_dist_def list_all_length in_set_conv_nth)
  with eq show ?thesis by blast
qed

theorem comp_transition_tensor_slices_witness:
  "\<exists>T. comp_transition_tensor 3 3 False False (1/2) (1/4) = Inr T
       \<and> length T = 3 \<and> length (T ! 1) = 3 \<and> sum_list (T ! 1 ! 0) = 1"
proof -
  have "\<exists>T. comp_transition_tensor 3 3 False False (1/2) (1/4) = Inr T
           \<and> length T = 3
           \<and> (\<forall>a < 3. length (T ! a) = 3
                \<and> (\<forall>b < 3. length (T ! a ! b) = 3
                      \<and> (\<forall>x \<in> set (T ! a ! b). 0 \<le> x \<and> x \<le> 1)
                      \<and> sum_list (T ! a ! b) = 1))"
    by (rule comp_transition_tensor_slices_are_distributions) simp_all
  then show ?thesis by auto
qed

text \<open>
  Claim C9 as stated fails for a growth edge into a binary child: the row
  \<open>[0, 1 - spread_prob, spread_prob]\<close> of length three does not fit a slice of length
  two, and the assignment raises.
\<close>

theorem comp_transition_tensor_growth_binary_raises:
  "comp_transition_tensor 2 2 False True (1/2) (1/2) = Inl ValueError"
  by (simp add: comp_transition_tensor_def set_slice_def eye_def)

section \<open>Properties of the state setter\<close>

lemma length_write_states [simp]: "length (write_states ks vs ns) = length ns"
  by (induction ks vs ns rule: write_states.induct) simp_all

lemma write_states_other:
  "k \<notin> set ks \<Longrightarrow> write_states ks vs ns ! k = ns ! k"
  by (induction ks vs ns rule: write_states.induct) (auto simp: nth_list_update)

lemma write_states_frame:
  "node_typ (write_states ks vs ns ! k) = node_typ (ns ! k)
   \<and> node_name (write_states ks vs ns ! k) = node_name (ns ! k)"
proof (induction ks vs ns rule: write_states.induct)
  case (1 q ks v vs ns)
  then show ?case
    by (cases "q < length ns") (auto simp: nth_list_update list_update_beyond)
qed simp_all

lemma write_states_hit:
  assumes "distinct ks" and "length vs = length ks" and "\<forall>k \<in> set ks. k < length ns"
    and "i < length ks"
  shows "node_state (write_states ks vs ns ! (ks ! i)) = vs ! i"
  using assms
proof (induction ks vs ns arbitrary: i rule: write_states.induct)
  case (1 q ks v vs ns)
  show ?case
  proof (cases i)
    case 0
    with "1.prems" show ?thesis by (simp add: write_states_other)
  next
    case (Suc i')
    with "1.prems" "1.IH" [of i'] show ?thesis by simp
  qed
qed simp_all

lemma distinct_lnls: "distinct (lnls m)"
  by (simp add: lnls_def)

lemma lnls_bound: "k \<in> set (lnls m) \<Longrightarrow> k < length (nodes m)"
  by (simp add: lnls_def)

lemma tumors_not_lnls: "k \<in> set (tumors m) \<Longrightarrow> k \<notin> set (lnls m)"
  by (simp add: lnls_def tumors_def)

lemma set_states_closed:
  "length vs = length ks \<Longrightarrow>
     set_states ks vs ns =
       (if length (takeWhile accepted vs) = length vs then None
        else Some (refusal (vs ! length (takeWhile accepted vs))),
        write_states (take (length (takeWhile accepted vs)) ks)
          (map int_value (takeWhile accepted vs)) ns)"
proof (induction ks vs ns rule: set_states.induct)
  case (1 k ks v vs ns)
  show ?case
  proof (cases "accepted v")
    case True
    then have "bind_err (py_int v) (node_state_set (ns ! k))
        = Inr ((ns ! k)\<lparr>node_state := int_value v\<rparr>)"
      by (auto simp: accepted_def int_value_def node_state_set_def bind_err_def)
    then show ?thesis using True "1.IH" "1.prems" by simp
  next
    case False
    then have "bind_err (py_int v) (node_state_set (ns ! k)) = Inl (refusal v)"
      by (cases "py_int v") (auto simp: accepted_def refusal_def node_state_set_def bind_err_def)
    then show ?thesis using False by simp
  qed
qed simp_all

lemma py_int_accepted: "accepted v \<Longrightarrow> py_int v = Inr (int_value v)"
  by (auto simp: accepted_def int_value_def)

text \<open>
  Claim C10, as amended. A \<open>newstate\<close> whose length is not the number of LNLs raises
  ValueError and leaves the whole model as it was. For a \<open>newstate\<close> of that length
  let \<open>n\<close> be the number of leading entries that are accepted, an entry being accepted
  when \<open>int\<close> gives 0 or 1 for it. The setter gives each of the first \<open>n\<close> LNLs the
  integer value of its entry. When all entries are accepted it returns; otherwise it
  raises at entry \<open>n\<close>, with the exception of \<open>int\<close> or the ValueError of the node,
  and the LNLs from \<open>n\<close> on keep their states. In both cases the tumor nodes, the
  names and types of all nodes and everything but the nodes (the edges with their
  parameters, the caches) are as before.
\<close>

theorem state_set_frame:
  "(length newstate \<noteq> length (lnls m) \<longrightarrow> state_set m newstate = (Some ValueError, m))
   \<and> (length newstate = length (lnls m) \<longrightarrow>
        (\<exists>e m' n. state_set m newstate = (e, m')
           \<and> n = length (takeWhile accepted newstate)
           \<and> (n = length newstate \<longrightarrow> e = None)
           \<and> (n < length newstate \<longrightarrow> e = Some (refusal (newstate ! n)) \<and> \<not> accepted (newstate ! n))
           \<and> (\<forall>i < n. py_int (newstate ! i) = Inr (node_state (nodes m' ! (lnls m ! i))))
           \<and> (\<forall>i. n \<le> i \<and> i < length (lnls m) \<longrightarrow>
                  nodes m' ! (lnls m ! i) = nodes m ! (lnls m ! i))
           \<and> (\<forall>k \<in> set (tumors m). nodes m' ! k = nodes m ! k)
           \<and> (\<forall>k. node_typ (nodes m' ! k) = node_typ (nodes m ! k)
                  \<and> node_name (nodes m' ! k) = node_name (nodes m ! k))
           \<and> length (nodes m') = length (nodes m)
           \<and> m' = m\<lparr>nodes := nodes m'\<rparr>))"
proof (intro conjI impI)
  assume "length newstate \<noteq> length (lnls m)"
  then show "state_set m newstate = (Some ValueError, m)" by (simp add: state_set_def)
next
  assume len: "length newstate = length (lnls m)"
  let ?n = "length (takeWhile accepted newstate)"
  let ?ks = "take ?n (lnls m)"
  let ?vs = "map int_value (takeWhile accepted newstate)"
  let ?ns = "write_states ?ks ?vs (nodes m)"
  let ?e = "if ?n = length newstate then None else Some (refusal (newstate ! ?n))"
  have n: "?n \<le> length newstate" by (rule length_takeWhile_le)
  have s: "state_set m newstate = (?e, m\<lparr>nodes := ?ns\<rparr>)"
    using len by (simp add: state_set_def set_states_closed)
  have d: "distinct ?ks" using distinct_lnls by simp
  have lk: "length ?vs = length ?ks" using n len by simp
  have b: "\<forall>k \<in> set ?ks. k < length (nodes m)"
    using lnls_bound by (auto dest: in_set_takeD)
  have hit: "py_int (newstate ! i) = Inr (node_state (?ns ! (lnls m ! i)))" if i: "i < ?n" for i
  proof -
    have a: "accepted (newstate ! i)"
      using i by (metis nth_mem set_takeWhileD takeWhile_nth)
    have ik: "i < length ?ks" using i n len by simp
    have "node_state (?ns ! (?ks ! i)) = ?vs ! i"
      by (rule write_states_hit [OF d lk b ik])
    also have "\<dots> = int_value (newstate ! i)" using i by (simp add: takeWhile_nth)
    finally show ?thesis using py_int_accepted [OF a] ik by simp
  qed
  have rest: "?ns ! (lnls m ! i) = nodes m ! (lnls m ! i)"
    if i: "?n \<le> i \<and> i < length (lnls m)" for i
  proof -
    have "lnls m ! i \<notin> set ?ks"
    proof
      assume "lnls m ! i \<in> set ?ks"
      then obtain j where j: "j < length ?ks" "?ks ! j = lnls m ! i"
        by (auto simp: in_set_conv_nth)
      then have "j < ?n" "lnls m ! j = lnls m ! i" by simp_all
      with i distinct_lnls [of m] j(1) show False
        by (simp add: nth_eq_iff_index_eq)
    qed
    then show ?thesis by (rule write_states_other)
  qed
  have tum: "\<forall>k \<in> set (tumors m). ?ns ! k = nodes m ! k"
  proof
    fix k assume "k \<in> set (tumors m)"
    then have "k \<notin> set (lnls m)" by (rule tumors_not_lnls)
    then have "k \<notin> set ?ks" by (auto dest: in_set_takeD)
    then show "?ns ! k = nodes m ! k" by (rule write_states_other)
  qed
  have fr: "\<forall>k. node_typ (?ns ! k) = node_typ (nodes m ! k)
                  \<and> node_name (?ns ! k) = node_name (nodes m ! k)"
    using write_states_frame by simp
  have nacc: "\<not> accepted (newstate ! ?n)" if "?n < length newstate"
    using that by (rule nth_length_takeWhile)
  show "\<exists>e m' n. state_set m newstate = (e, m')
           \<and> n = length (takeWhile accepted newstate)
           \<and> (n = length newstate \<longrightarrow> e = None)
           \<and> (n < length newstate \<longrightarrow> e = Some (refusal (newstate ! n)) \<and> \<not> accepted (newstate ! n))
           \<and> (\<forall>i < n. py_int (newstate ! i) = Inr (node_state (nodes m' ! (lnls m ! i))))
           \<and> (\<forall>i. n \<le> i \<and> i < length (lnls m) \<longrightarrow>
                  nodes m' ! (lnls m ! i) = nodes m ! (lnls m ! i))
           \<and> (\<forall>k \<in> set (tumors m). nodes m' ! k = nodes m ! k)
           \<and> (\<forall>k. node_typ (nodes m' ! k) = node_typ (nodes m ! k)
                  \<and> node_name (nodes m' ! k) = node_name (nodes m ! k))
           \<and> length (nodes m') = length (nodes m)
           \<and> m' = m\<lparr>nodes := nodes m'\<rparr>"
    apply (rule exI [of _ ?e], rule exI [of _ "m\<lparr>nodes := ?ns\<rparr>"], rule exI [of _ ?n])
    using s hit rest tum fr nacc by simp
qed

lemma change_base_loop_2:
  "\<exists>n' r'. change_base_loop n 2 r = Some (Inr (n', r'))
      \<and> (if 0 < n' then r' @ [convertString ! n'] else r') = r @ lsb_digits n"
proof (induction n arbitrary: r rule: less_induct)
  case (less n)
  show ?case
  proof (cases "2 \<le> n")
    case True
    then have "n div 2 < n" by simp
    have e1: "change_base_loop n 2 r
        = change_base_loop (n div 2) 2 (r @ [convertString ! (n mod 2)])"
      using True by (subst change_base_loop.simps) simp
    have e2: "lsb_digits n = (convertString ! (n mod 2)) # lsb_digits (n div 2)"
      using True by (subst lsb_digits.simps) simp
    from less [OF \<open>n div 2 < n\<close>, of "r @ [convertString ! (n mod 2)]"]
    show ?thesis unfolding e1 e2 by simp
  next
    case False
    then have "n = 0 \<or> n = 1" by auto
    then show ?thesis
      by (subst change_base_loop.simps) (auto simp: lsb_digits.simps [of "Suc 0"] lsb_digits.simps [of 0])
  qed
qed

lemma change_base_2: "change_base n 2 False (Some L) = return_res (padded L n)"
proof -
  obtain n' r' where l: "change_base_loop n 2 [] = Some (Inr (n', r'))"
    and r: "(if 0 < n' then r' @ [convertString ! n'] else r') = [] @ lsb_digits n"
    using change_base_loop_2 [of n "[]"] by blast
  show ?thesis
    using r by (simp add: change_base_def l bind_res_def padded_def Let_def return_res_def
        split: if_splits)
qed

lemma padded_Suc: "padded (Suc L) n = padded L (n div 2) @ [convertString ! (n mod 2)]"
proof (cases "n = 0")
  case True
  then show ?thesis
    by (simp add: padded_def lsb_digits.simps [of 0] convertString_def replicate_append_same)
next
  case False
  then show ?thesis
    by (simp add: padded_def lsb_digits.simps [of n])
qed

lemma length_lsb_digits: "n < 2 ^ L \<Longrightarrow> length (lsb_digits n) \<le> L"
proof (induction L arbitrary: n)
  case 0
  then show ?case by (simp add: lsb_digits.simps [of 0])
next
  case (Suc L)
  have "n div 2 < 2 ^ L" using Suc.prems by auto
  from Suc.IH [OF this] show ?case by (simp add: lsb_digits.simps [of n])
qed

lemma map_err_append:
  "map_err f (xs @ ys) = bind_err (map_err f xs) (\<lambda>a. bind_err (map_err f ys) (\<lambda>b. Inr (a @ b)))"
  by (induction xs) (auto simp: bind_err_def split: sum.splits)

lemma int_of_digit_0: "int_of_digit (convertString ! 0) = Inr 0"
  by code_simp

lemma int_of_digit_1: "int_of_digit (convertString ! 1) = Inr 1"
  by code_simp

lemma int_of_digit_bit: "int_of_digit (convertString ! (n mod 2)) = Inr (int (n mod 2))"
proof -
  have "n mod 2 = 0 \<or> n mod 2 = 1" by auto
  then show ?thesis
    using int_of_digit_0 int_of_digit_1 by auto
qed

lemma map_err_padded: "n < 2 ^ L \<Longrightarrow> map_err int_of_digit (padded L n) = Inr (bits L n)"
proof (induction L arbitrary: n)
  case 0
  then show ?case by (simp add: padded_def lsb_digits.simps [of 0])
next
  case (Suc L)
  have "n div 2 < 2 ^ L" using Suc.prems by auto
  from Suc.IH [OF this] show ?case
    by (simp add: padded_Suc map_err_append bind_err_def int_of_digit_bit)
qed

lemma length_bits [simp]: "length (bits L n) = L"
  by (induction L arbitrary: n) simp_all

lemma state_list_row_bits: "i < 2 ^ L \<Longrightarrow> state_list_row L i = return_res (bits L i)"
  by (simp add: state_list_row_def change_base_2 bind_res_def return_res_def map_err_padded)

lemma map_res_pure:
  "(\<And>x. x \<in> set xs \<Longrightarrow> f x = return_res (g x)) \<Longrightarrow> map_res f xs = return_res (map g xs)"
  by (induction xs) (simp_all add: bind_res_def return_res_def)

lemma gen_state_list_bits: "gen_state_list L = return_res (map (bits L) [0..<2 ^ L])"
  unfolding gen_state_list_def by (rule map_res_pure) (simp add: state_list_row_bits)

lemma bind_err_Inr [simp]: "bind_err (Inr v) f = f v"
  by (simp add: bind_err_def)

lemma bind_err_Inl [simp]: "bind_err (Inl e) f = Inl e"
  by (simp add: bind_err_def)

lemma bind_res_return [simp]: "bind_res (return_res v) f = f v"
  by (simp add: bind_res_def return_res_def)

lemma py_nth_nat: "i < length xs \<Longrightarrow> py_nth xs (int i) = Inr (xs ! i)"
  by (simp add: py_nth_def)

lemma py_nth_pair: "v = 0 \<or> v = 1 \<Longrightarrow> py_nth [a, b] v = Inr ([a, b] ! nat v)"
  by (auto simp: py_nth_def)

lemma node_trans_prob_pair:
  "\<exists>a. node_trans_prob ss ws = [a, 1 - a]"
  by (simp add: node_trans_prob_def Let_def)

lemma comp_transition_loop_pure:
  assumes "\<forall>(i, k) \<in> set iks. i < length s' \<and> (s' ! i = 0 \<or> s' ! i = 1)"
  shows "comp_transition_loop m s' iks res =
           Inr (res * prod_list (map (\<lambda>(i, k). if node_state (nodes m ! k) = 0
                                       then lnl_dist m k ! nat (s' ! i) else 1) iks))"
  using assms
proof (induction iks arbitrary: res)
  case Nil
  then show ?case by simp
next
  case (Cons ik iks)
  obtain i k where ik: "ik = (i, k)" by (cases ik)
  from Cons.prems ik have i: "i < length s'" and b: "s' ! i = 0 \<or> s' ! i = 1" by auto
  obtain a where a: "lnl_dist m k = [a, 1 - a]"
    using node_trans_prob_pair by (auto simp: lnl_dist_def)
  have rest: "\<forall>(i, k) \<in> set iks. i < length s' \<and> (s' ! i = 0 \<or> s' ! i = 1)"
    using Cons.prems by simp
  show ?case
    using Cons.IH [OF rest] a b
    by (auto simp: ik py_nth_nat [OF i] bind_err_def Let_def lnl_dist_def [symmetric]
        py_nth_pair mult.assoc)
qed

lemma comp_transition_prob_pure:
  assumes "length s' = length (lnls m)" and "binary s'"
  shows "comp_transition_prob m s' False = Inr (trans_prob m s', m)"
proof -
  have "\<forall>(i, k) \<in> set (zip [0..<length (lnls m)] (lnls m)).
          i < length s' \<and> (s' ! i = 0 \<or> s' ! i = 1)"
    using assms by (auto simp: binary_def list_all_length set_zip)
  from comp_transition_loop_pure [OF this] show ?thesis
    by (simp add: comp_transition_prob_def bind_err_def trans_prob_def)
qed

lemma fold_update_length [simp]: "length (fold (\<lambda>j r. r[j := v j]) js r) = length r"
  by (induction js arbitrary: r) simp_all

lemma fold_update_nth:
  "j' < length r \<Longrightarrow>
     fold (\<lambda>j r. r[j := v j]) js r ! j' = (if j' \<in> set js then v j' else r ! j')"
  by (induction js arbitrary: r) (auto simp: nth_list_update)

lemma fold_err_row:
  assumes "i < length A" and "\<forall>j \<in> set js. j < length (A ! i)"
    and "\<forall>j \<in> set js. f j = Inr (v j, w j)"
  shows "fold_err (\<lambda>j A'. bind_err (f j) (\<lambda>(p, _). set_entry A' i j p)) js A
           = Inr (A[i := fold (\<lambda>j r. r[j := v j]) js (A ! i)])"
  using assms
proof (induction js arbitrary: A)
  case Nil
  then show ?case by simp
next
  case (Cons j js)
  let ?A1 = "A[i := (A ! i)[j := v j]]"
  have step: "bind_err (f j) (\<lambda>(p, _). set_entry A i j p) = Inr ?A1"
    using Cons.prems by (simp add: bind_err_def set_entry_def)
  have "fold_err (\<lambda>j A'. bind_err (f j) (\<lambda>(p, _). set_entry A' i j p)) js ?A1
           = Inr (?A1[i := fold (\<lambda>j r. r[j := v j]) js (?A1 ! i)])"
    using Cons.prems by (intro Cons.IH) auto
  then show ?case using Cons.prems(1) by (simp add: step)
qed

lemma write_states_hit_full:
  assumes "distinct ks" and "length vs = length ks" and "\<forall>k \<in> set ks. k < length ns"
    and "i < length ks"
  shows "write_states ks vs ns ! (ks ! i) = (ns ! (ks ! i))\<lparr>node_state := vs ! i\<rparr>"
  using assms
proof (induction ks vs ns arbitrary: i rule: write_states.induct)
  case (1 q ks v vs ns)
  show ?case
  proof (cases i)
    case 0
    with "1.prems" show ?thesis by (simp add: write_states_other)
  next
    case (Suc i')
    with "1.prems" "1.IH" [of i'] show ?thesis by (auto simp: nth_list_update)
  qed
qed simp_all

lemma write_states_twice:
  assumes "distinct ks" and "length vs = length ks" and "length vs' = length ks"
    and "\<forall>k \<in> set ks. k < length ns"
  shows "write_states ks vs' (write_states ks vs ns) = write_states ks vs' ns"
proof (rule nth_equalityI)
  show "length (write_states ks vs' (write_states ks vs ns)) = length (write_states ks vs' ns)"
    by simp
next
  fix k assume "k < length (write_states ks vs' (write_states ks vs ns))"
  then have k: "k < length ns" by simp
  show "write_states ks vs' (write_states ks vs ns) ! k = write_states ks vs' ns ! k"
  proof (cases "k \<in> set ks")
    case True
    then obtain i where i: "i < length ks" "k = ks ! i" by (auto simp: in_set_conv_nth)
    have b: "\<forall>k \<in> set ks. k < length (write_states ks vs ns)" using assms(4) by simp
    show ?thesis
      using write_states_hit_full [OF assms(1,3) b i(1)]
        write_states_hit_full [OF assms(1,3,4) i(1)]
        write_states_hit_full [OF assms(1,2,4) i(1)] i(2) by simp
  next
    case False
    then show ?thesis by (simp add: write_states_other)
  qed
qed

lemma lnls_with_state [simp]: "lnls (with_state m s) = lnls m"
  unfolding lnls_def with_state_def
  by (rule filter_cong) (simp_all add: write_states_frame)

lemma with_state_twice:
  assumes "length s = length (lnls m)" and "length s' = length (lnls m)"
  shows "with_state (with_state m s) s' = with_state m s'"
proof -
  have "write_states (lnls m) s' (write_states (lnls m) s (nodes m)) = write_states (lnls m) s' (nodes m)"
    using assms lnls_bound by (intro write_states_twice distinct_lnls) auto
  then show ?thesis
    using lnls_with_state [of m s] by (simp add: with_state_def)
qed

lemma set_states_binary:
  "binary s \<Longrightarrow> set_states ks (map PyInt s) ns = (None, write_states ks s ns)"
proof (induction ks s ns rule: write_states.induct)
  case (1 k ks v vs ns)
  then show ?case by (simp add: binary_def py_int_def node_state_set_def)
qed (simp_all add: binary_def)

lemma state_set_with_state:
  "length s = length (lnls m) \<Longrightarrow> binary s \<Longrightarrow>
     state_set m (map PyInt s) = (None, with_state m s)"
  by (simp add: state_set_def with_state_def set_states_binary)

lemma binary_bits: "binary (bits L j)"
  by (induction L arbitrary: j) (auto simp: binary_def)

lemma length_states [simp]: "length (states L) = 2 ^ L"
  by (simp add: states_def)

lemma states_nth: "i < 2 ^ L \<Longrightarrow> states L ! i = bits L i"
  by (simp add: states_def)

lemma state_list_states: "state_list m = return_res (states (length (lnls m)))"
  by (simp add: state_list_def gen_state_list_bits states_def)

lemma mask_states: "mask m = return_res (gen_mask (states (length (lnls m))))"
  by (simp add: mask_def state_list_states)

lemma gen_mask_nth:
  "i < length sl \<Longrightarrow> gen_mask sl ! i =
     filter (\<lambda>j. \<not> list_ex (\<lambda>(a, b). b < a) (zip (sl ! i) (sl ! j))) [0..<length sl]"
  by (simp add: gen_mask_def)

lemma same_base_refl: "same_base m m"
  by (simp add: same_base_def)

lemma same_base_step:
  assumes "same_base m m'" and "length s = length (lnls m)"
  shows "same_base m (with_state m' s)"
  using assms with_state_twice [of s m'] by (auto simp: same_base_def)

lemma gen_A_row_pure:
  assumes sl: "sl = states (length (lnls m))" and mk: "mk = gen_mask sl"
    and sb: "same_base m m'"
    and i: "i < 2 ^ length (lnls m)"
    and A: "length A = 2 ^ length (lnls m)" "\<forall>r \<in> set A. length r = 2 ^ length (lnls m)"
  shows "gen_A_row sl mk i (m', A) =
           Inr (with_state m (sl ! i),
                A[i := map (\<lambda>j. if j \<in> set (mk ! i)
                               then trans_prob (with_state m (sl ! i)) (sl ! j)
                               else A ! i ! j) [0..<2 ^ length (lnls m)]])"
proof -
  let ?L = "length (lnls m)"
  let ?m1 = "with_state m (sl ! i)"
  have li: "length (sl ! i) = ?L" using i sl by (simp add: states_nth)
  have m1: "with_state m' (sl ! i) = ?m1" using sb li by (simp add: same_base_def)
  have bi': "binary (sl ! i)" using i sl by (simp add: states_nth binary_bits)
  have ss: "state_set m' (map PyInt (sl ! i)) = (None, ?m1)"
    using state_set_with_state [of "sl ! i" m'] sb li m1 bi' by (simp add: same_base_def)
  have js: "\<forall>j \<in> set (mk ! i). j < length (A ! i)"
    using i A sl mk by (simp add: gen_mask_nth)
  have f: "\<forall>j \<in> set (mk ! i).
      comp_transition_prob ?m1 (sl ! j) False = Inr (trans_prob ?m1 (sl ! j), ?m1)"
  proof
    fix j assume "j \<in> set (mk ! i)"
    then have j: "j < 2 ^ ?L" using i sl mk by (simp add: gen_mask_nth)
    show "comp_transition_prob ?m1 (sl ! j) False = Inr (trans_prob ?m1 (sl ! j), ?m1)"
      using j sl by (intro comp_transition_prob_pure) (simp_all add: states_nth binary_bits)
  qed
  have iA: "i < length A" using i A by simp
  have row: "fold (\<lambda>j r. r[j := trans_prob ?m1 (sl ! j)]) (mk ! i) (A ! i)
      = map (\<lambda>j. if j \<in> set (mk ! i) then trans_prob ?m1 (sl ! j) else A ! i ! j) [0..<2 ^ ?L]"
    using A iA by (intro nth_equalityI) (simp_all add: fold_update_nth)
  show ?thesis
    unfolding gen_A_row_def
    by (simp add: ss fold_err_row [OF iA js f] row)
qed

lemma fold_err_append:
  "fold_err f (xs @ ys) s = bind_err (fold_err f xs s) (fold_err f ys)"
  by (induction xs arbitrary: s) (simp_all add: bind_err_def split: sum.splits)

lemma gen_A_fold:
  assumes sl: "sl = states (length (lnls m))" and mk: "mk = gen_mask sl"
    and A: "length A0 = 2 ^ length (lnls m)" "\<forall>r \<in> set A0. length r = 2 ^ length (lnls m)"
    and n: "n \<le> 2 ^ length (lnls m)"
  shows "\<exists>m'. same_base m m' \<and> edges m' = edges m \<and>
          fold_err (gen_A_row sl mk) [0..<n] (m, A0) =
            Inr (m', map (\<lambda>i. if i < n
                       then map (\<lambda>j. if j \<in> set (mk ! i)
                               then trans_prob (with_state m (sl ! i)) (sl ! j)
                               else A0 ! i ! j) [0..<2 ^ length (lnls m)]
                       else A0 ! i) [0..<2 ^ length (lnls m)])"
  using n
proof (induction n)
  case 0
  have "map (\<lambda>i. A0 ! i) [0..<2 ^ length (lnls m)] = A0"
    using A(1) by (intro nth_equalityI) simp_all
  then show ?case using same_base_refl by auto
next
  case (Suc n)
  let ?N = "2 ^ length (lnls m) :: nat"
  let ?row = "\<lambda>i. map (\<lambda>j. if j \<in> set (mk ! i)
                               then trans_prob (with_state m (sl ! i)) (sl ! j)
                               else A0 ! i ! j) [0..<?N]"
  let ?An = "map (\<lambda>i. if i < n then ?row i else A0 ! i) [0..<?N]"
  from Suc obtain m' where sb: "same_base m m'"
    and f: "fold_err (gen_A_row sl mk) [0..<n] (m, A0) = Inr (m', ?An)" by auto
  have n: "n < ?N" using Suc.prems by simp
  have An: "length ?An = ?N" "\<forall>r \<in> set ?An. length r = ?N" using A by auto
  have Ani: "?An ! n = A0 ! n" using n by simp
  have step: "gen_A_row sl mk n (m', ?An) =
      Inr (with_state m (sl ! n), ?An[n := ?row n])"
    using gen_A_row_pure [OF sl mk sb n An] unfolding Ani .
  have upd: "?An[n := ?row n] = map (\<lambda>i. if i < Suc n then ?row i else A0 ! i) [0..<?N]"
    using n by (intro nth_equalityI) (auto simp: nth_list_update less_Suc_eq)
  have ln: "length (sl ! n) = length (lnls m)" using n sl by (simp add: states_nth)
  have "same_base m (with_state m (sl ! n))"
    using same_base_step [OF same_base_refl ln] .
  moreover have "edges (with_state m (sl ! n)) = edges m" by (simp add: with_state_def)
  ultimately show ?case
    by (intro exI [of _ "with_state m (sl ! n)"]) (simp add: fold_err_append f step upd)
qed

lemma gen_A_fresh:
  assumes "A_cache m = None"
  shows "\<exists>m'. gen_A m = return_res (m'\<lparr>A_cache := Some (A_matrix m)\<rparr>)
            \<and> same_base m m' \<and> edges m' = edges m"
proof -
  let ?L = "length (lnls m)"
  let ?sl = "states ?L"
  let ?A0 = "zeros (2 ^ ?L) (2 ^ ?L)"
  have A0: "length ?A0 = 2 ^ ?L" "\<forall>r \<in> set ?A0. length r = 2 ^ ?L"
    by (simp_all add: zeros_def)
  from gen_A_fold [OF refl refl A0 order_refl]
  obtain m' where sb: "same_base m m'" and ed: "edges m' = edges m"
    and f: "fold_err (gen_A_row ?sl (gen_mask ?sl)) [0..<2 ^ ?L] (m, ?A0) =
            Inr (m', map (\<lambda>i. if i < 2 ^ ?L
                       then map (\<lambda>j. if j \<in> set (gen_mask ?sl ! i)
                               then trans_prob (with_state m (?sl ! i)) (?sl ! j)
                               else ?A0 ! i ! j) [0..<2 ^ ?L]
                       else ?A0 ! i) [0..<2 ^ ?L])" by blast
  have eq: "map (\<lambda>i. if i < 2 ^ ?L
                       then map (\<lambda>j. if j \<in> set (gen_mask ?sl ! i)
                               then trans_prob (with_state m (?sl ! i)) (?sl ! j)
                               else ?A0 ! i ! j) [0..<2 ^ ?L]
                       else ?A0 ! i) [0..<2 ^ ?L] = A_matrix m"
    unfolding A_matrix_def Let_def
    by (intro nth_equalityI) (simp_all add: zeros_def)
  have "gen_A m = return_res (m'\<lparr>A_cache := Some (A_matrix m)\<rparr>)"
    unfolding gen_A_def Let_def
    using assms f by (simp add: state_list_states mask_states eq)
  with sb ed show ?thesis by blast
qed

lemma A_get_fresh:
  assumes "A_cache m = None"
  shows "\<exists>m'. A_get m = return_res (A_matrix m, m'\<lparr>A_cache := Some (A_matrix m)\<rparr>)
            \<and> same_base m m' \<and> edges m' = edges m"
proof -
  from gen_A_fresh [OF assms] obtain m' where
    g: "gen_A m = return_res (m'\<lparr>A_cache := Some (A_matrix m)\<rparr>)"
    and sb: "same_base m m'" and ed: "edges m' = edges m" by blast
  have "A_get m = return_res (A_matrix m, m'\<lparr>A_cache := Some (A_matrix m)\<rparr>)"
    using assms by (simp add: A_get_def g)
  with sb ed show ?thesis by blast
qed

lemma sum_double: "(\<Sum>j<2 * n. f j) = (\<Sum>i<n. f (2 * i) + f (2 * i + 1 :: nat) :: real)"
  by (induction n) simp_all

lemma row_weight_snoc:
  assumes "length s = length t" and "length a = length t"
  shows "row_weight (s @ [x]) (a @ [p]) (t @ [y]) =
           row_weight s a t * (if y < x then 0 else edge_factor x p y)"
  using assms by (simp add: row_weight_def)

lemma row_weight_sum:
  assumes "length s = L" and "length a = L" and "binary s"
  shows "(\<Sum>j<2 ^ L. row_weight s a (bits L j)) = 1"
  using assms
proof (induction L arbitrary: s a)
  case 0
  then show ?case by (simp add: row_weight_def)
next
  case (Suc L)
  from Suc.prems(1) obtain x s0 where s: "s = s0 @ [x]" and s0: "length s0 = L"
    by (auto simp: length_Suc_conv_rev)
  from Suc.prems(2) obtain p a0 where a: "a = a0 @ [p]" and a0: "length a0 = L"
    by (auto simp: length_Suc_conv_rev)
  from Suc.prems(3) s have x: "x = 0 \<or> x = 1" and b0: "binary s0"
    by (auto simp: binary_def)
  have w: "row_weight s a (bits (Suc L) j) =
      row_weight s0 a0 (bits L (j div 2)) *
        (if int (j mod 2) < x then 0 else edge_factor x p (int (j mod 2)))" for j
    unfolding s a bits.simps by (rule row_weight_snoc) (simp_all add: s0 a0)
  have "(\<Sum>j<2 ^ Suc L. row_weight s a (bits (Suc L) j))
      = (\<Sum>i<2 ^ L. row_weight s a (bits (Suc L) (2 * i))
                    + row_weight s a (bits (Suc L) (2 * i + 1)))"
    using sum_double [of "\<lambda>j. row_weight s a (bits (Suc L) j)" "2 ^ L"] by simp
  also have "\<dots> = (\<Sum>i<2 ^ L. row_weight s0 a0 (bits L i))"
  proof (rule sum.cong)
    fix i
    have w0: "row_weight s a (bits (Suc L) (2 * i)) =
        row_weight s0 a0 (bits L i) * (if 0 < x then 0 else edge_factor x p 0)"
      using w [of "2 * i"] by simp
    have w1: "row_weight s a (bits (Suc L) (2 * i + 1)) =
        row_weight s0 a0 (bits L i) * (if 1 < x then 0 else edge_factor x p 1)"
      using w [of "2 * i + 1"] by simp
    show "row_weight s a (bits (Suc L) (2 * i)) + row_weight s a (bits (Suc L) (2 * i + 1))
        = row_weight s0 a0 (bits L i)"
      unfolding w0 w1 using x by (auto simp: edge_factor_def algebra_simps)
  qed simp
  also have "\<dots> = 1" using Suc.IH [OF s0 a0 b0] .
  finally show ?case .
qed

lemma mask_member:
  assumes "i < length sl" and "j < length sl"
  shows "j \<in> set (gen_mask sl ! i) \<longleftrightarrow> \<not> list_ex (\<lambda>(a, b). b < a) (zip (sl ! i) (sl ! j))"
  using assms by (simp add: gen_mask_nth)

lemma node_state_with_state:
  assumes "length s = length (lnls m)" and "q < length (lnls m)"
  shows "node_state (nodes (with_state m s) ! (lnls m ! q)) = s ! q"
  using write_states_hit [OF distinct_lnls assms(1) _ assms(2)] lnls_bound
  by (simp add: with_state_def)

lemma trans_prob_row_weight:
  assumes "length s = length (lnls m)" and "length s' = length (lnls m)"
  shows "trans_prob (with_state m s) s' =
           prod_list (map (\<lambda>(x, p, y). edge_factor x p y)
             (zip s (zip (map (\<lambda>k. hd (lnl_dist (with_state m s) k)) (lnls m)) s')))"
proof -
  let ?m1 = "with_state m s"
  let ?L = "length (lnls m)"
  have d: "lnl_dist ?m1 k = [hd (lnl_dist ?m1 k), 1 - hd (lnl_dist ?m1 k)]" for k
    using node_trans_prob_pair [of "map (\<lambda>e. node_state (nodes ?m1 ! edge_start e)) (inc ?m1 k)"
        "map edge_t (inc ?m1 k)"]
    by (auto simp: lnl_dist_def)
  have "map (\<lambda>(i, k). if node_state (nodes ?m1 ! k) = 0
                               then lnl_dist ?m1 k ! nat (s' ! i) else 1)
                  (zip [0..<?L] (lnls m))
      = map (\<lambda>(x, p, y). edge_factor x p y)
             (zip s (zip (map (\<lambda>k. hd (lnl_dist ?m1 k)) (lnls m)) s'))"
  proof (rule nth_equalityI)
    show "length (map (\<lambda>(i, k). if node_state (nodes ?m1 ! k) = 0
                               then lnl_dist ?m1 k ! nat (s' ! i) else 1)
                  (zip [0..<?L] (lnls m)))
      = length (map (\<lambda>(x, p, y). edge_factor x p y)
             (zip s (zip (map (\<lambda>k. hd (lnl_dist ?m1 k)) (lnls m)) s')))"
      using assms by simp
  next
    fix q assume "q < length (map (\<lambda>(i, k). if node_state (nodes ?m1 ! k) = 0
                               then lnl_dist ?m1 k ! nat (s' ! i) else 1)
                  (zip [0..<?L] (lnls m)))"
    then have q: "q < ?L" by simp
    show "map (\<lambda>(i, k). if node_state (nodes ?m1 ! k) = 0
                               then lnl_dist ?m1 k ! nat (s' ! i) else 1)
                  (zip [0..<?L] (lnls m)) ! q
      = map (\<lambda>(x, p, y). edge_factor x p y)
             (zip s (zip (map (\<lambda>k. hd (lnl_dist ?m1 k)) (lnls m)) s')) ! q"
      using q assms node_state_with_state [OF assms(1) q] d [of "lnls m ! q"]
      by (simp add: edge_factor_def)
  qed
  then show ?thesis by (simp add: trans_prob_def)
qed

lemma A_matrix_row_sum:
  assumes "i < 2 ^ length (lnls m)"
  shows "sum_list (A_matrix m ! i) = 1"
proof -
  let ?L = "length (lnls m)"
  let ?s = "bits ?L i"
  let ?a = "map (\<lambda>k. hd (lnl_dist (with_state m ?s) k)) (lnls m)"
  have "A_matrix m ! i = map (\<lambda>j. row_weight ?s ?a (bits ?L j)) [0..<2 ^ ?L]"
    unfolding A_matrix_def Let_def using assms
    by (intro nth_equalityI)
      (simp_all add: mask_member states_nth row_weight_def trans_prob_row_weight)
  then have "sum_list (A_matrix m ! i) = (\<Sum>j<2 ^ ?L. row_weight ?s ?a (bits ?L j))"
    by (simp add: interv_sum_list_conv_sum_set_nat atLeast0LessThan)
  also have "\<dots> = 1" by (rule row_weight_sum) (simp_all add: binary_bits)
  finally show ?thesis .
qed

lemma A_matrix_upper:
  assumes "i < 2 ^ length (lnls m)" and "j < 2 ^ length (lnls m)"
    and "q < length (lnls m)"
    and "states (length (lnls m)) ! j ! q < states (length (lnls m)) ! i ! q"
  shows "A_matrix m ! i ! j = 0"
proof -
  let ?sl = "states (length (lnls m))"
  have "(?sl ! i ! q, ?sl ! j ! q) \<in> set (zip (?sl ! i) (?sl ! j))"
    using assms(1-3) by (auto simp: set_zip states_nth)
  with assms(4) have "list_ex (\<lambda>(a, b). b < a) (zip (?sl ! i) (?sl ! j))"
    by (auto simp: list_ex_iff)
  then have "j \<notin> set (gen_mask ?sl ! i)" using assms(1,2) by (simp add: mask_member)
  then show ?thesis using assms(1,2) by (simp add: A_matrix_def Let_def)
qed

text \<open>
  Claim C1. On a model whose matrix is not cached, \<open>_gen_A\<close> returns, and the
  property \<open>A\<close> returns the matrix it stored: a square matrix over the \<open>2 ^ L\<close>
  hidden states every row of which sums to one. The sum is exact over the reals, so
  it is within \<open>1e-9\<close> of one; no bound on the edge weights is needed.
\<close>

theorem A_rows_sum_to_one:
  assumes "A_cache m = None"
  shows "\<exists>A m'. gen_A m = Some (Inr m') \<and> A_cache m' = Some A
           \<and> A_get m = Some (Inr (A, m'))
           \<and> length A = 2 ^ length (lnls m)
           \<and> (\<forall>i < 2 ^ length (lnls m).
                 length (A ! i) = 2 ^ length (lnls m) \<and> sum_list (A ! i) = 1
                 \<and> \<bar>sum_list (A ! i) - 1\<bar> \<le> 1 / 10 ^ 9)"
proof -
  from gen_A_fresh [OF assms] obtain m' where
    g: "gen_A m = return_res (m'\<lparr>A_cache := Some (A_matrix m)\<rparr>)" by blast
  have a: "A_get m = return_res (A_matrix m, m'\<lparr>A_cache := Some (A_matrix m)\<rparr>)"
    using assms by (simp add: A_get_def g)
  have len: "length (A_matrix m) = 2 ^ length (lnls m)"
    by (simp add: A_matrix_def Let_def)
  have rows: "\<forall>i < 2 ^ length (lnls m). length (A_matrix m ! i) = 2 ^ length (lnls m)"
    by (simp add: A_matrix_def Let_def)
  show ?thesis
    using g a len rows A_matrix_row_sum [of _ m]
    by (intro exI [of _ "A_matrix m"] exI [of _ "m'\<lparr>A_cache := Some (A_matrix m)\<rparr>"])
      (simp add: return_res_def)
qed

text \<open>
  Claim C2. On a model whose matrix is not cached, the matrix that \<open>_gen_A\<close> stores
  and the property \<open>A\<close> returns has a zero at \<open>[i, j]\<close> whenever some component of
  state \<open>j\<close> is below the same component of state \<open>i\<close>, the states being the rows
  of \<open>state_list\<close>.
\<close>

theorem A_upper_triangular:
  assumes "A_cache m = None"
  shows "\<exists>A m' sl. gen_A m = Some (Inr m') \<and> A_cache m' = Some A
           \<and> A_get m = Some (Inr (A, m'))
           \<and> state_list m = Some (Inr sl)
           \<and> length sl = 2 ^ length (lnls m) \<and> length A = 2 ^ length (lnls m)
           \<and> (\<forall>i < 2 ^ length (lnls m). \<forall>j < 2 ^ length (lnls m).
                 length (sl ! i) = length (lnls m) \<and> length (A ! i) = 2 ^ length (lnls m)
                 \<and> ((\<exists>q < length (lnls m). sl ! j ! q < sl ! i ! q) \<longrightarrow> A ! i ! j = 0))"
proof -
  from gen_A_fresh [OF assms] obtain m' where
    g: "gen_A m = return_res (m'\<lparr>A_cache := Some (A_matrix m)\<rparr>)" by blast
  have a: "A_get m = return_res (A_matrix m, m'\<lparr>A_cache := Some (A_matrix m)\<rparr>)"
    using assms by (simp add: A_get_def g)
  have len: "length (A_matrix m) = 2 ^ length (lnls m)"
    by (simp add: A_matrix_def Let_def)
  have rows: "\<forall>i < 2 ^ length (lnls m). length (A_matrix m ! i) = 2 ^ length (lnls m)"
    by (simp add: A_matrix_def Let_def)
  show ?thesis
    using g a len rows A_matrix_upper [of _ m] state_list_states [of m]
    by (intro exI [of _ "A_matrix m"] exI [of _ "m'\<lparr>A_cache := Some (A_matrix m)\<rparr>"]
        exI [of _ "states (length (lnls m))"])
      (auto simp: return_res_def states_nth)
qed

lemma length_write_probs [simp]: "length (write_probs qs i new es) = length es"
  by (induction qs i new es rule: write_probs.induct) simp_all

lemma write_probs_frame:
  "edge_start (write_probs qs i new es ! q) = edge_start (es ! q)
   \<and> edge_end (write_probs qs i new es ! q) = edge_end (es ! q)"
proof (induction qs i new es rule: write_probs.induct)
  case (2 q' qs i new es)
  then show ?case
    by (cases "q' < length es") (auto simp: nth_list_update list_update_beyond)
qed simp

lemma write_probs_other:
  "q \<notin> set qs \<Longrightarrow> write_probs qs i new es ! q = es ! q"
  by (induction qs i new es rule: write_probs.induct) (auto simp: nth_list_update)

lemma write_probs_hit:
  assumes "distinct qs" and "\<forall>q \<in> set qs. q < length es" and "j < length qs"
  shows "edge_t (write_probs qs i new es ! (qs ! j)) = new ! (i + j)"
  using assms
proof (induction qs i new es arbitrary: j rule: write_probs.induct)
  case (2 q qs i new es)
  show ?case
  proof (cases j)
    case 0
    with "2.prems" show ?thesis by (simp add: write_probs_other)
  next
    case (Suc j')
    with "2.prems" "2.IH" [of j'] show ?thesis by simp
  qed
qed simp

lemma set_probs_frame:
  "set_probs qs i new es = (e, es') \<Longrightarrow>
     length es' = length es
     \<and> (\<forall>q. edge_start (es' ! q) = edge_start (es ! q) \<and> edge_end (es' ! q) = edge_end (es ! q))
     \<and> (\<forall>q. q \<notin> set qs \<longrightarrow> es' ! q = es ! q)"
proof (induction qs i new es rule: set_probs.induct)
  case (1 i new es)
  then show ?case by simp
next
  case (2 q qs i new es)
  show ?case
  proof (cases "i < length new \<and> 0 \<le> new ! i \<and> new ! i \<le> 1")
    case True
    let ?es1 = "es[q := (es ! q)\<lparr>edge_t := new ! i\<rparr>]"
    from True "2.prems" have r: "set_probs qs (Suc i) new ?es1 = (e, es')"
      by (simp add: edge_t_set_def)
    have e1: "edge_t_set (es ! q) (new ! i) = Inr ((es ! q)\<lparr>edge_t := new ! i\<rparr>)"
      using True by (simp add: edge_t_set_def)
    from "2.IH" [OF _ e1 r] True
    have IH: "length es' = length ?es1"
      "\<forall>q'. edge_start (es' ! q') = edge_start (?es1 ! q')
            \<and> edge_end (es' ! q') = edge_end (?es1 ! q')"
      "\<forall>q'. q' \<notin> set qs \<longrightarrow> es' ! q' = ?es1 ! q'" by simp_all
    have fr: "edge_start (?es1 ! q') = edge_start (es ! q')
        \<and> edge_end (?es1 ! q') = edge_end (es ! q')" for q'
      by (cases "q < length es") (auto simp: nth_list_update list_update_beyond)
    show ?thesis using IH fr by (auto simp: nth_list_update)
  next
    case False
    with "2.prems" have "es' = es" by (auto simp: edge_t_set_def split: if_splits)
    then show ?thesis by simp
  qed
qed

lemma set_probs_None:
  "set_probs qs i new es = (None, es') \<longleftrightarrow>
     (qs = [] \<or> i + length qs \<le> length new)
     \<and> (\<forall>j < length qs. 0 \<le> new ! (i + j) \<and> new ! (i + j) \<le> 1)
     \<and> es' = write_probs qs i new es"
proof (induction qs i new es rule: set_probs.induct)
  case (1 i new es)
  show ?case by auto
next
  case (2 q qs i new es)
  show ?case
  proof (cases "i < length new \<and> 0 \<le> new ! i \<and> new ! i \<le> 1")
    case True
    let ?es1 = "es[q := (es ! q)\<lparr>edge_t := new ! i\<rparr>]"
    have e1: "edge_t_set (es ! q) (new ! i) = Inr ((es ! q)\<lparr>edge_t := new ! i\<rparr>)"
      using True by (simp add: edge_t_set_def)
    have all: "(\<forall>j < Suc (length qs). 0 \<le> new ! (i + j) \<and> new ! (i + j) \<le> 1)
        \<longleftrightarrow> (\<forall>j < length qs. 0 \<le> new ! (Suc i + j) \<and> new ! (Suc i + j) \<le> 1)"
      using True by (auto simp: less_Suc_eq_0_disj)
    have len: "(qs = [] \<or> Suc i + length qs \<le> length new)
        \<longleftrightarrow> i + Suc (length qs) \<le> length new"
      using True by auto
    from "2.IH" [OF _ e1] True
    have "set_probs qs (Suc i) new ?es1 = (None, es') \<longleftrightarrow>
        (qs = [] \<or> Suc i + length qs \<le> length new)
        \<and> (\<forall>j < length qs. 0 \<le> new ! (Suc i + j) \<and> new ! (Suc i + j) \<le> 1)
        \<and> es' = write_probs qs (Suc i) new ?es1" by simp
    then show ?thesis using True e1 all len by simp
  next
    case False
    then have "fst (set_probs (q # qs) i new es) \<noteq> None"
      by (auto simp: edge_t_set_def)
    moreover from False have "\<not> (i + Suc (length qs) \<le> length new
        \<and> (\<forall>j < Suc (length qs). 0 \<le> new ! (i + j) \<and> new ! (i + j) \<le> 1))"
      by (metis add.right_neutral add_Suc_right le_add1 less_eq_Suc_le not_less_eq_eq
          order_trans zero_less_Suc)
    ultimately show ?thesis by auto
  qed
qed

lemma base_edges_cong:
  "nodes m' = nodes m \<Longrightarrow> length (edges m') = length (edges m) \<Longrightarrow>
   (\<And>q. edge_start (edges m' ! q) = edge_start (edges m ! q)) \<Longrightarrow>
   base_edges m' = base_edges m \<and> trans_edges m' = trans_edges m"
  by (simp add: base_edges_def trans_edges_def)

lemma base_probs_set_None:
  "base_probs_set m new = (None, m') \<longleftrightarrow>
     (\<exists>es. set_probs (base_edges m) 0 new (edges m) = (None, es)
           \<and> m' = m\<lparr>edges := es, A_cache := None\<rparr>)"
  by (auto simp: base_probs_set_def split: prod.splits option.splits)

lemma trans_probs_set_None:
  "trans_probs_set m new = (None, m') \<longleftrightarrow>
     (\<exists>es. set_probs (trans_edges m) 0 new (edges m) = (None, es)
           \<and> m' = m\<lparr>edges := es, A_cache := None\<rparr>)"
  by (auto simp: trans_probs_set_def split: prod.splits option.splits)

lemma base_probs_set_props:
  assumes "base_probs_set m new = (None, m')"
  shows "A_cache m' = None" and "nodes m' = nodes m"
    and "base_edges m' = base_edges m" and "trans_edges m' = trans_edges m"
    and "base_probs m' = take (length (base_edges m)) new"
    and "trans_probs m' = trans_probs m"
    and "base_probs_set (m\<lparr>A_cache := c\<rparr>) new = (None, m')"
proof -
  from assms obtain es where es: "set_probs (base_edges m) 0 new (edges m) = (None, es)"
    and m': "m' = m\<lparr>edges := es, A_cache := None\<rparr>"
    unfolding base_probs_set_None by blast
  note fr = set_probs_frame [OF es]
  from es have en: "base_edges m = [] \<or> length (base_edges m) \<le> length new"
    and w: "es = write_probs (base_edges m) 0 new (edges m)"
    unfolding set_probs_None by simp_all
  show "A_cache m' = None" "nodes m' = nodes m" by (simp_all add: m')
  have c: "base_edges m' = base_edges m \<and> trans_edges m' = trans_edges m"
    by (rule base_edges_cong) (simp_all add: m' fr)
  then show be: "base_edges m' = base_edges m" and te: "trans_edges m' = trans_edges m" by simp_all
  have d: "distinct (base_edges m)" and b: "\<forall>q \<in> set (base_edges m). q < length (edges m)"
    by (simp_all add: base_edges_def)
  have "map (\<lambda>q. edge_t (es ! q)) (base_edges m) = take (length (base_edges m)) new"
    unfolding w using write_probs_hit [OF d b] en
    by (intro nth_equalityI) auto
  then show "base_probs m' = take (length (base_edges m)) new"
    unfolding base_probs_def be by (simp add: m')
  have "\<And>q. q \<in> set (trans_edges m) \<Longrightarrow> q \<notin> set (base_edges m)"
    by (simp add: base_edges_def trans_edges_def)
  then show "trans_probs m' = trans_probs m"
    unfolding trans_probs_def te using fr by (simp add: m')
  show "base_probs_set (m\<lparr>A_cache := c\<rparr>) new = (None, m')"
    using es by (simp add: base_probs_set_def base_edges_def m')
qed

lemma trans_probs_set_props:
  assumes "trans_probs_set m new = (None, m')"
  shows "A_cache m' = None" and "nodes m' = nodes m"
    and "base_edges m' = base_edges m" and "trans_edges m' = trans_edges m"
    and "trans_probs m' = take (length (trans_edges m)) new"
    and "base_probs m' = base_probs m"
    and "trans_probs_set (m\<lparr>A_cache := c\<rparr>) new = (None, m')"
proof -
  from assms obtain es where es: "set_probs (trans_edges m) 0 new (edges m) = (None, es)"
    and m': "m' = m\<lparr>edges := es, A_cache := None\<rparr>"
    unfolding trans_probs_set_None by blast
  note fr = set_probs_frame [OF es]
  from es have en: "trans_edges m = [] \<or> length (trans_edges m) \<le> length new"
    and w: "es = write_probs (trans_edges m) 0 new (edges m)"
    unfolding set_probs_None by simp_all
  show "A_cache m' = None" "nodes m' = nodes m" by (simp_all add: m')
  have c: "base_edges m' = base_edges m \<and> trans_edges m' = trans_edges m"
    by (rule base_edges_cong) (simp_all add: m' fr)
  then show be: "base_edges m' = base_edges m" and te: "trans_edges m' = trans_edges m" by simp_all
  have d: "distinct (trans_edges m)" and b: "\<forall>q \<in> set (trans_edges m). q < length (edges m)"
    by (simp_all add: trans_edges_def)
  have "map (\<lambda>q. edge_t (es ! q)) (trans_edges m) = take (length (trans_edges m)) new"
    unfolding w using write_probs_hit [OF d b] en
    by (intro nth_equalityI) auto
  then show "trans_probs m' = take (length (trans_edges m)) new"
    unfolding trans_probs_def te by (simp add: m')
  have "\<And>q. q \<in> set (base_edges m) \<Longrightarrow> q \<notin> set (trans_edges m)"
    by (simp add: base_edges_def trans_edges_def)
  then show "base_probs m' = base_probs m"
    unfolding base_probs_def be using fr by (simp add: m')
  show "trans_probs_set (m\<lparr>A_cache := c\<rparr>) new = (None, m')"
    using es by (simp add: trans_probs_set_def trans_edges_def m')
qed

lemma spread_probs_set_None:
  "spread_probs_set m new = (None, m') \<longleftrightarrow>
     (\<exists>m1. base_probs_set m (take (length (base_edges m)) new) = (None, m1)
           \<and> trans_probs_set m1 (drop (length (base_edges m)) new) = (None, m'))"
  by (auto simp: spread_probs_set_def Let_def split: prod.splits option.splits)

lemma spread_probs_set_props:
  assumes "spread_probs_set m new = (None, m')"
  shows "A_cache m' = None" and "nodes m' = nodes m"
    and "spread_probs m' = take (length (spread_probs m)) new"
    and "spread_probs_set (m\<lparr>A_cache := c\<rparr>) new = (None, m')"
proof -
  let ?n = "length (base_edges m)"
  from assms obtain m1 where m1: "base_probs_set m (take ?n new) = (None, m1)"
    and m': "trans_probs_set m1 (drop ?n new) = (None, m')"
    unfolding spread_probs_set_None by blast
  note p1 = base_probs_set_props [OF m1]
  note p2 = trans_probs_set_props [OF m']
  show "A_cache m' = None" by (rule p2(1))
  show "nodes m' = nodes m" using p1(2) p2(2) by simp
  have "?n \<le> length new"
  proof -
    from m1 obtain es where "set_probs (base_edges m) 0 (take ?n new) (edges m) = (None, es)"
      unfolding base_probs_set_None by blast
    then show ?thesis unfolding set_probs_None by auto
  qed
  then show "spread_probs m' = take (length (spread_probs m)) new"
    using p1(3-6) p2(3-6)
    by (simp add: spread_probs_def base_probs_def trans_probs_def take_add min_def)
  have "base_edges (m\<lparr>A_cache := c\<rparr>) = base_edges m" by (simp add: base_edges_def)
  then show "spread_probs_set (m\<lparr>A_cache := c\<rparr>) new = (None, m')"
    using p1(7) [of c] m' by (simp add: spread_probs_set_def Let_def)
qed

lemma setters_raise_keep_cache:
  "base_probs_set m new = (Some e, m') \<Longrightarrow> A_cache m' = A_cache m \<and> nodes m' = nodes m"
  "trans_probs_set m new = (Some e, m') \<Longrightarrow> A_cache m' = A_cache m \<and> nodes m' = nodes m"
  by (auto simp: base_probs_set_def trans_probs_set_def split: prod.splits option.splits)

lemma upt_3: "[0..<3] = [0, 1, 2]"
  by (simp add: upt_rec)

lemma init_example: "init_unilateral t0 example_graph = Inr (example_model t0 t0 t0)"
  by (simp add: init_unilateral_def example_graph_def example_model_def Edge_def find_node_def
      Node_def upt_3)

lemma lnls_example: "lnls (example_model a b c\<lparr>A_cache := x\<rparr>) = [1, 2]"
  by (simp add: lnls_def example_model_def Node_def upt_3)

lemma base_edges_example: "base_edges (example_model a b c\<lparr>A_cache := x\<rparr>) = [0, 1]"
  by (simp add: base_edges_def example_model_def Node_def upt_3)

lemma trans_edges_example: "trans_edges (example_model a b c\<lparr>A_cache := x\<rparr>) = [2]"
  by (simp add: trans_edges_def example_model_def Node_def upt_3)

lemma spread_probs_set_example:
  assumes "0 \<le> a'" "a' \<le> 1" "0 \<le> b'" "b' \<le> 1" "0 \<le> c'" "c' \<le> 1"
  shows "spread_probs_set (example_model a b c\<lparr>A_cache := x\<rparr>) [a', b', c']
           = (None, example_model a' b' c')"
  unfolding spread_probs_set_def base_probs_set_def trans_probs_set_def Let_def
    base_edges_example
  using assms
  apply (simp add: example_model_def edge_t_set_def)
  apply (simp add: trans_edges_def Node_def upt_3 edge_t_set_def)
  done

lemma reads_fresh_A_I: "A_cache m = None \<Longrightarrow> reads_fresh_A m"
  using A_get_fresh [of m] by (fastforce simp: reads_fresh_A_def return_res_def)

lemma spread_probs_are_valid_cache:
  "spread_probs_are_valid (m\<lparr>A_cache := c\<rparr>) new = spread_probs_are_valid m new"
  by (simp add: spread_probs_are_valid_def spread_probs_def base_probs_def trans_probs_def
      base_edges_def trans_edges_def)

theorem A_rows_sum_to_one_witness:
  "A_cache (example_model (3/10) (1/5) (1/2)) = None
   \<and> (\<exists>A m'. A_get (example_model (3/10) (1/5) (1/2)) = Some (Inr (A, m'))
         \<and> length A = 4 \<and> sum_list (A ! 0) = 1 \<and> sum_list (A ! 3) = 1)"
proof -
  have n: "A_cache (example_model (3/10) (1/5) (1/2)) = None"
    by (simp add: example_model_def)
  have l: "length (lnls (example_model (3/10) (1/5) (1/2))) = 2"
    using lnls_example [where a = "3/10" and b = "1/5" and c = "1/2" and x = None] by (simp add: example_model_def)
  from A_rows_sum_to_one [OF n] n show ?thesis unfolding l by fastforce
qed

theorem A_upper_triangular_witness:
  "A_cache (example_model (3/10) (1/5) (1/2)) = None
   \<and> (\<exists>A m' sl. A_get (example_model (3/10) (1/5) (1/2)) = Some (Inr (A, m'))
         \<and> state_list (example_model (3/10) (1/5) (1/2)) = Some (Inr sl)
         \<and> sl ! 1 ! 0 < sl ! 3 ! 0 \<and> A ! 3 ! 1 = 0)"
proof -
  let ?m = "example_model (3/10) (1/5) (1/2)"
  have n: "A_cache ?m = None" by (simp add: example_model_def)
  have l: "length (lnls ?m) = 2"
    using lnls_example [where a = "3/10" and b = "1/5" and c = "1/2" and x = None] by (simp add: example_model_def)
  from A_upper_triangular [OF n] obtain A m' sl where
    a: "A_get ?m = Some (Inr (A, m'))" and s: "state_list ?m = Some (Inr sl)"
    and u: "\<forall>i < 2 ^ length (lnls ?m). \<forall>j < 2 ^ length (lnls ?m).
                 length (sl ! i) = length (lnls ?m) \<and> length (A ! i) = 2 ^ length (lnls ?m)
                 \<and> ((\<exists>q < length (lnls ?m). sl ! j ! q < sl ! i ! q) \<longrightarrow> A ! i ! j = 0)"
    by blast
  have sl: "sl = states 2" using s state_list_states [of ?m] by (simp add: l return_res_def)
  have b2: "bits 2 i = [int (i div 2 mod 2), int (i mod 2)]" for i
    by (simp add: numeral_2_eq_2)
  have b: "sl ! 1 ! 0 < sl ! 3 ! 0"
    unfolding sl by (simp add: states_nth b2)
  from u [unfolded l] have "(\<exists>q < 2. sl ! 1 ! q < sl ! 3 ! q) \<longrightarrow> A ! 3 ! 1 = 0"
    by simp
  with b have "A ! 3 ! 1 = 0" by auto
  with n a s b show ?thesis by blast
qed

theorem state_set_frame_witness:
  "(\<exists>m'. state_set (example_model (3/10) (1/5) (1/2)) [PyBool True, PyFloat (Fin (1/2))]
             = (None, m')
        \<and> node_state (nodes m' ! 1) = 1 \<and> node_state (nodes m' ! 2) = 0
        \<and> nodes m' ! 0 = nodes (example_model (3/10) (1/5) (1/2)) ! 0
        \<and> edges m' = edges (example_model (3/10) (1/5) (1/2)))
   \<and> state_set (example_model (3/10) (1/5) (1/2)) [PyInt 1]
        = (Some ValueError, example_model (3/10) (1/5) (1/2))"
proof -
  let ?m = "example_model (3/10) (1/5) (1/2)"
  have l: "lnls ?m = [1, 2]"
    using lnls_example [where a = "3/10" and b = "1/5" and c = "1/2" and x = None]
    by (simp add: example_model_def)
  have t: "tumors ?m = [0]"
    by (simp add: tumors_def example_model_def Node_def upt_3)
  have a: "takeWhile accepted [PyBool True, PyFloat (Fin (1/2))]
      = [PyBool True, PyFloat (Fin (1/2))]"
    by (simp add: accepted_def py_int_def)
  from state_set_frame [where newstate = "[PyBool True, PyFloat (Fin (1/2))]" and m = ?m]
  obtain e m' where s: "state_set ?m [PyBool True, PyFloat (Fin (1/2))] = (e, m')"
    and e: "e = None"
    and h: "\<forall>i < 2. py_int ([PyBool True, PyFloat (Fin (1/2))] ! i)
              = Inr (node_state (nodes m' ! ([1, 2] ! i)))"
    and tu: "nodes m' ! 0 = nodes ?m ! 0"
    and m': "m' = ?m\<lparr>nodes := nodes m'\<rparr>"
    unfolding l t a by auto
  from h [rule_format, of 0] h [rule_format, of 1]
  have "node_state (nodes m' ! 1) = 1" "node_state (nodes m' ! 2) = 0"
    by (simp_all add: py_int_def)
  moreover have "edges m' = edges ?m" by (subst m') simp
  moreover from state_set_frame [where newstate = "[PyInt 1]" and m = ?m]
  have "state_set ?m [PyInt 1] = (Some ValueError, ?m)" unfolding l by simp
  ultimately show ?thesis using s e tu by blast
qed

text \<open>
  Claim C10 as stated fails for a sequence of the right length with an entry that is
  neither 0 nor 1: the setter of the second LNL refuses the value 2 with ValueError, and
  the first LNL, healthy before, has already been written.
\<close>

theorem state_set_refuses_after_writing:
  "fst (state_set (example_model (3/10) (1/5) (1/2)) [PyInt 1, PyInt 2]) = Some ValueError
   \<and> node_state (nodes (snd (state_set (example_model (3/10) (1/5) (1/2)) [PyInt 1, PyInt 2])) ! 1)
        = 1
   \<and> node_state (nodes (example_model (3/10) (1/5) (1/2)) ! 1) = 0"
proof -
  let ?m = "example_model (3/10) (1/5) (1/2)"
  have l: "lnls ?m = [1, 2]"
    using lnls_example [where a = "3/10" and b = "1/5" and c = "1/2" and x = None]
    by (simp add: example_model_def)
  show ?thesis
    unfolding state_set_def l
    by (simp add: example_model_def Node_def py_int_def node_state_set_def)
qed

lemma upt_2: "[0..<2] = [0, 1]"
  by (simp add: upt_rec)

lemma states_1: "states (Suc 0) = [[0], [1]]"
  by (simp add: states_def upt_2)

lemma gen_mask_1: "gen_mask [[0], [1]] = [[0, 1], [1]]"
  by (simp add: gen_mask_def upt_2)

lemma A_matrix_single:
  assumes l: "lnls m = [k]" and i: "inc m k = [e]" and ne: "edge_start e \<noteq> k"
    and st: "node_state (nodes m ! edge_start e) = 1" and p: "edge_t e = p"
  shows "A_matrix m = [[1 - p, p], [0, 1]]"
proof -
  have k: "k < length (nodes m)" using lnls_bound [of k m] l by simp
  have inc': "inc (with_state m s) k = [e]" for s
    using i by (simp add: inc_def with_state_def)
  have s0: "nodes (with_state m [v]) ! k = (nodes m ! k)\<lparr>node_state := v\<rparr>" for v
    using k by (simp add: with_state_def l)
  have s1: "nodes (with_state m [v]) ! edge_start e = nodes m ! edge_start e" for v
    using ne by (simp add: with_state_def l)
  have d: "lnl_dist (with_state m [v]) k = [1 - p, p]" for v
    by (simp add: lnl_dist_def inc' s1 st p node_trans_prob_def)
  have t: "trans_prob (with_state m [v]) [w] = (if v = 0 then [1 - p, p] ! nat w else 1)" for v w
    by (simp add: trans_prob_def l s0 d)
  show ?thesis
    by (simp add: A_matrix_def Let_def l states_1 gen_mask_1 upt_2 t)
qed

lemma mat_pow_nat_single:
  "mat_pow_nat [[1 - p, p], [0, 1]] t = Inr [[(1 - p) ^ t, 1 - (1 - p) ^ t], [0, 1]]"
proof (induction t)
  case 0
  then show ?case by (simp add: eye_def upt_2)
next
  case (Suc t)
  then show ?case
    by (simp add: mat_mul_def vec_mat_def ncols_def upt_2 algebra_simps)
qed

lemma evolve_single:
  assumes l: "lnls m = [k]" and i: "inc m k = [e]" and ne: "edge_start e \<noteq> k"
    and st: "node_state (nodes m ! edge_start e) = 1" and p: "edge_t e = p"
    and c: "A_cache m = None"
  shows "\<exists>m'. evolve np_inv m (int t) None =
            Some (Inr (Vector [(1 - p) ^ t, 1 - (1 - p) ^ t], m'))"
proof -
  from A_get_fresh [OF c] obtain m' where
    a: "A_get m = return_res (A_matrix m, m'\<lparr>A_cache := Some (A_matrix m)\<rparr>)" by blast
  have A: "A_matrix m = [[1 - p, p], [0, 1]]"
    by (rule A_matrix_single [OF l i ne st p])
  have "evolve np_inv m (int t) None =
      Some (Inr (Vector [(1 - p) ^ t, 1 - (1 - p) ^ t], m'\<lparr>A_cache := Some (A_matrix m)\<rparr>))"
    unfolding evolve_def
    by (simp add: state_list_states l states_1 a A mat_pow_def mat_pow_nat_single
        vec_mat_def ncols_def upt_2 return_res_def bind_res_def)
  then show ?thesis by blast
qed

lemma single_graph_model:
  assumes "tname \<noteq> lname"
    and "graph = [((''tumor'', tname), [lname]), ((''lnl'', lname), [])]
         \<or> graph = [((''lnl'', lname), []), ((''tumor'', tname), [lname])]"
    and "0 \<le> p" and "p \<le> 1"
  shows "\<exists>m0 m k e. init_unilateral t0 graph = Inr m0 \<and> spread_probs_set m0 [p] = (None, m)
           \<and> lnls m = [k] \<and> length (tumors m) = 1 \<and> spread_probs m = [p]
           \<and> inc m k = [e] \<and> edge_start e \<noteq> k
           \<and> node_state (nodes m ! edge_start e) = 1 \<and> edge_t e = p \<and> A_cache m = None"
  using assms(2)
proof
  assume g: "graph = [((''tumor'', tname), [lname]), ((''lnl'', lname), [])]"
  let ?ma = "\<lparr>nodes = [Node tname ''tumor'', Node lname ''lnl''],
      edges = [\<lparr>edge_start = 0, edge_end = 1, edge_t = t0\<rparr>],
      A_cache = None, modality_tables = None, obs_list_cache = None, B_cache = None,
      C_dict = None, f_dict = None\<rparr>"
  let ?m = "?ma\<lparr>edges := [\<lparr>edge_start = 0, edge_end = 1, edge_t = p\<rparr>]\<rparr>"
  have i: "init_unilateral t0 graph = Inr ?ma"
    using assms(1) by (simp add: g init_unilateral_def Edge_def find_node_def Node_def upt_2)
  have s: "spread_probs_set ?ma [p] = (None, ?m)"
    using assms(3,4)
    by (simp add: spread_probs_set_def base_probs_set_def trans_probs_set_def Let_def
        base_edges_def trans_edges_def Node_def edge_t_set_def)
  have r: "lnls ?m = [1] \<and> length (tumors ?m) = 1 \<and> spread_probs ?m = [p]
           \<and> inc ?m 1 = [\<lparr>edge_start = 0, edge_end = 1, edge_t = p\<rparr>]
           \<and> edge_start (\<lparr>edge_start = 0, edge_end = 1, edge_t = p\<rparr>) \<noteq> 1
           \<and> node_state (nodes ?m ! edge_start (\<lparr>edge_start = 0, edge_end = 1, edge_t = p\<rparr>)) = 1
           \<and> edge_t (\<lparr>edge_start = 0, edge_end = 1, edge_t = p\<rparr>) = p \<and> A_cache ?m = None"
    by (simp add: lnls_def tumors_def spread_probs_def base_probs_def trans_probs_def
        base_edges_def trans_edges_def inc_def Node_def upt_2)
  from i s r show ?thesis by blast
next
  assume g: "graph = [((''lnl'', lname), []), ((''tumor'', tname), [lname])]"
  let ?ma = "\<lparr>nodes = [Node lname ''lnl'', Node tname ''tumor''],
      edges = [\<lparr>edge_start = 1, edge_end = 0, edge_t = t0\<rparr>],
      A_cache = None, modality_tables = None, obs_list_cache = None, B_cache = None,
      C_dict = None, f_dict = None\<rparr>"
  let ?m = "?ma\<lparr>edges := [\<lparr>edge_start = 1, edge_end = 0, edge_t = p\<rparr>]\<rparr>"
  have i: "init_unilateral t0 graph = Inr ?ma"
    using assms(1) by (simp add: g init_unilateral_def Edge_def find_node_def Node_def upt_2)
  have s: "spread_probs_set ?ma [p] = (None, ?m)"
    using assms(3,4)
    by (simp add: spread_probs_set_def base_probs_set_def trans_probs_set_def Let_def
        base_edges_def trans_edges_def Node_def edge_t_set_def)
  have r: "lnls ?m = [0] \<and> length (tumors ?m) = 1 \<and> spread_probs ?m = [p]
           \<and> inc ?m 0 = [\<lparr>edge_start = 1, edge_end = 0, edge_t = p\<rparr>]
           \<and> edge_start (\<lparr>edge_start = 1, edge_end = 0, edge_t = p\<rparr>) \<noteq> 0
           \<and> node_state (nodes ?m ! edge_start (\<lparr>edge_start = 1, edge_end = 0, edge_t = p\<rparr>)) = 1
           \<and> edge_t (\<lparr>edge_start = 1, edge_end = 0, edge_t = p\<rparr>) = p \<and> A_cache ?m = None"
    by (simp add: lnls_def tumors_def spread_probs_def base_probs_def trans_probs_def
        base_edges_def trans_edges_def inc_def Node_def upt_2)
  from i s r show ?thesis by blast
qed

text \<open>
  Claim C6. For the graph of one tumor joined to one LNL (the two names distinct, the
  dictionary in either order), built by \<open>__init__\<close> and given the spread probability
  \<open>p\<close>, \<open>_evolve\<close> at the diagnose time \<open>t\<close> returns the distribution over the two
  hidden states healthy and involved that puts \<open>(1 - p) ^ t\<close> on healthy and
  \<open>1 - (1 - p) ^ t\<close> on involved, for every natural \<open>t\<close> and every \<open>p\<close> of the unit
  interval, the values that the setter of an edge accepts.
\<close>

theorem evolve_one_tumor_one_lnl:
  assumes "tname \<noteq> lname"
    and "graph = [((''tumor'', tname), [lname]), ((''lnl'', lname), [])]
         \<or> graph = [((''lnl'', lname), []), ((''tumor'', tname), [lname])]"
    and "0 \<le> p" and "p \<le> 1"
  shows "\<exists>m0 m m'. init_unilateral t0 graph = Inr m0 \<and> spread_probs_set m0 [p] = (None, m)
           \<and> length (lnls m) = 1 \<and> length (tumors m) = 1 \<and> spread_probs m = [p]
           \<and> state_list m = Some (Inr [[0], [1]])
           \<and> evolve np_inv m (int t) None =
                Some (Inr (Vector [(1 - p) ^ t, 1 - (1 - p) ^ t], m'))"
proof -
  from single_graph_model [OF assms, of t0] obtain m0 m k e where
    i: "init_unilateral t0 graph = Inr m0" and s: "spread_probs_set m0 [p] = (None, m)"
    and l: "lnls m = [k]" and tu: "length (tumors m) = 1" and sp: "spread_probs m = [p]"
    and ie: "inc m k = [e]" and ne: "edge_start e \<noteq> k"
    and st: "node_state (nodes m ! edge_start e) = 1" and p: "edge_t e = p"
    and c: "A_cache m = None" by blast
  from evolve_single [OF l ie ne st p c, of np_inv t] obtain m' where
    "evolve np_inv m (int t) None = Some (Inr (Vector [(1 - p) ^ t, 1 - (1 - p) ^ t], m'))"
    by blast
  moreover have "state_list m = Some (Inr [[0], [1]])"
    by (simp add: state_list_states l states_1 return_res_def)
  ultimately show ?thesis using i s l tu sp by auto
qed

theorem evolve_one_tumor_one_lnl_witness:
  "\<exists>m0 m m'. init_unilateral 0 [((''tumor'', ''T''), [''I'']), ((''lnl'', ''I''), [])] = Inr m0
       \<and> spread_probs_set m0 [3/10] = (None, m)
       \<and> evolve (\<lambda>X. Inl ValueError) m 2 None = Some (Inr (Vector [49/100, 51/100], m'))"
proof -
  have "''T'' \<noteq> ''I''" by simp
  from evolve_one_tumor_one_lnl [OF this,
      of "[((''tumor'', ''T''), [''I'']), ((''lnl'', ''I''), [])]" "3/10" 0
        "\<lambda>X. Inl ValueError" 2]
  show ?thesis by (auto simp: power2_eq_square)
qed

lemma map_err_all:
  assumes "\<And>r. r \<in> set xs \<Longrightarrow> \<exists>w. f r = Inr w \<and> P w"
  shows "\<exists>zs. map_err f xs = Inr zs \<and> length zs = length xs \<and> list_all P zs"
  using assms
proof (induction xs)
  case Nil
  then show ?case by simp
next
  case (Cons x xs)
  from Cons.prems [of x] obtain w where w: "f x = Inr w" "P w" by auto
  from Cons.IH Cons.prems obtain zs where
    zs: "map_err f xs = Inr zs" "length zs = length xs" "list_all P zs" by auto
  show ?case by (simp add: w zs)
qed

lemma vec_mat_square:
  assumes "length v = n" and "square_of n X" and "0 < n"
  shows "\<exists>w. vec_mat v X = Inr w \<and> length w = n"
proof -
  from assms obtain r rs where X: "X = r # rs" and "length r = n"
    by (cases X) (auto simp: square_of_def)
  then show ?thesis using assms by (simp add: vec_mat_def ncols_def square_of_def)
qed

lemma mat_mul_square:
  assumes "square_of n Y" and "square_of n X" and "0 < n"
  shows "\<exists>Z. mat_mul Y X = Inr Z \<and> square_of n Z"
proof -
  have "\<And>r. r \<in> set Y \<Longrightarrow> \<exists>w. vec_mat r X = Inr w \<and> length w = n"
    using assms by (intro vec_mat_square) (auto simp: square_of_def list_all_iff)
  from map_err_all [of Y "\<lambda>r. vec_mat r X" "\<lambda>w. length w = n", OF this]
  show ?thesis using assms(1) by (auto simp: mat_mul_def square_of_def)
qed

lemma square_eye: "square_of n (eye n)"
  by (simp add: square_of_def eye_def list_all_iff)

lemma mat_pow_nat_square:
  assumes "square_of n X" and "0 < n"
  shows "\<exists>Y. mat_pow_nat X t = Inr Y \<and> square_of n Y"
proof (induction t)
  case 0
  then show ?case using assms(1) square_eye [of n] by (simp add: square_of_def)
next
  case (Suc t)
  then obtain Y where Y: "mat_pow_nat X t = Inr Y" "square_of n Y" by blast
  from mat_mul_square [OF Y(2) assms] show ?case by (simp add: Y)
qed

lemma square_A_matrix: "square_of (2 ^ length (lnls m)) (A_matrix m)"
  by (simp add: square_of_def A_matrix_def Let_def list_all_iff)

lemma A_get_good:
  assumes "good_cache m"
  shows "\<exists>A m'. A_get m = return_res (A, m') \<and> square_of (2 ^ length (lnls m)) A
           \<and> good_cache m' \<and> lnls m' = lnls m"
proof (cases "A_cache m")
  case None
  from A_get_fresh [OF None] obtain m' where
    a: "A_get m = return_res (A_matrix m, m'\<lparr>A_cache := Some (A_matrix m)\<rparr>)"
    and sb: "same_base m m'" by blast
  have l: "lnls (m'\<lparr>A_cache := Some (A_matrix m)\<rparr>) = lnls m"
    using sb by (simp add: same_base_def lnls_def)
  have "good_cache (m'\<lparr>A_cache := Some (A_matrix m)\<rparr>)"
    using square_A_matrix [of m] l by (simp add: good_cache_def)
  with a l square_A_matrix [of m] show ?thesis by blast
next
  case (Some A)
  then have "A_get m = return_res (A, m)" by (simp add: A_get_def)
  moreover have "square_of (2 ^ length (lnls m)) A"
    using assms Some by (simp add: good_cache_def)
  ultimately show ?thesis using assms by blast
qed

lemma evolve_good:
  assumes "good_cache m" and "0 \<le> t"
  shows "\<exists>v m'. evolve np_inv m t None = return_res (Vector v, m')
           \<and> good_cache m' \<and> lnls m' = lnls m"
proof -
  let ?n = "2 ^ length (lnls m) :: nat"
  from A_get_good [OF assms(1)] obtain A m' where
    a: "A_get m = return_res (A, m')" and sq: "square_of ?n A"
    and g: "good_cache m'" and l: "lnls m' = lnls m" by blast
  from mat_pow_nat_square [OF sq, of "nat t"] obtain Y where
    Y: "mat_pow_nat A (nat t) = Inr Y" "square_of ?n Y" by auto
  have "length ((replicate ?n (0::real))[0 := 1]) = ?n" by simp
  from vec_mat_square [OF this Y(2)] obtain w where
    w: "vec_mat ((replicate ?n 0)[0 := 1]) Y = Inr w" by auto
  have sqA: "list_all (\<lambda>r. length r = length A) A" using sq by (simp add: square_of_def)
  have "evolve np_inv m t None = return_res (Vector w, m')"
    unfolding evolve_def
    using assms(2) by (simp add: state_list_states a mat_pow_def sqA Y w)
  with g l show ?thesis by blast
qed

lemma spread_probs_set_total:
  assumes "length sp = length (spread_probs m)" and "\<forall>x \<in> set sp. 0 \<le> x \<and> x \<le> 1"
  shows "\<exists>m1. spread_probs_set m sp = (None, m1) \<and> A_cache m1 = None"
proof -
  let ?n = "length (base_edges m)"
  have n: "length sp = ?n + length (trans_edges m)"
    using assms(1) by (simp add: spread_probs_def base_probs_def trans_probs_def)
  have r: "0 \<le> sp ! j \<and> sp ! j \<le> 1" if "j < length sp" for j
    using assms(2) that by simp
  let ?es = "write_probs (base_edges m) 0 (take ?n sp) (edges m)"
  have "set_probs (base_edges m) 0 (take ?n sp) (edges m) = (None, ?es)"
    unfolding set_probs_None using n r by simp
  then have b: "base_probs_set m (take ?n sp) = (None, m\<lparr>edges := ?es, A_cache := None\<rparr>)"
    unfolding base_probs_set_None by blast
  let ?m1 = "m\<lparr>edges := ?es, A_cache := None\<rparr>"
  have te: "trans_edges ?m1 = trans_edges m"
    using base_probs_set_props(4) [OF b] .
  let ?es' = "write_probs (trans_edges ?m1) 0 (drop ?n sp) (edges ?m1)"
  have "set_probs (trans_edges ?m1) 0 (drop ?n sp) (edges ?m1) = (None, ?es')"
    unfolding set_probs_None using n r te by simp
  then have "trans_probs_set ?m1 (drop ?n sp) = (None, ?m1\<lparr>edges := ?es', A_cache := None\<rparr>)"
    unfolding trans_probs_set_None by blast
  with b have "spread_probs_set m sp = (None, ?m1\<lparr>edges := ?es', A_cache := None\<rparr>)"
    unfolding spread_probs_set_None by blast
  then show ?thesis by (intro exI [of _ "?m1\<lparr>edges := ?es', A_cache := None\<rparr>"]) simp
qed

lemma fold_res_neginf:
  "fold_res (diag_time_step np_inv d mt) ts (None, m) = return_res (None, m)"
  by (induction ts) (simp_all add: diag_time_step_def)

lemma diag_fold_neginf:
  assumes "good_cache m" and "k < length ts"
    and "\<forall>j < k. \<exists>y. map_of d (ts ! j) = Some y \<and> 0 \<le> np_around y"
    and "map_of d (ts ! k) = Some x" and "mt < np_around x"
  shows "\<exists>m'. fold_res (diag_time_step np_inv d (Some mt)) ts (Some acc, m) = return_res (None, m')"
  using assms
proof (induction ts arbitrary: k acc m)
  case Nil
  then show ?case by simp
next
  case (Cons s ts)
  show ?case
  proof (cases k)
    case 0
    with Cons.prems have "diag_time_step np_inv d (Some mt) s (Some acc, m) = return_res (None, m)"
      by (simp add: diag_time_step_def)
    then show ?thesis by (auto simp: fold_res_neginf)
  next
    case (Suc k')
    from Cons.prems(3) Suc obtain y where y: "map_of d s = Some y" "0 \<le> np_around y"
      by fastforce
    show ?thesis
    proof (cases "mt < np_around y")
      case True
      then have "diag_time_step np_inv d (Some mt) s (Some acc, m) = return_res (None, m)"
        by (simp add: diag_time_step_def y)
      then show ?thesis by (auto simp: fold_res_neginf)
    next
      case False
      from evolve_good [OF Cons.prems(1) y(2), of np_inv] obtain v m1 where
        e: "evolve np_inv m (np_around y) None = return_res (Vector v, m1)"
        and g: "good_cache m1" by blast
      have step: "diag_time_step np_inv d (Some mt) s (Some acc, m)
          = return_res (Some (dict_put acc s v), m1)"
        using False by (simp add: diag_time_step_def y e)
      have "\<exists>m'. fold_res (diag_time_step np_inv d (Some mt)) ts (Some (dict_put acc s v), m1)
          = return_res (None, m')"
        using Cons.prems Suc by (intro Cons.IH [OF g, of k']) auto
      then show ?thesis by (simp add: step)
    qed
  qed
qed

lemma spread_probs_are_valid_cases:
  "spread_probs_are_valid m sp =
     (if length sp \<noteq> length (spread_probs m) then Inl ValueError
      else Inr (\<forall>x \<in> set sp. 0 \<le> x \<and> x \<le> 1))"
proof -
  have "(\<forall>x \<in> set sp. 0 \<le> x \<and> x \<le> 1)
      \<longleftrightarrow> \<not> list_ex (\<lambda>x. x < 0) sp \<and> \<not> list_ex (\<lambda>x. 1 < x) sp"
    unfolding list_ex_iff by (meson not_le)
  then show ?thesis by (simp add: spread_probs_are_valid_def)
qed

lemma bind_res_raise [simp]: "bind_res (raise_res e) f = raise_res e"
  by (simp add: bind_res_def raise_res_def)


lemma spread_probs_example: "spread_probs (example_model a b c) = [a, b, c]"
  using base_edges_example [where a = a and b = b and c = c and x = None]
    trans_edges_example [where a = a and b = b and c = c and x = None]
  by (simp add: spread_probs_def base_probs_def trans_probs_def example_model_def)

lemma np_around_int: "- (2 ^ 63) \<le> z \<Longrightarrow> z < 2 ^ 63 \<Longrightarrow> np_around (of_int z) = z"
  by (simp add: np_around_def)



lemma obs_index_less: "p < n_obs * L \<Longrightarrow> obs_index n_obs L p < n_obs * L"
proof -
  assume p: "p < n_obs * L"
  then have n: "0 < n_obs" by (cases n_obs) auto
  have a: "p mod n_obs \<le> n_obs - 1" using n by (simp add: less_Suc_eq_le [symmetric])
  have b: "p div n_obs < L" using p n by (simp add: less_mult_imp_div_less mult.commute)
  have "(p mod n_obs) * L + p div n_obs < (n_obs - 1) * L + L"
    using a b by (meson add_le_less_mono mult_le_mono1)
  also have "\<dots> = n_obs * L" using n by (cases n_obs) simp_all
  finally show ?thesis by (simp add: obs_index_def)
qed

lemma length_padded: "i < 2 ^ n \<Longrightarrow> length (padded n i) = n"
  using length_lsb_digits [of i n] by (simp add: padded_def)

lemma map_err_nth:
  assumes "map_err f xs = Inr ys" and "i < length xs"
  shows "f (xs ! i) = Inr (ys ! i)"
  using assms
proof (induction xs arbitrary: ys i)
  case Nil
  then show ?case by simp
next
  case (Cons x xs)
  from Cons.prems(1) obtain y ys' where y: "f x = Inr y" and ys': "map_err f xs = Inr ys'"
    and ys: "ys = y # ys'"
    by (auto simp: bind_err_def split: sum.splits)
  show ?case using Cons.IH [OF ys'] Cons.prems(2) y ys by (cases i) simp_all
qed

lemma map_err_pure:
  "(\<And>x. x \<in> set xs \<Longrightarrow> f x = Inr (g x)) \<Longrightarrow> map_err f xs = Inr (map g xs)"
  by (induction xs) simp_all

lemma int_of_digit_padded:
  assumes "i < 2 ^ n" and "q < n"
  shows "int_of_digit (padded n i ! q) = Inr (bits n i ! q)"
  using map_err_nth [OF map_err_padded [OF assms(1)], of q] assms length_padded [of i n]
  by simp

lemma obs_list_row_pure:
  assumes "i < 2 ^ (n_obs * L)"
  shows "obs_list_row n_obs L i =
           return_res (map (\<lambda>p. bits (n_obs * L) i ! obs_index n_obs L p) [0..<n_obs * L])"
proof -
  let ?n = "n_obs * L"
  have "map_err (\<lambda>p. bind_err (py_nth (padded ?n i) (int ((p mod n_obs) * L + p div n_obs)))
                                  int_of_digit) [0..<?n]
      = Inr (map (\<lambda>p. bits ?n i ! obs_index n_obs L p) [0..<?n])"
  proof (rule map_err_pure)
    fix p assume "p \<in> set [0..<?n]"
    then have p: "p < ?n" by simp
    from obs_index_less [OF p] have q: "obs_index n_obs L p < length (padded ?n i)"
      using length_padded [OF assms] by simp
    show "bind_err (py_nth (padded ?n i) (int ((p mod n_obs) * L + p div n_obs))) int_of_digit
        = Inr (bits ?n i ! obs_index n_obs L p)"
      using py_nth_nat [OF q] int_of_digit_padded [OF assms obs_index_less [OF p]]
      by (simp add: obs_index_def)
  qed
  then show ?thesis
    by (simp add: obs_list_row_def change_base_2)
qed

lemma gen_obs_list_pure:
  assumes "modality_tables m = Some tables"
  shows "gen_obs_list m = return_res (obs_rows (length tables) (length (lnls m)))"
proof -
  let ?n = "length tables" and ?L = "length (lnls m)"
  have "map_res (obs_list_row ?n ?L) [0..<2 ^ (?n * ?L)]
      = return_res (map (\<lambda>i. map (\<lambda>p. bits (?n * ?L) i ! obs_index ?n ?L p) [0..<?n * ?L])
          [0..<2 ^ (?n * ?L)])"
    by (rule map_res_pure) (simp add: obs_list_row_pure)
  then show ?thesis by (simp add: gen_obs_list_def obs_rows_def assms)
qed

lemma obs_list_pure:
  assumes "modality_tables m = Some tables"
    and "obs_list_cache m = None
         \<or> obs_list_cache m = Some (obs_rows (length tables) (length (lnls m)))"
  shows "obs_list m = return_res (obs_rows (length tables) (length (lnls m)),
           m\<lparr>obs_list_cache := Some (obs_rows (length tables) (length (lnls m)))\<rparr>)"
  using assms(2)
proof
  assume "obs_list_cache m = None"
  then show ?thesis by (simp add: obs_list_def gen_obs_list_pure [OF assms(1)])
next
  assume c: "obs_list_cache m = Some (obs_rows (length tables) (length (lnls m)))"
  then have e: "m\<lparr>obs_list_cache := Some (obs_rows (length tables) (length (lnls m)))\<rparr> = m"
    by simp
  show ?thesis unfolding e by (simp add: obs_list_def c)
qed

lemma bits_zero: "bits n 0 = replicate n 0"
  by (induction n) (simp_all add: replicate_append_same)

lemma bits_ones: "bits n (2 ^ n - Suc 0) = replicate n 1"
proof (induction n)
  case 0
  then show ?case by simp
next
  case (Suc n)
  have "(2 ^ Suc n - Suc 0) div 2 = (2 ^ n - Suc 0 :: nat)" by simp
  moreover have "(2 ^ Suc n - Suc 0) mod 2 = (1 :: nat)"
    by (simp add: mod2_eq_if)
  ultimately show ?case using Suc by (simp add: replicate_append_same)
qed

lemma length_obs_rows [simp]: "length (obs_rows n_obs L) = 2 ^ (n_obs * L)"
  by (simp add: obs_rows_def)

lemma length_obs_rows_nth:
  "i < 2 ^ (n_obs * L) \<Longrightarrow> length (obs_rows n_obs L ! i) = n_obs * L"
  by (simp add: obs_rows_def)

lemma obs_rows_first: "obs_rows n_obs L ! 0 = replicate (n_obs * L) 0"
  by (intro nth_equalityI) (simp_all add: obs_rows_def bits_zero obs_index_less)

lemma obs_rows_last: "obs_rows n_obs L ! (2 ^ (n_obs * L) - Suc 0) = replicate (n_obs * L) 1"
  by (intro nth_equalityI) (simp_all add: obs_rows_def bits_ones obs_index_less)

lemma compatible_eq_len:
  "length obs = length row \<Longrightarrow>
     compatible obs row = Inr (list_all (\<lambda>(x, d). entry_matches x d) (zip obs row))"
  by (simp add: compatible_def)

lemma tmp_C_pure:
  assumes "\<forall>row \<in> set table. length row = n" and "\<forall>obs \<in> set ol. length obs = n"
  shows "map_err (\<lambda>row. map_err (\<lambda>obs. compatible obs row) ol) table
           = Inr (map (compat_vector ol) table)"
proof (rule map_err_pure)
  fix row assume "row \<in> set table"
  with assms have "\<And>obs. obs \<in> set ol \<Longrightarrow> length obs = length row" by simp
  then show "map_err (\<lambda>obs. compatible obs row) ol = Inr (compat_vector ol row)"
    unfolding compat_vector_def by (intro map_err_pure) (simp add: compatible_eq_len)
qed

lemma filter_all_length:
  "length (filter P xs) = length xs \<longleftrightarrow> (\<forall>x \<in> set xs. P x)"
proof (induction xs)
  case Nil
  then show ?case by simp
next
  case (Cons x xs)
  have "length (filter P xs) \<le> length xs" by simp
  then have "length (filter P xs) \<noteq> Suc (length xs)" by linarith
  with Cons show ?case by auto
qed

lemma all_true_replicate: "(\<forall>b \<in> set col. b) \<longleftrightarrow> col = replicate (length col) True"
  by (induction col) auto

lemma all_ones_iff_missing:
  assumes "length row = n_obs * L"
  shows "compat_vector (obs_rows n_obs L) row = replicate (2 ^ (n_obs * L)) True
           \<longleftrightarrow> (\<forall>d \<in> set row. d = None)"
proof
  assume miss: "\<forall>d \<in> set row. d = None"
  have "\<And>obs. list_all (\<lambda>(x, d). entry_matches x d) (zip obs row)"
  proof -
    fix obs :: "int list"
    have "\<And>x d. (x, d) \<in> set (zip obs row) \<Longrightarrow> d = None"
      using miss by (auto dest: set_zip_rightD)
    then show "list_all (\<lambda>(x, d). entry_matches x d) (zip obs row)"
      by (fastforce simp: list_all_iff entry_matches_def)
  qed
  then show "compat_vector (obs_rows n_obs L) row = replicate (2 ^ (n_obs * L)) True"
    by (intro nth_equalityI) (simp_all add: compat_vector_def)
next
  let ?n = "n_obs * L"
  let ?ol = "obs_rows n_obs L"
  assume c: "compat_vector ?ol row = replicate (2 ^ ?n) True"
  have z: "compat_vector ?ol row ! 0" using c by simp
  have o: "compat_vector ?ol row ! (2 ^ ?n - Suc 0)" using c by simp
  have z': "list_all (\<lambda>(x, d). entry_matches x d) (zip (replicate ?n 0) row)"
    using z by (simp add: compat_vector_def obs_rows_first)
  have o': "list_all (\<lambda>(x, d). entry_matches x d) (zip (replicate ?n 1) row)"
    using o by (simp add: compat_vector_def obs_rows_last)
  show "\<forall>d \<in> set row. d = None"
  proof
    fix d assume "d \<in> set row"
    then obtain p where p: "p < ?n" "row ! p = d" using assms by (auto simp: in_set_conv_nth)
    from z' p assms have "entry_matches 0 d" by (auto simp: list_all_length)
    moreover from o' p assms have "entry_matches 1 d" by (auto simp: list_all_length)
    ultimately show "d = None" by (cases d) (auto simp: entry_matches_def split: if_splits)
  qed
qed

lemma count_list_filter: "P c \<Longrightarrow> count_list (filter P xs) c = count_list xs c"
  by (induction xs) auto

lemma count_list_map: "count_list (map g xs) c = length (filter (\<lambda>x. g x = c) xs)"
  by (induction xs) auto

lemma sum_counts_remdups: "sum_list (map (count_list xs) (sort (remdups xs))) = length xs"
proof -
  have "sum_list (map (count_list xs) (sort (remdups xs)))
      = sum (count_list xs) (set (sort (remdups xs)))"
    by (rule sum_list_distinct_conv_sum_set) simp
  also have "\<dots> = sum (count_list xs) (set xs)" by simp
  also have "\<dots> = length xs" by (rule sum_count_set) simp_all
  finally show ?thesis .
qed

lemma gen_C_props:
  assumes t: "modality_tables m = Some tables"
    and c: "obs_list_cache m = None
            \<or> obs_list_cache m = Some (obs_rows (length tables) (length (lnls m)))"
    and r: "\<forall>row \<in> set table. length row = length tables * length (lnls m)"
  shows "\<exists>m' Cd fd C f. gen_C m table t_stage True True = Some (Inr m')
     \<and> C_dict m' = Some Cd \<and> f_dict m' = Some fd
     \<and> Cd (case t_stage of None \<Rightarrow> ''BN'' | Some st \<Rightarrow> st) = Some C
     \<and> fd (case t_stage of None \<Rightarrow> ''BN'' | Some st \<Rightarrow> st) = Some f
     \<and> distinct C \<and> length f = length C
     \<and> (\<forall>k < length C.
            length (C ! k) = 2 ^ (length tables * length (lnls m))
          \<and> C ! k \<noteq> replicate (2 ^ (length tables * length (lnls m))) True
          \<and> f ! k = length (filter (\<lambda>row. compat_vector
                         (obs_rows (length tables) (length (lnls m))) row = C ! k) table))
     \<and> sum_list f = length (filter (\<lambda>row. \<exists>d \<in> set row. d \<noteq> None) table)"
proof -
  let ?n = "length tables * length (lnls m)"
  let ?ol = "obs_rows (length tables) (length (lnls m))"
  let ?cv = "compat_vector ?ol"
  let ?P = "\<lambda>col. length (filter id col) \<noteq> length ?ol"
  let ?stage = "case t_stage of None \<Rightarrow> ''BN'' | Some st \<Rightarrow> st"
  define tmp where "tmp = filter ?P (map ?cv table)"
  define C where "C = sort (remdups tmp)"
  define f where "f = map (count_list tmp) C"
  define m1 where "m1 = m\<lparr>obs_list_cache := Some ?ol\<rparr>"
  obtain C0 f0 where cf: "(case (C_dict m, f_dict m) of
                        (Some c, Some f) \<Rightarrow> (c, f)
                      | _ \<Rightarrow> (Map.empty, Map.empty)) = (C0, f0)"
    by (cases "case (C_dict m, f_dict m) of
                        (Some c, Some f) \<Rightarrow> (c, f)
                      | _ \<Rightarrow> (Map.empty, Map.empty)") auto
  define m' where
    "m' = m1\<lparr>C_dict := Some (C0(?stage \<mapsto> C)), f_dict := Some (f0(?stage \<mapsto> f))\<rparr>"
  have ol: "obs_list m = return_res (?ol, m1)"
    unfolding m1_def by (rule obs_list_pure [OF t c])
  have lens: "\<forall>obs \<in> set ?ol. length obs = ?n"
    by (auto simp: in_set_conv_nth length_obs_rows_nth)
  have tm: "map_err (\<lambda>row. map_err (\<lambda>obs. compatible obs row) ?ol) table
           = Inr (map ?cv table)"
    by (rule tmp_C_pure [OF r lens])
  have u: "np_unique tmp = (C, f)"
    by (simp add: np_unique_def Let_def C_def f_def)
  have g: "gen_C m table t_stage True True = Some (Inr m')"
    unfolding gen_C_def Let_def ol bind_res_return prod.case tm sum.case if_True
      tmp_def [symmetric] u m'_def
    using cf by (simp add: return_res_def)
  have lcv: "length (?cv row) = 2 ^ ?n" for row
    by (simp add: compat_vector_def)
  have P: "?P (?cv row) \<longleftrightarrow> ?cv row \<noteq> replicate (2 ^ ?n) True" for row
    using filter_all_length [of id "?cv row"] all_true_replicate [of "?cv row"] lcv [of row]
    by auto
  have inC: "\<And>k. k < length C \<Longrightarrow> C ! k \<in> set tmp"
    unfolding C_def by (metis nth_mem set_remdups set_sort)
  have k: "length (C ! k) = 2 ^ ?n \<and> C ! k \<noteq> replicate (2 ^ ?n) True
          \<and> f ! k = length (filter (\<lambda>row. ?cv row = C ! k) table)" if "k < length C" for k
  proof -
    from inC [OF that] obtain row where row: "C ! k = ?cv row" and Pk: "?P (C ! k)"
      unfolding tmp_def by auto
    have "f ! k = count_list tmp (C ! k)" using that by (simp add: f_def)
    also have "\<dots> = count_list (map ?cv table) (C ! k)"
      unfolding tmp_def using Pk by (rule count_list_filter)
    also have "\<dots> = length (filter (\<lambda>row. ?cv row = C ! k) table)"
      by (rule count_list_map)
    finally have fk: "f ! k = length (filter (\<lambda>row. ?cv row = C ! k) table)" .
    have "C ! k \<noteq> replicate (2 ^ ?n) True" using P [of row] Pk unfolding row by blast
    moreover have "length (C ! k) = 2 ^ ?n" unfolding row by (rule lcv)
    ultimately show ?thesis using fk by blast
  qed
  have "sum_list f = length tmp" unfolding f_def C_def by (rule sum_counts_remdups)
  also have "\<dots> = length (filter (\<lambda>row. ?P (?cv row)) table)"
    unfolding tmp_def by (simp only: filter_map comp_def length_map)
  also have "filter (\<lambda>row. ?P (?cv row)) table
      = filter (\<lambda>row. \<exists>d \<in> set row. d \<noteq> None) table"
  proof (rule filter_cong [OF refl])
    fix row assume "row \<in> set table"
    with r have "length row = ?n" by simp
    from all_ones_iff_missing [OF this] P [of row]
    show "?P (?cv row) \<longleftrightarrow> (\<exists>d \<in> set row. d \<noteq> None)" by blast
  qed
  finally have s: "sum_list f = length (filter (\<lambda>row. \<exists>d \<in> set row. d \<noteq> None) table)" .
  have d: "distinct C" by (simp add: C_def)
  have lf: "length f = length C" by (simp add: f_def)
  have cd: "C_dict m' = Some (C0(?stage \<mapsto> C))" and fd: "f_dict m' = Some (f0(?stage \<mapsto> f))"
    by (simp_all add: m'_def)
  have cs: "(C0(?stage \<mapsto> C)) ?stage = Some C" and fs: "(f0(?stage \<mapsto> f)) ?stage = Some f"
    by simp_all
  from g cd fd cs fs d lf k s show ?thesis by blast
qed

lemma lnls_modality_tables [simp]: "lnls (m\<lparr>modality_tables := t\<rparr>) = lnls m"
  by (simp add: lnls_def)

lemma of_bits_snoc: "of_bits (d @ [b]) = 2 * of_bits d + (if b then 1 else 0)"
  by (simp add: of_bits_def)

lemma of_bits_less: "of_bits d < 2 ^ length d"
proof (induction d rule: rev_induct)
  case Nil
  then show ?case by (simp add: of_bits_def)
next
  case (snoc b d)
  then show ?case by (auto simp: of_bits_snoc)
qed

lemma bits_of_bits: "bits (length d) (of_bits d) = map bit_of d"
proof (induction d rule: rev_induct)
  case Nil
  then show ?case by simp
next
  case (snoc b d)
  then show ?case by (auto simp: of_bits_snoc bit_of_def)
qed

lemma bits_inj: "i < 2 ^ L \<Longrightarrow> j < 2 ^ L \<Longrightarrow> bits L i = bits L j \<Longrightarrow> i = j"
proof (induction L arbitrary: i j)
  case 0
  then show ?case by simp
next
  case (Suc L)
  from Suc.prems have "bits L (i div 2) = bits L (j div 2)" and m: "i mod 2 = j mod 2"
    by simp_all
  moreover have "i div 2 < 2 ^ L" "j div 2 < 2 ^ L" using Suc.prems by auto
  ultimately have "i div 2 = j div 2" using Suc.IH by blast
  with m show ?case by (metis div_mult_mod_eq)
qed

lemma obs_index_one: "obs_index (Suc 0) L p = p"
  by (simp add: obs_index_def)

lemma obs_rows_one: "i < 2 ^ L \<Longrightarrow> obs_rows (Suc 0) L ! i = bits L i"
  by (intro nth_equalityI) (simp_all add: obs_rows_def obs_index_one)

lemma matches_complete:
  assumes "length s = length d"
  shows "list_all (\<lambda>(x, e). entry_matches x e) (zip s (map Some d)) \<longleftrightarrow> s = map bit_of d"
  using assms
proof (induction s d rule: list_induct2)
  case Nil
  then show ?case by simp
next
  case (Cons x xs b bs)
  then show ?case by (auto simp: entry_matches_def bit_of_def)
qed

lemma risk_encoding_complete:
  "risk_encoding (obs_rows (Suc 0) (length d)) (map Some d) (2 ^ length d)
     = Inr ((replicate (2 ^ length d) False)[of_bits d := True])"
proof -
  let ?L = "length d"
  let ?ol = "obs_rows (Suc 0) ?L"
  have "map_err (\<lambda>complete_obs. compatible complete_obs (map Some d)) ?ol
      = Inr (map (\<lambda>obs. obs = map bit_of d) ?ol)"
  proof (rule map_err_pure)
    fix obs assume "obs \<in> set ?ol"
    then obtain i where "i < 2 ^ ?L" "obs = ?ol ! i" by (auto simp: in_set_conv_nth)
    then have l: "length obs = ?L" by (simp add: obs_rows_one)
    then show "compatible obs (map Some d) = Inr (obs = map bit_of d)"
      by (simp add: compatible_def matches_complete)
  qed
  moreover have "map (\<lambda>obs. obs = map bit_of d) ?ol = (replicate (2 ^ ?L) False)[of_bits d := True]"
  proof (rule nth_equalityI)
    show "length (map (\<lambda>obs. obs = map bit_of d) ?ol)
        = length ((replicate (2 ^ ?L) False)[of_bits d := True])" by simp
  next
    fix i assume "i < length (map (\<lambda>obs. obs = map bit_of d) ?ol)"
    then have i: "i < 2 ^ ?L" by simp
    have "bits ?L i = map bit_of d \<longleftrightarrow> i = of_bits d"
      using bits_inj [OF i of_bits_less [of d]] bits_of_bits [of d] by auto
    then show "map (\<lambda>obs. obs = map bit_of d) ?ol ! i
        = (replicate (2 ^ ?L) False)[of_bits d := True] ! i"
      using i by (auto simp: obs_rows_one nth_list_update)
  qed
  ultimately show ?thesis by (simp add: risk_encoding_def)
qed

lemma same_base_fields:
  assumes "same_base m m'"
  shows "edges m' = edges m" and "modality_tables m' = modality_tables m"
    and "obs_list_cache m' = obs_list_cache m" and "B_cache m' = B_cache m"
    and "C_dict m' = C_dict m" and "f_dict m' = f_dict m" and "A_cache m' = A_cache m"
    and "lnls m' = lnls m"
proof -
  let ?s = "replicate (length (lnls m)) (0::int)"
  from assms have e: "with_state m' ?s = with_state m ?s" and l: "lnls m' = lnls m"
    by (simp_all add: same_base_def)
  show "lnls m' = lnls m" by (rule l)
  from arg_cong [OF e, of edges] show "edges m' = edges m" by (simp add: with_state_def)
  from arg_cong [OF e, of modality_tables] show "modality_tables m' = modality_tables m"
    by (simp add: with_state_def)
  from arg_cong [OF e, of obs_list_cache] show "obs_list_cache m' = obs_list_cache m"
    by (simp add: with_state_def)
  from arg_cong [OF e, of B_cache] show "B_cache m' = B_cache m" by (simp add: with_state_def)
  from arg_cong [OF e, of C_dict] show "C_dict m' = C_dict m" by (simp add: with_state_def)
  from arg_cong [OF e, of f_dict] show "f_dict m' = f_dict m" by (simp add: with_state_def)
  from arg_cong [OF e, of A_cache] show "A_cache m' = A_cache m" by (simp add: with_state_def)
qed

lemma py_nth_bit: "length xs = 2 \<Longrightarrow> v = 0 \<or> v = 1 \<Longrightarrow> py_nth xs v = Inr (xs ! nat v)"
  by (auto simp: py_nth_def)

lemma obs_prob_pure:
  assumes "shape_of 2 2 table" and "ob = 0 \<or> ob = 1"
    and "node_state nd = 0 \<or> node_state nd = 1"
  shows "obs_prob nd ob table = Inr (table ! nat ob ! nat (node_state nd))"
proof -
  from assms(1) have l: "length table = 2" and r: "length (table ! nat ob) = 2"
    using assms(2) by (auto simp: shape_of_def list_all_length)
  show ?thesis
    by (simp add: obs_prob_def py_nth_bit [OF l assms(2)] py_nth_bit [OF r assms(3)])
qed

lemma binary_nth: "binary s \<Longrightarrow> i < length s \<Longrightarrow> s ! i = 0 \<or> s ! i = 1"
  by (simp add: binary_def list_all_length)

lemma binary_take_drop: "binary s \<Longrightarrow> binary (take a (drop b s))"
  by (auto simp: binary_def list_all_iff dest: in_set_takeD in_set_dropD)

lemma fold_err_prod:
  assumes "\<And>x a. x \<in> set xs \<Longrightarrow> f x a = Inr (a * g x)"
  shows "fold_err f xs a = Inr (a * prod_list (map g xs) :: real)"
  using assms by (induction xs arbitrary: a) (simp_all add: mult.assoc)

lemma comp_observation_prob_pure:
  assumes t: "modality_tables m = Some tables" and ok: "tables_ok tables"
    and l: "length s = length (lnls m)" and b: "binary s"
    and dd: "\<forall>(name, d) \<in> set dd. name \<in> fst ` set tables \<and> length d = length (lnls m) \<and> binary d"
  shows "comp_observation_prob (with_state m s) dd = Inr (B_entry tables s dd)"
proof -
  let ?m = "with_state m s"
  let ?g = "\<lambda>(name, d). case map_of tables name of
                                    None \<Rightarrow> 0
                                  | Some table \<Rightarrow> obs_weight table d s"
  have t': "modality_tables ?m = Some tables" using t by (simp add: with_state_def)
  have st: "node_state (nodes ?m ! (lnls m ! i)) = s ! i" if "i < length (lnls m)" for i
    using node_state_with_state [OF l that] .
  have "fold_err (\<lambda>(modality, diagnoses) prob.
         if length diagnoses \<noteq> length (lnls ?m) then Inl ValueError
         else
           (case modality_tables ?m of
              None \<Rightarrow> Inl AttributeError
            | Some tables \<Rightarrow>
                (case map_of tables modality of
                   None \<Rightarrow> Inl KeyError
                 | Some obstable \<Rightarrow>
                     fold_err (\<lambda>(i, k) prob'.
                         bind_err (obs_prob (nodes ?m ! k) (diagnoses ! i) obstable)
                           (\<lambda>p. Inr (prob' * p)))
                       (zip [0..<length (lnls ?m)] (lnls ?m)) prob)))
       dd 1 = Inr (1 * prod_list (map ?g dd))"
  proof (rule fold_err_prod)
    fix x :: "string \<times> int list" and a :: real
    assume x: "x \<in> set dd"
    obtain name d where xd: "x = (name, d)" by (cases x)
    from dd x xd have n: "name \<in> fst ` set tables" and ld: "length d = length (lnls m)"
      and bd: "binary d" by auto
    from n obtain table where mo: "map_of tables name = Some table"
      by (metis domD dom_map_of_conv_image_fst)
    then have "(name, table) \<in> set tables" by (rule map_of_SomeD)
    with ok have sh: "shape_of 2 2 table" by (auto simp: tables_ok_def list_all_iff)
    let ?h = "\<lambda>(i, k). table ! nat (d ! i) ! nat (s ! i)"
    have inner: "fold_err (\<lambda>(i, k) prob'.
                         bind_err (obs_prob (nodes ?m ! k) (d ! i) table)
                           (\<lambda>p. Inr (prob' * p)))
                       (zip [0..<length (lnls m)] (lnls m)) a
        = Inr (a * prod_list (map ?h (zip [0..<length (lnls m)] (lnls m))))"
    proof (rule fold_err_prod)
      fix y :: "nat \<times> nat" and a' :: real
      assume y: "y \<in> set (zip [0..<length (lnls m)] (lnls m))"
      obtain i k where yk: "y = (i, k)" by (cases y)
      from y yk have i: "i < length (lnls m)" and k: "k = lnls m ! i"
        by (auto simp: set_zip)
      have ns: "node_state (nodes ?m ! k) = s ! i" using st [OF i] k by simp
      have "obs_prob (nodes ?m ! k) (d ! i) table = Inr (table ! nat (d ! i) ! nat (s ! i))"
        using obs_prob_pure [OF sh, of "d ! i" "nodes ?m ! k"] binary_nth [OF bd, of i]
          binary_nth [OF b, of i] i l ld ns by simp
      then show "(case y of (i, k) \<Rightarrow> \<lambda>prob'.
                         bind_err (obs_prob (nodes ?m ! k) (d ! i) table)
                           (\<lambda>p. Inr (prob' * p))) a' = Inr (a' * ?h y)"
        by (simp add: yk)
    qed
    have "map ?h (zip [0..<length (lnls m)] (lnls m))
        = map (\<lambda>(ob, x). table ! nat ob ! nat x) (zip d s)"
      using l ld by (intro nth_equalityI) simp_all
    then have w: "prod_list (map ?h (zip [0..<length (lnls m)] (lnls m))) = obs_weight table d s"
      by (simp add: obs_weight_def)
    show "(case x of (modality, diagnoses) \<Rightarrow> \<lambda>prob.
         if length diagnoses \<noteq> length (lnls ?m) then Inl ValueError
         else
           (case modality_tables ?m of
              None \<Rightarrow> Inl AttributeError
            | Some tables \<Rightarrow>
                (case map_of tables modality of
                   None \<Rightarrow> Inl KeyError
                 | Some obstable \<Rightarrow>
                     fold_err (\<lambda>(i, k) prob'.
                         bind_err (obs_prob (nodes ?m ! k) (diagnoses ! i) obstable)
                           (\<lambda>p. Inr (prob' * p)))
                       (zip [0..<length (lnls ?m)] (lnls ?m)) prob))) a = Inr (a * ?g x)"
      by (simp add: xd ld t' mo inner w)
  qed
  then show ?thesis by (simp add: comp_observation_prob_def B_entry_def)
qed

lemma fold_err_row_plain:
  assumes "i < length A" and "\<forall>j \<in> set js. j < length (A ! i)"
    and "\<forall>j \<in> set js. f j = Inr (v j)"
  shows "fold_err (\<lambda>j A'. bind_err (f j) (\<lambda>p. set_entry A' i j p)) js A
           = Inr (A[i := fold (\<lambda>j r. r[j := v j]) js (A ! i)])"
  using assms
proof (induction js arbitrary: A)
  case Nil
  then show ?case by simp
next
  case (Cons j js)
  let ?A1 = "A[i := (A ! i)[j := v j]]"
  have step: "bind_err (f j) (\<lambda>p. set_entry A i j p) = Inr ?A1"
    using Cons.prems by (simp add: set_entry_def)
  have "fold_err (\<lambda>j A'. bind_err (f j) (\<lambda>p. set_entry A' i j p)) js ?A1
           = Inr (?A1[i := fold (\<lambda>j r. r[j := v j]) js (?A1 ! i)])"
    using Cons.prems by (intro Cons.IH) auto
  then show ?case using Cons.prems(1) by (simp add: step)
qed

lemma binary_obs_rows: "j < 2 ^ (n * L) \<Longrightarrow> binary (obs_rows n L ! j)"
  using binary_bits [of "n * L" j]
  by (auto simp: obs_rows_def binary_def list_all_length obs_index_less)

lemma slices_ok:
  assumes "length obs = length tables * L" and "binary obs"
  shows "\<forall>(name, d) \<in> set (slices tables L obs).
           name \<in> fst ` set tables \<and> length d = L \<and> binary d"
proof -
  have "length d = L \<and> name \<in> fst ` set tables \<and> binary d"
    if "(name, d) \<in> set (slices tables L obs)" for name d
  proof -
    from that obtain k where k: "k < length tables" and n: "name = fst (tables ! k)"
      and d: "d = take L (drop (L * k) obs)"
      by (auto simp: slices_def set_zip)
    have "L * k + L \<le> length tables * L"
    proof -
      have "L * k + L = L * Suc k" by simp
      also have "\<dots> \<le> L * length tables" using k by (intro mult_le_mono2) simp
      finally show ?thesis by (simp add: mult.commute)
    qed
    then have "length d = L" using assms(1) d by simp
    moreover have "name \<in> fst ` set tables" using k n nth_mem [OF k] by (auto simp: image_iff)
    moreover have "binary d" unfolding d by (rule binary_take_drop [OF assms(2)])
    ultimately show ?thesis by simp
  qed
  then show ?thesis by blast
qed

lemma gen_B_row_pure:
  assumes t: "modality_tables m = Some tables" and ok: "tables_ok tables"
    and sl: "sl = states (length (lnls m))"
    and ol: "ol = obs_rows (length tables) (length (lnls m))"
    and sb: "same_base m m'"
    and i: "i < 2 ^ length (lnls m)"
    and B: "length B = 2 ^ length (lnls m)"
           "\<forall>r \<in> set B. length r = 2 ^ (length tables * length (lnls m))"
  shows "gen_B_row sl ol i (m', B) =
           Inr (with_state m (sl ! i),
                B[i := map (\<lambda>j. B_entry tables (sl ! i) (slices tables (length (lnls m)) (ol ! j)))
                         [0..<2 ^ (length tables * length (lnls m))]])"
proof -
  let ?L = "length (lnls m)"
  let ?M = "2 ^ (length tables * ?L) :: nat"
  let ?m1 = "with_state m (sl ! i)"
  let ?v = "\<lambda>j. B_entry tables (sl ! i) (slices tables ?L (ol ! j))"
  have li: "length (sl ! i) = ?L" using i sl by (simp add: states_nth)
  have bi: "binary (sl ! i)" using i sl by (simp add: states_nth binary_bits)
  have m1: "with_state m' (sl ! i) = ?m1" using sb li by (simp add: same_base_def)
  have bi': "binary (sl ! i)" using i sl by (simp add: states_nth binary_bits)
  have ss: "state_set m' (map PyInt (sl ! i)) = (None, ?m1)"
    using state_set_with_state [of "sl ! i" m'] sb li m1 bi' by (simp add: same_base_def)
  have t1: "modality_tables ?m1 = Some tables" using t by (simp add: with_state_def)
  have iB: "i < length B" using i B by simp
  have lo: "length ol = ?M" using ol by simp
  have js: "\<forall>j \<in> set [0..<?M]. j < length (B ! i)" using B iB by simp
  have f: "\<forall>j \<in> set [0..<?M].
      comp_observation_prob ?m1 (slices tables ?L (ol ! j)) = Inr (?v j)"
  proof
    fix j assume "j \<in> set [0..<?M]"
    then have j: "j < ?M" by simp
    have lj: "length (ol ! j) = length tables * ?L" using j ol by (simp add: length_obs_rows_nth)
    have bj: "binary (ol ! j)" using j ol by (simp add: binary_obs_rows)
    show "comp_observation_prob ?m1 (slices tables ?L (ol ! j)) = Inr (?v j)"
      by (rule comp_observation_prob_pure [OF t ok li bi slices_ok [OF lj bj]])
  qed
  have row: "fold (\<lambda>j r. r[j := ?v j]) [0..<?M] (B ! i) = map ?v [0..<?M]"
    using B iB by (intro nth_equalityI) (simp_all add: fold_update_nth)
  have inner: "fold_err (\<lambda>j B'. bind_err (comp_observation_prob ?m1 (slices tables ?L (ol ! j)))
                           (\<lambda>p. set_entry B' i j p)) [0..<?M] B
      = Inr (B[i := map ?v [0..<?M]])"
    using fold_err_row_plain [OF iB js f] row by simp
  show ?thesis
    unfolding gen_B_row_def
    by (simp add: ss t1 Let_def lo inner slices_def [symmetric])
qed

lemma gen_B_fold:
  assumes t: "modality_tables m = Some tables" and ok: "tables_ok tables"
    and sl: "sl = states (length (lnls m))"
    and ol: "ol = obs_rows (length tables) (length (lnls m))"
    and B: "length B0 = 2 ^ length (lnls m)"
           "\<forall>r \<in> set B0. length r = 2 ^ (length tables * length (lnls m))"
    and n: "n \<le> 2 ^ length (lnls m)"
  shows "\<exists>m'. same_base m m' \<and>
          fold_err (gen_B_row sl ol) [0..<n] (m, B0) =
            Inr (m', map (\<lambda>i. if i < n
                       then map (\<lambda>j. B_entry tables (sl ! i)
                                        (slices tables (length (lnls m)) (ol ! j)))
                              [0..<2 ^ (length tables * length (lnls m))]
                       else B0 ! i) [0..<2 ^ length (lnls m)])"
  using n
proof (induction n)
  case 0
  have "map (\<lambda>i. B0 ! i) [0..<2 ^ length (lnls m)] = B0"
    using B(1) by (intro nth_equalityI) simp_all
  then show ?case using same_base_refl by auto
next
  case (Suc n)
  let ?N = "2 ^ length (lnls m) :: nat"
  let ?M = "2 ^ (length tables * length (lnls m)) :: nat"
  let ?row = "\<lambda>i. map (\<lambda>j. B_entry tables (sl ! i) (slices tables (length (lnls m)) (ol ! j)))
                    [0..<?M]"
  let ?Bn = "map (\<lambda>i. if i < n then ?row i else B0 ! i) [0..<?N]"
  from Suc obtain m' where sb: "same_base m m'"
    and f: "fold_err (gen_B_row sl ol) [0..<n] (m, B0) = Inr (m', ?Bn)" by auto
  have n: "n < ?N" using Suc.prems by simp
  have Bn: "length ?Bn = ?N" "\<forall>r \<in> set ?Bn. length r = ?M" using B by auto
  have step: "gen_B_row sl ol n (m', ?Bn) = Inr (with_state m (sl ! n), ?Bn[n := ?row n])"
    using gen_B_row_pure [OF t ok sl ol sb n Bn] .
  have upd: "?Bn[n := ?row n] = map (\<lambda>i. if i < Suc n then ?row i else B0 ! i) [0..<?N]"
    using n by (intro nth_equalityI) (auto simp: nth_list_update less_Suc_eq)
  have ln: "length (sl ! n) = length (lnls m)" using n sl by (simp add: states_nth)
  have "same_base m (with_state m (sl ! n))"
    using same_base_step [OF same_base_refl ln] .
  then show ?case
    by (intro exI [of _ "with_state m (sl ! n)"]) (simp add: fold_err_append f step upd)
qed

lemma B_get_fresh:
  assumes t: "modality_tables m = Some tables" and ok: "tables_ok tables"
    and c: "B_cache m = None"
    and o: "obs_list_cache m = None
            \<or> obs_list_cache m = Some (obs_rows (length tables) (length (lnls m)))"
  shows "\<exists>m'. B_get m = return_res (B_matrix tables (length (lnls m)),
                 m'\<lparr>B_cache := Some (B_matrix tables (length (lnls m)))\<rparr>)
            \<and> same_base (m\<lparr>obs_list_cache :=
                   Some (obs_rows (length tables) (length (lnls m)))\<rparr>) m'"
proof -
  let ?L = "length (lnls m)"
  let ?sl = "states ?L"
  let ?ol = "obs_rows (length tables) ?L"
  let ?m0 = "m\<lparr>obs_list_cache := Some ?ol\<rparr>"
  let ?B0 = "zeros (2 ^ ?L) (2 ^ (length tables * ?L))"
  have l0: "lnls ?m0 = lnls m" by (simp add: lnls_def)
  have t0: "modality_tables ?m0 = Some tables" using t by simp
  have B0: "length ?B0 = 2 ^ length (lnls ?m0)"
    "\<forall>r \<in> set ?B0. length r = 2 ^ (length tables * length (lnls ?m0))"
    by (simp_all add: zeros_def l0)
  from gen_B_fold [OF t0 ok refl refl B0 order_refl]
  obtain m' where sb: "same_base ?m0 m'"
    and f: "fold_err (gen_B_row ?sl ?ol) [0..<2 ^ ?L] (?m0, ?B0) =
            Inr (m', map (\<lambda>i. if i < 2 ^ ?L
                       then map (\<lambda>j. B_entry tables (?sl ! i) (slices tables ?L (?ol ! j)))
                              [0..<2 ^ (length tables * ?L)]
                       else ?B0 ! i) [0..<2 ^ ?L])"
    unfolding l0 by blast
  have eq: "map (\<lambda>i. if i < 2 ^ ?L
                       then map (\<lambda>j. B_entry tables (?sl ! i) (slices tables ?L (?ol ! j)))
                              [0..<2 ^ (length tables * ?L)]
                       else ?B0 ! i) [0..<2 ^ ?L] = B_matrix tables ?L"
    unfolding B_matrix_def by (intro nth_equalityI) simp_all
  have g: "gen_B m = return_res (m'\<lparr>B_cache := Some (B_matrix tables ?L)\<rparr>)"
    unfolding gen_B_def
    using c f by (simp add: state_list_states obs_list_pure [OF t o] eq)
  have "B_get m = return_res (B_matrix tables ?L, m'\<lparr>B_cache := Some (B_matrix tables ?L)\<rparr>)"
    using c by (simp add: B_get_def g)
  with sb show ?thesis by blast
qed

lemma shape_B_matrix: "shape_of (2 ^ L) (2 ^ (length tables * L)) (B_matrix tables L)"
  by (simp add: shape_of_def B_matrix_def list_all_iff)

lemma A_get_frame:
  assumes "good_cache m"
  shows "\<exists>A m'. A_get m = return_res (A, m') \<and> square_of (2 ^ length (lnls m)) A
           \<and> lnls m' = lnls m \<and> modality_tables m' = modality_tables m
           \<and> obs_list_cache m' = obs_list_cache m \<and> B_cache m' = B_cache m"
proof (cases "A_cache m")
  case None
  from A_get_fresh [OF None] obtain m' where
    a: "A_get m = return_res (A_matrix m, m'\<lparr>A_cache := Some (A_matrix m)\<rparr>)"
    and sb: "same_base m m'" by blast
  let ?m = "m'\<lparr>A_cache := Some (A_matrix m)\<rparr>"
  have "lnls ?m = lnls m" using same_base_fields(8) [OF sb] by (simp add: lnls_def)
  moreover have "modality_tables ?m = modality_tables m"
    using same_base_fields(2) [OF sb] by simp
  moreover have "obs_list_cache ?m = obs_list_cache m"
    using same_base_fields(3) [OF sb] by simp
  moreover have "B_cache ?m = B_cache m"
    using same_base_fields(4) [OF sb] by simp
  ultimately show ?thesis using a square_A_matrix [of m] by blast
next
  case (Some A)
  then have "A_get m = return_res (A, m)" by (simp add: A_get_def)
  moreover have "square_of (2 ^ length (lnls m)) A"
    using assms Some by (simp add: good_cache_def)
  ultimately show ?thesis by blast
qed

lemma evolve_frame:
  assumes "good_cache m" and "0 \<le> t"
  shows "\<exists>v m'. evolve np_inv m t None = return_res (Vector v, m')
           \<and> length v = 2 ^ length (lnls m)
           \<and> lnls m' = lnls m \<and> modality_tables m' = modality_tables m
           \<and> obs_list_cache m' = obs_list_cache m \<and> B_cache m' = B_cache m"
proof -
  let ?n = "2 ^ length (lnls m) :: nat"
  from A_get_frame [OF assms(1)] obtain A m' where
    a: "A_get m = return_res (A, m')" and sq: "square_of ?n A"
    and fr: "lnls m' = lnls m" "modality_tables m' = modality_tables m"
      "obs_list_cache m' = obs_list_cache m" "B_cache m' = B_cache m" by blast
  from mat_pow_nat_square [OF sq, of "nat t"] obtain Y where
    Y: "mat_pow_nat A (nat t) = Inr Y" "square_of ?n Y" by auto
  have "length ((replicate ?n (0::real))[0 := 1]) = ?n" by simp
  from vec_mat_square [OF this Y(2)] obtain w where
    w: "vec_mat ((replicate ?n 0)[0 := 1]) Y = Inr w" "length w = ?n" by auto
  have sqA: "list_all (\<lambda>r. length r = length A) A" using sq by (simp add: square_of_def)
  have "evolve np_inv m t None = return_res (Vector w, m')"
    unfolding evolve_def
    using assms(2) by (simp add: state_list_states a mat_pow_def sqA Y w)
  with fr w(2) show ?thesis by blast
qed

lemma sum_list_single:
  assumes "z < n"
  shows "(\<Sum>j\<leftarrow>[0..<n]. if (replicate n False)[z := True] ! j then g j else 0) = (g z :: real)"
proof -
  have "(\<Sum>j\<leftarrow>[0..<n]. if (replicate n False)[z := True] ! j then g j else 0)
      = (\<Sum>j = 0..<n. if (replicate n False)[z := True] ! j then g j else 0)"
    by (simp add: interv_sum_list_conv_sum_set_nat)
  also have "\<dots> = (\<Sum>j = 0..<n. if j = z then g j else 0)"
    by (rule sum.cong) (auto simp: nth_list_update)
  also have "\<dots> = g z" using assms by simp
  finally show ?thesis .
qed

lemma B_get_obs_list:
  assumes t: "modality_tables m = Some tables" and ok: "tables_ok tables"
    and c: "B_cache m = None \<or> B_cache m = Some (B_matrix tables (length (lnls m)))"
    and o: "obs_list_cache m = None
            \<or> obs_list_cache m = Some (obs_rows (length tables) (length (lnls m)))"
  shows "\<exists>m' m''. B_get m = return_res (B_matrix tables (length (lnls m)), m')
           \<and> obs_list m' = return_res (obs_rows (length tables) (length (lnls m)), m'')"
  using c
proof
  assume n: "B_cache m = None"
  from B_get_fresh [OF t ok n o] obtain m' where
    b: "B_get m = return_res (B_matrix tables (length (lnls m)),
                 m'\<lparr>B_cache := Some (B_matrix tables (length (lnls m)))\<rparr>)"
    and sb: "same_base (m\<lparr>obs_list_cache :=
                   Some (obs_rows (length tables) (length (lnls m)))\<rparr>) m'" by blast
  have "obs_list_cache m' = Some (obs_rows (length tables) (length (lnls m)))"
    using same_base_fields(3) [OF sb] by simp
  then have "obs_list (m'\<lparr>B_cache := Some (B_matrix tables (length (lnls m)))\<rparr>)
      = return_res (obs_rows (length tables) (length (lnls m)),
          m'\<lparr>B_cache := Some (B_matrix tables (length (lnls m)))\<rparr>)"
    by (simp add: obs_list_def)
  with b show ?thesis by blast
next
  assume s: "B_cache m = Some (B_matrix tables (length (lnls m)))"
  then have "B_get m = return_res (B_matrix tables (length (lnls m)), m)"
    by (simp add: B_get_def)
  with obs_list_pure [OF t o] show ?thesis by blast
qed

lemma vec_mat_B_matrix:
  assumes "length pX = 2 ^ L"
  shows "vec_mat pX (B_matrix tables L)
           = Inr (map (\<lambda>j. \<Sum>i\<leftarrow>[0..<2 ^ L]. pX ! i * B_matrix tables L ! i ! j)
                    [0..<2 ^ (length tables * L)])"
proof -
  have "B_matrix tables L \<noteq> []" by (simp add: B_matrix_def)
  then obtain r rs where B: "B_matrix tables L = r # rs" by (cases "B_matrix tables L") auto
  have "r = B_matrix tables L ! 0" by (simp add: B)
  then have "length r = 2 ^ (length tables * L)" by (simp add: B_matrix_def)
  then have "ncols (B_matrix tables L) = 2 ^ (length tables * L)" by (simp add: ncols_def B)
  moreover have "length (B_matrix tables L) = 2 ^ L" by (simp add: B_matrix_def)
  ultimately show ?thesis using assms by (simp add: vec_mat_def)
qed

lemma evolve_steps_shape:
  assumes "square_of n A" and "0 < n"
  shows "length v = n \<Longrightarrow>
           \<exists>rows. evolve_steps k v A = Inr rows \<and> length rows = Suc k
             \<and> list_all (\<lambda>r. length r = n) rows"
proof (induction k arbitrary: v)
  case 0
  then show ?case by simp
next
  case (Suc k)
  from vec_mat_square [OF Suc.prems assms] obtain w where
    w: "vec_mat v A = Inr w" "length w = n" by blast
  from Suc.IH [OF w(2)] obtain rows where
    "evolve_steps k w A = Inr rows" "length rows = Suc k" "list_all (\<lambda>r. length r = n) rows"
    by blast
  then show ?case using Suc.prems by (simp add: w)
qed

lemma evolve_range_frame:
  assumes "good_cache m" and "td \<noteq> []"
  shows "\<exists>rows m'. evolve np_inv m 0 (Some (int (length td) - 1)) = return_res (Matrix rows, m')
           \<and> length rows = length td
           \<and> list_all (\<lambda>r. length r = 2 ^ length (lnls m)) rows
           \<and> lnls m' = lnls m \<and> modality_tables m' = modality_tables m
           \<and> obs_list_cache m' = obs_list_cache m \<and> B_cache m' = B_cache m"
proof -
  let ?n = "2 ^ length (lnls m) :: nat"
  let ?start = "(replicate ?n (0::real))[0 := 1]"
  from A_get_frame [OF assms(1)] obtain A m' where
    a: "A_get m = return_res (A, m')" and sq: "square_of ?n A"
    and fr: "lnls m' = lnls m" "modality_tables m' = modality_tables m"
      "obs_list_cache m' = obs_list_cache m" "B_cache m' = B_cache m" by blast
  have lA: "length A = ?n" using sq by (simp add: square_of_def)
  have ls: "length ?start = ?n" by simp
  from vec_mat_square [OF ls square_eye [of ?n]] obtain w where
    w: "vec_mat ?start (eye ?n) = Inr w" "length w = ?n" by auto
  from evolve_steps_shape [OF sq _ w(2), of "length td - Suc 0"] obtain rows where
    r: "evolve_steps (length td - Suc 0) w A = Inr rows" "length rows = Suc (length td - Suc 0)"
      "list_all (\<lambda>r. length r = ?n) rows" by auto
  have sqA: "list_all (\<lambda>r. length r = ?n) A" using sq by (simp add: square_of_def)
  have k: "nat (int (length td) - 1) = length td - Suc 0" by simp
  have nn: "\<not> int (length td) - 1 < 0" using assms(2) by (cases td) simp_all
  have "evolve np_inv m 0 (Some (int (length td) - 1)) = return_res (Matrix rows, m')"
    unfolding evolve_def
    using nn by (simp add: state_list_states a mat_pow_def sqA lA w k r Let_def)
  moreover have "length rows = length td" using r(2) assms(2) by (cases td) simp_all
  ultimately show ?thesis using fr r(3) by blast
qed

lemma risk_prior_frame:
  assumes g: "good_cache m"
    and tm: "diag_time = Some t \<and> 0 \<le> t \<or> diag_time = None \<and> time_dist = Some td \<and> td \<noteq> []"
  shows "\<exists>pX m1. risk_prior np_inv m diag_time time_dist ''HMM'' = return_res (Some pX, m1)
           \<and> length pX = 2 ^ length (lnls m)
           \<and> lnls m1 = lnls m \<and> modality_tables m1 = modality_tables m
           \<and> obs_list_cache m1 = obs_list_cache m \<and> B_cache m1 = B_cache m"
  using tm
proof (elim disjE conjE)
  assume dt: "diag_time = Some t" and t0: "0 \<le> t"
  from evolve_frame [OF g t0, of np_inv] obtain pX m1 where
    e: "evolve np_inv m t None = return_res (Vector pX, m1)"
    and r: "length pX = 2 ^ length (lnls m)" "lnls m1 = lnls m"
      "modality_tables m1 = modality_tables m" "obs_list_cache m1 = obs_list_cache m"
      "B_cache m1 = B_cache m" by blast
  have "risk_prior np_inv m diag_time time_dist ''HMM'' = return_res (Some pX, m1)"
    by (simp add: risk_prior_def dt e)
  with r show ?thesis by blast
next
  assume dt: "diag_time = None" and td: "time_dist = Some td" and ne: "td \<noteq> []"
  from evolve_range_frame [OF g ne, of np_inv] obtain rows m1 where
    e: "evolve np_inv m 0 (Some (int (length td) - 1)) = return_res (Matrix rows, m1)"
    and lr: "length rows = length td"
    and sh: "list_all (\<lambda>r. length r = 2 ^ length (lnls m)) rows"
    and r: "lnls m1 = lnls m"
      "modality_tables m1 = modality_tables m" "obs_list_cache m1 = obs_list_cache m"
      "B_cache m1 = B_cache m" by blast
  from ne lr obtain r0 rs where rows: "rows = r0 # rs" by (cases rows) auto
  have nc: "ncols rows = 2 ^ length (lnls m)" using sh by (simp add: rows ncols_def)
  let ?v = "map (\<lambda>j. \<Sum>i\<leftarrow>[0..<length rows]. td ! i * rows ! i ! j) [0..<ncols rows]"
  have v: "vec_mat td rows = Inr ?v" using lr by (simp add: vec_mat_def)
  have "risk_prior np_inv m diag_time time_dist ''HMM'' = return_res (Some ?v, m1)"
    by (simp add: risk_prior_def dt td e Let_def v)
  moreover have "length ?v = 2 ^ length (lnls m)" using nc by simp
  ultimately show ?thesis using r by blast
qed

lemma filter_single:
  "z < n \<Longrightarrow> filter (\<lambda>b. b) ((replicate n False)[z := True]) = [True]"
  by (simp add: upd_conv_take_nth_drop)

lemma risk_complete:
  assumes t: "modality_tables m = Some [(name, table)]" and ok: "shape_of 2 2 table"
    and g: "good_cache m"
    and o: "obs_list_cache m = None \<or> obs_list_cache m = Some (obs_rows 1 (length (lnls m)))"
    and c: "B_cache m = None \<or> B_cache m = Some (B_matrix [(name, table)] (length (lnls m)))"
    and d: "map_of diagnoses name = Some (map Some d)" and ld: "length d = length (lnls m)"
    and tm: "diag_time = Some t \<and> 0 \<le> t \<or> diag_time = None \<and> time_dist = Some td \<and> td \<noteq> []"
  shows "\<exists>pX m1 m2 pZ m'.
           risk_prior np_inv m diag_time time_dist ''HMM'' = return_res (Some pX, m1)
           \<and> length pX = 2 ^ length (lnls m)
           \<and> B_get m1 = return_res (B_matrix [(name, table)] (length (lnls m)), m2)
           \<and> vec_mat pX (B_matrix [(name, table)] (length (lnls m))) = Inr pZ
           \<and> pZ ! of_bits d = (\<Sum>i\<leftarrow>[0..<2 ^ length (lnls m)].
                      pX ! i * B_matrix [(name, table)] (length (lnls m)) ! i ! of_bits d)
           \<and> risk np_inv m None None diagnoses diag_time time_dist ''HMM'' =
               return_res (Risks (map (\<lambda>x. np_div
                   (B_matrix [(name, table)] (length (lnls m)) ! x ! of_bits d * pX ! x)
                   (pZ ! of_bits d))
                 [0..<2 ^ length (lnls m)]), m')"
proof -
  let ?L = "length (lnls m)"
  let ?N = "2 ^ ?L :: nat"
  let ?tables = "[(name, table)]"
  let ?B = "B_matrix ?tables ?L"
  let ?ol = "obs_rows (Suc 0) ?L"
  let ?z = "of_bits d"
  let ?cZ = "(replicate ?N False)[?z := True]"
  from risk_prior_frame [OF g tm, of np_inv] obtain pX m1 where
    prior: "risk_prior np_inv m diag_time time_dist ''HMM'' = return_res (Some pX, m1)"
    and lp: "length pX = ?N"
    and l1: "lnls m1 = lnls m" and t1: "modality_tables m1 = Some ?tables"
    and o1: "obs_list_cache m1 = obs_list_cache m" and c1: "B_cache m1 = B_cache m"
    using t by auto
  have okt: "tables_ok ?tables" using ok by (simp add: tables_ok_def)
  have o1': "obs_list_cache m1 = None
      \<or> obs_list_cache m1 = Some (obs_rows (length ?tables) (length (lnls m1)))"
    using o o1 l1 by simp
  have c1': "B_cache m1 = None \<or> B_cache m1 = Some (B_matrix ?tables (length (lnls m1)))"
    using c c1 l1 by simp
  from B_get_obs_list [OF t1 okt c1' o1'] obtain m3 m4 where
    b: "B_get m1 = return_res (?B, m3)" and ob: "obs_list m3 = return_res (?ol, m4)"
    unfolding l1 by auto
  let ?pZ = "map (\<lambda>j. \<Sum>i\<leftarrow>[0..<?N]. pX ! i * ?B ! i ! j) [0..<?N]"
  have pZ: "vec_mat pX ?B = Inr ?pZ" using vec_mat_B_matrix [OF lp, of ?tables] by simp
  have enc: "risk_encoding ?ol (map Some d) ?N = Inr ?cZ"
    using risk_encoding_complete [of d] ld by simp
  have z: "?z < ?N" using of_bits_less [of d] ld by simp
  have num: "(\<Sum>j\<leftarrow>[0..<?N]. if ?cZ ! j then ?B ! x ! j * pX ! x else 0) = ?B ! x ! ?z * pX ! x"
    for x by (rule sum_list_single [OF z])
  have den: "(\<Sum>j\<leftarrow>[0..<?N]. if ?cZ ! j then ?pZ ! j else 0) = ?pZ ! ?z"
    by (rule sum_list_single [OF z])
  have pz: "?pZ ! ?z = (\<Sum>i\<leftarrow>[0..<?N]. pX ! i * ?B ! i ! ?z)" using z by simp
  have "risk np_inv m None None diagnoses diag_time time_dist ''HMM'' =
      return_res (Risks (map (\<lambda>x. np_div (?B ! x ! ?z * pX ! x) (?pZ ! ?z)) [0..<?N]), m4)"
    unfolding risk_def
    by (simp add: t d prior b pZ ob enc lp num den comp_def del: nth_map)
  with prior lp b pZ pz show ?thesis by blast
qed

lemma one_lnl_model_built:
  "0 \<le> p \<Longrightarrow> p \<le> 1 \<Longrightarrow>
   \<exists>m0. init_unilateral t0 [((''tumor'', ''T''), [''II'']), ((''lnl'', ''II''), [])] = Inr m0
      \<and> spread_probs_set m0 [p] = (None, one_lnl_model p None)"
  by (simp add: init_unilateral_def Edge_def find_node_def Node_def upt_2
      spread_probs_set_def base_probs_set_def trans_probs_set_def Let_def
      base_edges_def trans_edges_def one_lnl_model_def edge_t_set_def)

lemma one_lnl_model_modalities:
  assumes "1 / 2 \<le> sp" "sp \<le> 1" "1 / 2 \<le> sn" "sn \<le> 1"
  shows "modalities_set (one_lnl_model p None) [(name, [sp, sn])]
           = Inr (one_lnl_model p (Some [(name, [[sp, 1 - sn], [1 - sp, sn]])]))"
  using assms by (simp add: modalities_set_def one_lnl_model_def)

lemma one_lnl_model_props:
  "lnls (one_lnl_model p tables) = [1]"
  "inc (one_lnl_model p tables) 1 = [\<lparr>edge_start = 0, edge_end = 1, edge_t = p\<rparr>]"
  "node_state (nodes (one_lnl_model p tables) ! 0) = 1"
  "A_cache (one_lnl_model p tables) = None"
  "B_cache (one_lnl_model p tables) = None"
  "obs_list_cache (one_lnl_model p tables) = None"
  "modality_tables (one_lnl_model p tables) = tables"
  "good_cache (one_lnl_model p tables)"
  by (simp_all add: one_lnl_model_def lnls_def inc_def Node_def upt_2 good_cache_def)

lemma obs_rows_1_1: "obs_rows (Suc 0) (Suc 0) = [[0], [1]]"
  by (simp add: obs_rows_def obs_index_def upt_2)

lemma B_matrix_single:
  "B_matrix [(name, table)] (Suc 0)
     = [[table ! 0 ! 0, table ! 1 ! 0], [table ! 0 ! 1, table ! 1 ! 1]]"
  by (simp add: B_matrix_def states_1 obs_rows_1_1 upt_2 slices_def B_entry_def obs_weight_def)

lemma one_lnl_model_prior:
  "\<exists>m'. risk_prior np_inv (one_lnl_model p tables) (Some (int t)) time_dist ''HMM''
          = return_res (Some [(1 - p) ^ t, 1 - (1 - p) ^ t], m')"
proof -
  have ne: "edge_start \<lparr>edge_start = 0, edge_end = 1, edge_t = p\<rparr> \<noteq> (1::nat)" by simp
  have st: "node_state (nodes (one_lnl_model p tables)
      ! edge_start \<lparr>edge_start = 0, edge_end = 1, edge_t = p\<rparr>) = 1"
    by (simp add: one_lnl_model_props)
  have pe: "edge_t \<lparr>edge_start = 0, edge_end = 1, edge_t = p\<rparr> = p" by simp
  from evolve_single [OF one_lnl_model_props(1) one_lnl_model_props(2) ne st pe
      one_lnl_model_props(4), of np_inv t]
  obtain m' where "evolve np_inv (one_lnl_model p tables) (int t) None =
            Some (Inr (Vector [(1 - p) ^ t, 1 - (1 - p) ^ t], m'))" by blast
  then have "risk_prior np_inv (one_lnl_model p tables) (Some (int t)) time_dist ''HMM''
          = return_res (Some [(1 - p) ^ t, 1 - (1 - p) ^ t], m')"
    by (simp add: risk_prior_def bind_res_def return_res_def)
  then show ?thesis by blast
qed

lemma bn_prob_with_state:
  assumes "length s = length (lnls m)" and "binary s" and "k \<in> set (lnls m)"
  shows "\<exists>p. bn_prob (with_state m s) k = Inr p"
proof -
  from assms(3) obtain i where i: "i < length (lnls m)" "lnls m ! i = k"
    by (auto simp: in_set_conv_nth)
  have "node_state (nodes (with_state m s) ! k) = s ! i"
    using write_states_hit [OF distinct_lnls, of s m "nodes m" i] assms(1) i lnls_bound
    by (auto simp: with_state_def)
  moreover have "s ! i = 0 \<or> s ! i = 1"
    using assms(1,2) i by (auto simp: binary_def list_all_length)
  ultimately have v: "node_state (nodes (with_state m s) ! k) = 0
      \<or> node_state (nodes (with_state m s) ! k) = 1" by simp
  obtain a where a: "node_trans_prob
      (map (\<lambda>e. node_state (nodes (with_state m s) ! edge_start e)) (inc (with_state m s) k))
      (map edge_t (inc (with_state m s) k)) = [a, 1 - a]"
    using node_trans_prob_pair by blast
  show ?thesis unfolding bn_prob_def a using py_nth_pair [OF v, of a "1 - a"] by blast
qed

lemma fold_err_total:
  assumes "\<And>x a. x \<in> set xs \<Longrightarrow> \<exists>b. f x a = Inr b"
  shows "\<exists>b. fold_err f xs a = Inr b"
  using assms
proof (induction xs arbitrary: a)
  case Nil
  then show ?case by simp
next
  case (Cons x xs)
  from Cons.prems [of x a] obtain b where b: "f x a = Inr b" by auto
  from Cons.IH [of b] Cons.prems obtain c where "fold_err f xs b = Inr c" by auto
  then show ?case by (simp add: b)
qed

lemma bn_fold:
  assumes "same_base m m1" and "\<forall>s \<in> set sl. length s = length (lnls m) \<and> binary s"
  shows "\<exists>a' m'. fold_err (\<lambda>state (a, m1).
                case state_set m1 (map PyInt state) of
                  (Some e, _) \<Rightarrow> Inl e
                | (None, m2) \<Rightarrow>
                    bind_err (fold_err (\<lambda>k x. bind_err (bn_prob m2 k) (\<lambda>p. Inr (x * p)))
                                (lnls m2) 1)
                      (\<lambda>x. Inr (a @ [x], m2)))
              sl (a, m1) = Inr (a', m')
           \<and> length a' = length a + length sl \<and> same_base m m'"
  using assms
proof (induction sl arbitrary: a m1)
  case Nil
  then show ?case by simp
next
  case (Cons s sl)
  have l1: "lnls m1 = lnls m" using Cons.prems(1) by (simp add: same_base_def)
  from Cons.prems(2) have ls: "length s = length (lnls m1)" and bs: "binary s"
    by (simp_all add: l1)
  let ?m2 = "with_state m1 s"
  have st: "state_set m1 (map PyInt s) = (None, ?m2)"
    by (rule state_set_with_state [OF ls bs])
  have "\<exists>b. fold_err (\<lambda>k x. bind_err (bn_prob ?m2 k) (\<lambda>p. Inr (x * p))) (lnls ?m2) 1 = Inr b"
  proof (rule fold_err_total)
    fix k x assume "k \<in> set (lnls ?m2)"
    then have "k \<in> set (lnls m1)" by simp
    from bn_prob_with_state [OF ls bs this] obtain p where "bn_prob ?m2 k = Inr p" by blast
    then show "\<exists>b. bind_err (bn_prob ?m2 k) (\<lambda>p. Inr (x * p)) = Inr b" by simp
  qed
  then obtain x where
    x: "fold_err (\<lambda>k x. bind_err (bn_prob ?m2 k) (\<lambda>p. Inr (x * p))) (lnls m1) 1 = Inr x"
    by auto
  have sb: "same_base m ?m2" using same_base_step [OF Cons.prems(1)] ls l1 by simp
  from Cons.IH [OF sb, of "a @ [x]"] Cons.prems(2) obtain a' m' where
    "fold_err (\<lambda>state (a, m1).
                case state_set m1 (map PyInt state) of
                  (Some e, _) \<Rightarrow> Inl e
                | (None, m2) \<Rightarrow>
                    bind_err (fold_err (\<lambda>k x. bind_err (bn_prob m2 k) (\<lambda>p. Inr (x * p)))
                                (lnls m2) 1)
                      (\<lambda>x. Inr (a @ [x], m2)))
              sl (a @ [x], ?m2) = Inr (a', m')"
    and "length a' = length (a @ [x]) + length sl" and "same_base m m'" by auto
  then show ?case by (simp add: st x)
qed

lemma bn_state_probs_frame:
  "\<exists>pX m1. bn_state_probs m = return_res (pX, m1) \<and> length pX = 2 ^ length (lnls m)
      \<and> same_base m m1"
proof -
  have "\<forall>s \<in> set (states (length (lnls m))). length s = length (lnls m) \<and> binary s"
    by (auto simp: states_def binary_bits)
  from bn_fold [OF same_base_refl this, of "[]"] obtain a' m' where
    f: "fold_err (\<lambda>state (a, m1).
                case state_set m1 (map PyInt state) of
                  (Some e, _) \<Rightarrow> Inl e
                | (None, m2) \<Rightarrow>
                    bind_err (fold_err (\<lambda>k x. bind_err (bn_prob m2 k) (\<lambda>p. Inr (x * p)))
                                (lnls m2) 1)
                      (\<lambda>x. Inr (a @ [x], m2)))
              (states (length (lnls m))) ([], m) = Inr (a', m')"
    and l: "length a' = 2 ^ length (lnls m)" and sb: "same_base m m'" by auto
  have "bn_state_probs m = return_res (a', m')"
    by (simp add: bn_state_probs_def state_list_states f)
  with l sb show ?thesis by blast
qed

lemma risk_prior_total:
  assumes tm: "mode = ''HMM'' \<and> good_cache m
        \<and> (diag_time = Some t \<and> 0 \<le> t \<or> diag_time = None \<and> time_dist = Some td \<and> td \<noteq> [])
      \<or> mode = ''BN''"
  shows "\<exists>pX m1. risk_prior np_inv m diag_time time_dist mode = return_res (Some pX, m1)
           \<and> length pX = 2 ^ length (lnls m)
           \<and> lnls m1 = lnls m \<and> modality_tables m1 = modality_tables m
           \<and> obs_list_cache m1 = obs_list_cache m \<and> B_cache m1 = B_cache m"
  using tm
proof
  assume a: "mode = ''HMM'' \<and> good_cache m
        \<and> (diag_time = Some t \<and> 0 \<le> t \<or> diag_time = None \<and> time_dist = Some td \<and> td \<noteq> [])"
  then have g: "good_cache m"
    and h: "diag_time = Some t \<and> 0 \<le> t \<or> diag_time = None \<and> time_dist = Some td \<and> td \<noteq> []"
    by blast+
  from risk_prior_frame [OF g h, of np_inv] a show ?thesis by simp
next
  assume b: "mode = ''BN''"
  from bn_state_probs_frame [of m] obtain pX m1 where
    p: "bn_state_probs m = return_res (pX, m1)" and l: "length pX = 2 ^ length (lnls m)"
    and sb: "same_base m m1" by blast
  have "risk_prior np_inv m diag_time time_dist mode = return_res (Some pX, m1)"
    by (simp add: risk_prior_def b p)
  with l same_base_fields [OF sb] show ?thesis by blast
qed

lemma risk_complete_mode:
  assumes t: "modality_tables m = Some [(name, table)]" and ok: "shape_of 2 2 table"
    and o: "obs_list_cache m = None \<or> obs_list_cache m = Some (obs_rows 1 (length (lnls m)))"
    and c: "B_cache m = None \<or> B_cache m = Some (B_matrix [(name, table)] (length (lnls m)))"
    and d: "map_of diagnoses name = Some (map Some d)" and ld: "length d = length (lnls m)"
    and prior: "risk_prior np_inv m diag_time time_dist mode = return_res (Some pX, m1)"
    and lp: "length pX = 2 ^ length (lnls m)"
    and l1: "lnls m1 = lnls m" and t1': "modality_tables m1 = modality_tables m"
    and o1: "obs_list_cache m1 = obs_list_cache m" and c1: "B_cache m1 = B_cache m"
  shows "\<exists>m2 pZ m'.
           B_get m1 = return_res (B_matrix [(name, table)] (length (lnls m)), m2)
           \<and> vec_mat pX (B_matrix [(name, table)] (length (lnls m))) = Inr pZ
           \<and> pZ ! of_bits d = (\<Sum>i\<leftarrow>[0..<2 ^ length (lnls m)].
                      pX ! i * B_matrix [(name, table)] (length (lnls m)) ! i ! of_bits d)
           \<and> risk np_inv m None None diagnoses diag_time time_dist mode =
               return_res (Risks (map (\<lambda>x. np_div
                   (B_matrix [(name, table)] (length (lnls m)) ! x ! of_bits d * pX ! x)
                   (pZ ! of_bits d))
                 [0..<2 ^ length (lnls m)]), m')"
proof -
  let ?L = "length (lnls m)"
  let ?N = "2 ^ ?L :: nat"
  let ?tables = "[(name, table)]"
  let ?B = "B_matrix ?tables ?L"
  let ?ol = "obs_rows (Suc 0) ?L"
  let ?z = "of_bits d"
  let ?cZ = "(replicate ?N False)[?z := True]"
  have t1: "modality_tables m1 = Some ?tables" using t t1' by simp
  have okt: "tables_ok ?tables" using ok by (simp add: tables_ok_def)
  have o1': "obs_list_cache m1 = None
      \<or> obs_list_cache m1 = Some (obs_rows (length ?tables) (length (lnls m1)))"
    using o o1 l1 by simp
  have c1': "B_cache m1 = None \<or> B_cache m1 = Some (B_matrix ?tables (length (lnls m1)))"
    using c c1 l1 by simp
  from B_get_obs_list [OF t1 okt c1' o1'] obtain m3 m4 where
    b: "B_get m1 = return_res (?B, m3)" and ob: "obs_list m3 = return_res (?ol, m4)"
    unfolding l1 by auto
  let ?pZ = "map (\<lambda>j. \<Sum>i\<leftarrow>[0..<?N]. pX ! i * ?B ! i ! j) [0..<?N]"
  have pZ: "vec_mat pX ?B = Inr ?pZ" using vec_mat_B_matrix [OF lp, of ?tables] by simp
  have enc: "risk_encoding ?ol (map Some d) ?N = Inr ?cZ"
    using risk_encoding_complete [of d] ld by simp
  have z: "?z < ?N" using of_bits_less [of d] ld by simp
  have num: "(\<Sum>j\<leftarrow>[0..<?N]. if ?cZ ! j then ?B ! x ! j * pX ! x else 0) = ?B ! x ! ?z * pX ! x"
    for x by (rule sum_list_single [OF z])
  have den: "(\<Sum>j\<leftarrow>[0..<?N]. if ?cZ ! j then ?pZ ! j else 0) = ?pZ ! ?z"
    by (rule sum_list_single [OF z])
  have pz: "?pZ ! ?z = (\<Sum>i\<leftarrow>[0..<?N]. pX ! i * ?B ! i ! ?z)" using z by simp
  have "risk np_inv m None None diagnoses diag_time time_dist mode =
      return_res (Risks (map (\<lambda>x. np_div (?B ! x ! ?z * pX ! x) (?pZ ! ?z)) [0..<?N]), m4)"
    unfolding risk_def
    by (simp add: t d prior b pZ ob enc lp num den comp_def del: nth_map)
  with b pZ pz show ?thesis by blast
qed

lemma one_lnl_model_bn:
  "\<exists>m'. bn_state_probs (one_lnl_model p tables) = return_res ([1 - p, p], m')"
  by (simp add: bn_state_probs_def state_list_states one_lnl_model_props(1) states_1
      state_set_def py_int_def node_state_set_def bind_err_def bn_prob_def
      node_trans_prob_def inc_def py_nth_def lnls_def one_lnl_model_def Node_def upt_2
      return_res_def bind_res_def Let_def)

text \<open>
  Claim C8, amended. The model has exactly one modality, with a 2x2 table; its cached
  observation list and observation matrix are absent or those of that modality; the
  diagnosis of the modality is complete, one entry per LNL; the mode is "BN", or "HMM"
  with a cached transition matrix that is absent or square of size \<open>2 ^ L\<close> and a
  diagnose time that is not negative or, without a diagnose time, a non-empty
  distribution over diagnose times. Then the encoding vector \<open>cZ\<close> that \<open>risk\<close>
  builds from \<open>obs_list\<close> has exactly one true entry, at the index of the diagnosis,
  and \<open>risk\<close> with \<open>inv = None\<close> returns a vector \<open>res\<close> with one entry per hidden
  state, \<open>2 ^ L\<close> in all. When the probability \<open>cZ @ pZ\<close> of the diagnosis, the entry
  of \<open>pZ = pX @ B\<close> at that index, is not zero, every entry of \<open>res\<close> is a real number
  and the entries sum to 1; when it is zero, every entry of \<open>res\<close> is NaN or infinite.
\<close>

theorem risk_of_complete_diagnosis:
  assumes t: "modality_tables m = Some [(name, table)]" and ok: "shape_of 2 2 table"
    and o: "obs_list_cache m = None \<or> obs_list_cache m = Some (obs_rows 1 (length (lnls m)))"
    and c: "B_cache m = None \<or> B_cache m = Some (B_matrix [(name, table)] (length (lnls m)))"
    and d: "map_of diagnoses name = Some (map Some d)" and ld: "length d = length (lnls m)"
    and tm: "mode = ''HMM'' \<and> good_cache m
        \<and> (diag_time = Some t \<and> 0 \<le> t \<or> diag_time = None \<and> time_dist = Some td \<and> td \<noteq> [])
      \<or> mode = ''BN''"
  shows "\<exists>ol mo cZ pX m1 m2 pZ res m'.
           obs_list m = return_res (ol, mo)
           \<and> risk_encoding ol (map Some d) (2 ^ length (lnls m)) = Inr cZ
           \<and> length cZ = 2 ^ length (lnls m) \<and> filter (\<lambda>b. b) cZ = [True] \<and> cZ ! of_bits d
           \<and> risk_prior np_inv m diag_time time_dist mode = return_res (Some pX, m1)
           \<and> B_get m1 = return_res (B_matrix [(name, table)] (length (lnls m)), m2)
           \<and> vec_mat pX (B_matrix [(name, table)] (length (lnls m))) = Inr pZ
           \<and> risk np_inv m None None diagnoses diag_time time_dist mode
               = return_res (Risks res, m')
           \<and> length res = 2 ^ length (lnls m)
           \<and> (pZ ! of_bits d \<noteq> 0 \<longrightarrow> (\<exists>rs. res = map Fin rs \<and> sum_list rs = 1))
           \<and> (pZ ! of_bits d = 0 \<longrightarrow> list_all (\<lambda>r. \<not> finite_float r) res)"
proof -
  let ?L = "length (lnls m)"
  let ?N = "2 ^ ?L :: nat"
  let ?B = "B_matrix [(name, table)] ?L"
  let ?z = "of_bits d"
  let ?cZ = "(replicate ?N False)[?z := True]"
  from risk_prior_total [OF tm, of np_inv] obtain pX m1 where
    prior: "risk_prior np_inv m diag_time time_dist mode = return_res (Some pX, m1)"
    and lp: "length pX = ?N"
    and fr: "lnls m1 = lnls m" "modality_tables m1 = modality_tables m"
      "obs_list_cache m1 = obs_list_cache m" "B_cache m1 = B_cache m" by blast
  from risk_complete_mode [OF t ok o c d ld prior lp fr] obtain m2 pZ m' where
    b: "B_get m1 = return_res (?B, m2)"
    and pZ: "vec_mat pX ?B = Inr pZ"
    and pz: "pZ ! ?z = (\<Sum>i\<leftarrow>[0..<?N]. pX ! i * ?B ! i ! ?z)"
    and r: "risk np_inv m None None diagnoses diag_time time_dist mode =
               return_res (Risks (map (\<lambda>x. np_div (?B ! x ! ?z * pX ! x) (pZ ! ?z)) [0..<?N]), m')"
    by blast
  let ?res = "map (\<lambda>x. np_div (?B ! x ! ?z * pX ! x) (pZ ! ?z)) [0..<?N]"
  let ?rs = "map (\<lambda>x. ?B ! x ! ?z * pX ! x / pZ ! ?z) [0..<?N]"
  have z: "?z < ?N" using of_bits_less [of d] ld by simp
  have o': "obs_list_cache m = None
      \<or> obs_list_cache m = Some (obs_rows (length [(name, table)]) ?L)" using o by simp
  from obs_list_pure [OF t o'] obtain mo where
    ol: "obs_list m = return_res (obs_rows (Suc 0) ?L, mo)" by auto
  have enc: "risk_encoding (obs_rows (Suc 0) ?L) (map Some d) ?N = Inr ?cZ"
    using risk_encoding_complete [of d] ld by simp
  have cz: "length ?cZ = ?N" "filter (\<lambda>b. b) ?cZ = [True]" "?cZ ! ?z"
    using z by (simp_all add: filter_single)
  have fin: "\<exists>rs. ?res = map Fin rs \<and> sum_list rs = 1" if nz: "pZ ! ?z \<noteq> 0"
  proof -
    have "?res = map Fin ?rs" using nz by (simp add: np_div_def)
    moreover have "sum_list ?rs = 1"
    proof -
      have "sum_list ?rs = (\<Sum>x = 0..<?N. ?B ! x ! ?z * pX ! x / pZ ! ?z)"
        by (simp add: interv_sum_list_conv_sum_set_nat)
      also have "\<dots> = (\<Sum>x = 0..<?N. pX ! x * ?B ! x ! ?z) / pZ ! ?z"
        by (simp add: sum_divide_distrib mult.commute)
      also have "(\<Sum>x = 0..<?N. pX ! x * ?B ! x ! ?z) = pZ ! ?z"
        unfolding pz by (simp add: interv_sum_list_conv_sum_set_nat)
      finally show ?thesis using nz by simp
    qed
    ultimately show ?thesis by blast
  qed
  have inf: "list_all (\<lambda>r. \<not> finite_float r) ?res" if "pZ ! ?z = 0"
    using that by (simp add: list_all_length np_div_def finite_float_def)
  have lr: "length ?res = ?N" by simp
  from ol enc cz prior b pZ r lr fin inf show ?thesis by blast
qed

theorem risk_of_complete_diagnosis_witness:
  "(\<exists>rs m'. risk (\<lambda>X. Inl ValueError)
       (one_lnl_model (3/10) (Some [(''CT'', [[9/10, 1/5], [1/10, 4/5]])])) None None
       [(''CT'', [Some True])] (Some 2) None ''HMM'' = Some (Inr (Risks (map Fin rs), m'))
     \<and> length rs = 2 \<and> sum_list rs = 1)
   \<and> (\<exists>rs m'. risk (\<lambda>X. Inl ValueError)
       (one_lnl_model (3/10) (Some [(''CT'', [[9/10, 1/5], [1/10, 4/5]])])) None None
       [(''CT'', [Some True])] None None ''BN'' = Some (Inr (Risks (map Fin rs), m'))
     \<and> length rs = 2 \<and> sum_list rs = 1)"
proof -
  let ?table = "[[9/10, 1/5], [1/10, 4/5 :: real]]"
  let ?m = "one_lnl_model (3/10) (Some [(''CT'', ?table)])"
  have t: "modality_tables ?m = Some [(''CT'', ?table)]" by (simp add: one_lnl_model_props)
  have ok: "shape_of 2 2 ?table" by (simp add: shape_of_def)
  have o: "obs_list_cache ?m = None \<or> obs_list_cache ?m = Some (obs_rows 1 (length (lnls ?m)))"
    by (simp add: one_lnl_model_props)
  have c: "B_cache ?m = None
      \<or> B_cache ?m = Some (B_matrix [(''CT'', ?table)] (length (lnls ?m)))"
    by (simp add: one_lnl_model_props)
  have d: "map_of [(''CT'', [Some True])] ''CT'' = Some (map Some [True])" by simp
  have ld: "length [True] = length (lnls ?m)" by (simp add: one_lnl_model_props)
  have tm: "''HMM'' = ''HMM'' \<and> good_cache ?m
        \<and> (Some (2::int) = Some 2 \<and> 0 \<le> (2::int)
            \<or> Some (2::int) = None \<and> (None :: vec option) = Some [] \<and> ([] :: vec) \<noteq> [])
      \<or> ''HMM'' = ''BN''" by (simp add: one_lnl_model_props)
  have tb: "''BN'' = ''HMM'' \<and> good_cache ?m
        \<and> ((None :: int option) = Some 0 \<and> 0 \<le> (0::int)
            \<or> (None :: int option) = None \<and> (None :: vec option) = Some [] \<and> ([] :: vec) \<noteq> [])
      \<or> ''BN'' = ''BN''" by simp
  have 1: "\<exists>rs m'. risk (\<lambda>X. Inl ValueError) ?m None None
       [(''CT'', [Some True])] (Some 2) None ''HMM'' = Some (Inr (Risks (map Fin rs), m'))
     \<and> length rs = 2 \<and> sum_list rs = 1"
  proof -
    from risk_of_complete_diagnosis [OF t ok o c d ld tm, of "\<lambda>X. Inl ValueError"]
    obtain pX m1 pZ res m' where
      prior: "risk_prior (\<lambda>X. Inl ValueError) ?m (Some 2) None ''HMM'' = return_res (Some pX, m1)"
      and pZ: "vec_mat pX (B_matrix [(''CT'', ?table)] (length (lnls ?m))) = Inr pZ"
      and r: "risk (\<lambda>X. Inl ValueError) ?m None None [(''CT'', [Some True])] (Some 2) None ''HMM''
               = return_res (Risks res, m')"
      and lr: "length res = 2 ^ length (lnls ?m)"
      and fin: "pZ ! of_bits [True] \<noteq> 0 \<longrightarrow> (\<exists>rs. res = map Fin rs \<and> sum_list rs = 1)"
      by blast
    from one_lnl_model_prior [of "\<lambda>X. Inl ValueError" "3/10" "Some [(''CT'', ?table)]" 2 None]
    have pX: "pX = [(1 - 3/10) ^ 2, 1 - (1 - 3/10) ^ 2]"
      using prior by (auto simp: return_res_def)
    have "pZ ! of_bits [True] \<noteq> 0"
      using pZ unfolding pX
      by (auto simp: one_lnl_model_props B_matrix_single vec_mat_def ncols_def upt_2 of_bits_def
          power2_eq_square)
    with fin obtain rs where rs: "res = map Fin rs" "sum_list rs = 1" by blast
    have "length rs = 2" using lr rs(1) by (simp add: one_lnl_model_props)
    with r rs show ?thesis by (auto simp: return_res_def)
  qed
  have 2: "\<exists>rs m'. risk (\<lambda>X. Inl ValueError) ?m None None
       [(''CT'', [Some True])] None None ''BN'' = Some (Inr (Risks (map Fin rs), m'))
     \<and> length rs = 2 \<and> sum_list rs = 1"
  proof -
    from risk_of_complete_diagnosis [OF t ok o c d ld tb, of "\<lambda>X. Inl ValueError"]
    obtain pX m1 pZ res m' where
      prior: "risk_prior (\<lambda>X. Inl ValueError) ?m None None ''BN'' = return_res (Some pX, m1)"
      and pZ: "vec_mat pX (B_matrix [(''CT'', ?table)] (length (lnls ?m))) = Inr pZ"
      and r: "risk (\<lambda>X. Inl ValueError) ?m None None [(''CT'', [Some True])] None None ''BN''
               = return_res (Risks res, m')"
      and lr: "length res = 2 ^ length (lnls ?m)"
      and fin: "pZ ! of_bits [True] \<noteq> 0 \<longrightarrow> (\<exists>rs. res = map Fin rs \<and> sum_list rs = 1)"
      by blast
    from one_lnl_model_bn [of "3/10" "Some [(''CT'', ?table)]"]
    have pX: "pX = [1 - 3/10, 3/10]"
      using prior by (auto simp: risk_prior_def return_res_def bind_res_def)
    have "pZ ! of_bits [True] \<noteq> 0"
      using pZ unfolding pX
      by (auto simp: one_lnl_model_props B_matrix_single vec_mat_def ncols_def upt_2 of_bits_def)
    with fin obtain rs where rs: "res = map Fin rs" "sum_list rs = 1" by blast
    have "length rs = 2" using lr rs(1) by (simp add: one_lnl_model_props)
    with r rs show ?thesis by (auto simp: return_res_def)
  qed
  from 1 2 show ?thesis by blast
qed

text \<open>
  Claim C8 as stated fails when the diagnosis has probability zero under the model. A
  modality of sensitivity and specificity 1 never reports an involved level that is
  healthy, and at the diagnose time 0 the level is healthy with certainty: for the
  diagnosis "involved" the divisor \<open>cZ @ pZ\<close> is zero and \<open>risk\<close> returns two NaN,
  which do not sum to 1.
\<close>

theorem risk_of_impossible_diagnosis_is_nan:
  "modalities_set (one_lnl_model (3/10) None) [(''CT'', [1, 1])]
     = Inr (one_lnl_model (3/10) (Some [(''CT'', [[1, 0], [0, 1]])]))
   \<and> result_value (risk (\<lambda>X. Inl ValueError)
       (one_lnl_model (3/10) (Some [(''CT'', [[1, 0], [0, 1]])])) None None
       [(''CT'', [Some True])] (Some 0) None ''HMM'') = Some (Inr (Risks [NaN, NaN]))"
proof -
  let ?table = "[[1, 0], [0, 1 :: real]]"
  let ?m = "one_lnl_model (3/10) (Some [(''CT'', ?table)])"
  have ms: "modalities_set (one_lnl_model (3/10) None) [(''CT'', [1, 1])] = Inr ?m"
    using one_lnl_model_modalities [of 1 1 "3/10" "''CT''"] by simp
  have t: "modality_tables ?m = Some [(''CT'', ?table)]" by (simp add: one_lnl_model_props)
  have ok: "shape_of 2 2 ?table" by (simp add: shape_of_def)
  have o: "obs_list_cache ?m = None \<or> obs_list_cache ?m = Some (obs_rows 1 (length (lnls ?m)))"
    by (simp add: one_lnl_model_props)
  have c: "B_cache ?m = None
      \<or> B_cache ?m = Some (B_matrix [(''CT'', ?table)] (length (lnls ?m)))"
    by (simp add: one_lnl_model_props)
  have d: "map_of [(''CT'', [Some True])] ''CT'' = Some (map Some [True])" by simp
  have ld: "length [True] = length (lnls ?m)" by (simp add: one_lnl_model_props)
  have tm: "Some (0::int) = Some 0 \<and> 0 \<le> (0::int)
      \<or> Some (0::int) = None \<and> (None :: vec option) = Some [] \<and> ([] :: vec) \<noteq> []" by simp
  from risk_complete [OF t ok one_lnl_model_props(8) o c d ld tm, of "\<lambda>X. Inl ValueError"]
  obtain pX m1 pZ m' where
    prior: "risk_prior (\<lambda>X. Inl ValueError) ?m (Some 0) None ''HMM'' = return_res (Some pX, m1)"
    and pZ: "vec_mat pX (B_matrix [(''CT'', ?table)] (length (lnls ?m))) = Inr pZ"
    and r: "risk (\<lambda>X. Inl ValueError) ?m None None [(''CT'', [Some True])] (Some 0) None ''HMM''
      = return_res (Risks (map (\<lambda>x. np_div
                   (B_matrix [(''CT'', ?table)] (length (lnls ?m)) ! x ! of_bits [True] * pX ! x)
                   (pZ ! of_bits [True]))
                 [0..<2 ^ length (lnls ?m)]), m')"
    by blast
  from one_lnl_model_prior [of "\<lambda>X. Inl ValueError" "3/10" "Some [(''CT'', ?table)]" 0 None]
  have pX: "pX = [1, 0]"
    using prior by (auto simp: return_res_def)
  have pZ': "pZ = [1, 0]"
    using pZ unfolding pX
    by (auto simp: one_lnl_model_props B_matrix_single vec_mat_def ncols_def upt_2)
  have "risk (\<lambda>X. Inl ValueError) ?m None None [(''CT'', [Some True])] (Some 0) None ''HMM''
      = return_res (Risks [NaN, NaN], m')"
    unfolding r pX pZ'
    by (simp add: one_lnl_model_props B_matrix_single upt_2 of_bits_def np_div_def)
  then show ?thesis using ms by (simp add: result_value_def return_res_def)
qed

lemma fold_err_inv:
  assumes "I s" and "\<And>x s. x \<in> set xs \<Longrightarrow> I s \<Longrightarrow> \<exists>s'. f x s = Inr s' \<and> I s'"
  shows "\<exists>s'. fold_err f xs s = Inr s' \<and> I s'"
  using assms
proof (induction xs arbitrary: s)
  case Nil
  then show ?case by simp
next
  case (Cons x xs)
  from Cons.prems(2) [of x s] Cons.prems(1) obtain s1 where s1: "f x s = Inr s1" "I s1" by auto
  from Cons.IH [OF s1(2)] Cons.prems(2) obtain s' where "fold_err f xs s1 = Inr s'" "I s'"
    by auto
  then show ?case by (simp add: s1)
qed

lemma sync_frame:
  assumes "cb_this cb = e" and "list_all known_name (cb_names cb)"
  shows "\<exists>h'. sync cb h = Inr h' \<and> length h' = length h \<and> (\<forall>c. c \<noteq> e \<longrightarrow> h' ! c = h ! c)"
  unfolding sync_def
proof (rule fold_err_inv [where I = "\<lambda>h'. length h' = length h \<and> (\<forall>c. c \<noteq> e \<longrightarrow> h' ! c = h ! c)"])
  show "length h = length h \<and> (\<forall>c. c \<noteq> e \<longrightarrow> h ! c = h ! c)" by simp
next
  fix name s
  assume n: "name \<in> set (cb_names cb)"
    and I: "length s = length h \<and> (\<forall>c. c \<noteq> e \<longrightarrow> s ! c = h ! c)"
  from n assms(2) have "known_name name" by (simp add: list_all_iff)
  then obtain v where v: "getattr_edge (s ! cb_other cb) name = Inr v"
    by (auto simp: known_name_def getattr_edge_def)
  show "\<exists>s'. bind_err (getattr_edge (s ! cb_other cb) name)
               (\<lambda>v. Inr (s[cb_this cb := setattr_private (s ! cb_this cb) name v])) = Inr s'
             \<and> length s' = length h \<and> (\<forall>c. c \<noteq> e \<longrightarrow> s' ! c = h ! c)"
    using I assms(1) by (simp add: v)
qed

lemma callbacks_frame:
  assumes "list_all (\<lambda>cb. cb_this cb = e \<and> list_all known_name (cb_names cb)) cbs"
  shows "\<exists>h'. fold_err sync cbs h = Inr h' \<and> length h' = length h
           \<and> (\<forall>c. c \<noteq> e \<longrightarrow> h' ! c = h ! c)"
proof (rule fold_err_inv [where I = "\<lambda>h'. length h' = length h \<and> (\<forall>c. c \<noteq> e \<longrightarrow> h' ! c = h ! c)"])
  show "length h = length h \<and> (\<forall>c. c \<noteq> e \<longrightarrow> h ! c = h ! c)" by simp
next
  fix cb s
  assume cb: "cb \<in> set cbs"
    and I: "length s = length h \<and> (\<forall>c. c \<noteq> e \<longrightarrow> s ! c = h ! c)"
  from cb assms have "cb_this cb = e" "list_all known_name (cb_names cb)"
    by (simp_all add: list_all_iff)
  from sync_frame [OF this, of s] I
  show "\<exists>s'. sync cb s = Inr s' \<and> length s' = length h \<and> (\<forall>c. c \<noteq> e \<longrightarrow> s' ! c = h ! c)"
    by auto
qed

lemma writes_self_iff:
  "writes_self h \<longleftrightarrow>
     (\<forall>e < length h. \<forall>cb \<in> set (trigger_callbacks (h ! e)).
        cb_this cb = e \<and> list_all known_name (cb_names cb))"
  by (auto simp: writes_self_def list_all_iff)

lemma set_spread_prob_frame:
  assumes "writes_self h" and "e < length h"
  shows "\<exists>h'. set_spread_prob e p h = Inr h' \<and> length h' = length h
           \<and> (\<forall>c. c \<noteq> e \<longrightarrow> h' ! c = h ! c)"
proof -
  let ?h1 = "h[e := (h ! e)\<lparr>private_spread_prob := p\<rparr>]"
  have cbs: "trigger_callbacks (?h1 ! e) = trigger_callbacks (h ! e)"
    using assms(2) by simp
  have "list_all (\<lambda>cb. cb_this cb = e \<and> list_all known_name (cb_names cb))
          (trigger_callbacks (h ! e))"
    using assms by (simp add: writes_self_iff list_all_iff)
  from callbacks_frame [OF this, of ?h1] obtain h' where
    "fold_err sync (trigger_callbacks (h ! e)) ?h1 = Inr h'" "length h' = length h"
    "\<forall>c. c \<noteq> e \<longrightarrow> h' ! c = ?h1 ! c" by auto
  then show ?thesis
    by (simp add: set_spread_prob_def trigger_def cbs)
qed

lemma length_append_callback [simp]: "length (append_callback x cb h) = length h"
  by (simp add: append_callback_def)

lemma append_callback_values:
  "map private_spread_prob (append_callback x cb h) = map private_spread_prob h"
proof (intro nth_equalityI)
  show "length (map private_spread_prob (append_callback x cb h))
      = length (map private_spread_prob h)" by simp
next
  fix i assume "i < length (map private_spread_prob (append_callback x cb h))"
  then have i: "i < length h" by simp
  show "map private_spread_prob (append_callback x cb h) ! i = map private_spread_prob h ! i"
    using i by (cases "i = x") (simp_all add: append_callback_def)
qed

lemma append_callback_writes_self:
  assumes "writes_self h" and "cb_this cb = x" and "list_all known_name (cb_names cb)"
  shows "writes_self (append_callback x cb h)"
  unfolding writes_self_iff
proof (intro allI impI ballI)
  fix e cb'
  assume e: "e < length (append_callback x cb h)"
    and m: "cb' \<in> set (trigger_callbacks (append_callback x cb h ! e))"
  from e have e': "e < length h" by (simp add: append_callback_def)
  show "cb_this cb' = e \<and> list_all known_name (cb_names cb')"
  proof (cases "e = x")
    case True
    with m e' have "cb' \<in> set (trigger_callbacks (h ! e)) \<or> cb' = cb"
      by (auto simp: append_callback_def)
    then show ?thesis using assms e' True by (auto simp: writes_self_iff)
  next
    case False
    with m have "cb' \<in> set (trigger_callbacks (h ! e))" by (simp add: append_callback_def)
    then show ?thesis using assms(1) e' by (auto simp: writes_self_iff)
  qed
qed

lemma py_index_total:
  assumes "x \<in> set xs"
  shows "\<exists>i. py_index xs x = Inr i"
proof -
  from assms obtain i where "i < length xs" "xs ! i = x" by (auto simp: in_set_conv_nth)
  then have "List.find (\<lambda>i. xs ! i = x) [0..<length xs] \<noteq> None"
    by (auto simp: find_None_iff)
  then show ?thesis by (auto simp: py_index_def)
qed

lemma init_edge_sync_props:
  assumes "writes_self h" and "list_all known_name property_names"
  shows "\<exists>h'. init_edge_sync key property_names this_edge_list other_edge_list h = Inr h'
           \<and> writes_self h' \<and> length h' = length h
           \<and> map private_spread_prob h' = map private_spread_prob h"
  unfolding init_edge_sync_def Let_def
proof (rule fold_err_inv [where I = "\<lambda>h'. writes_self h' \<and> length h' = length h
           \<and> map private_spread_prob h' = map private_spread_prob h"])
  show "writes_self h \<and> length h = length h
      \<and> map private_spread_prob h = map private_spread_prob h" using assms(1) by simp
next
  fix k s
  assume k: "k \<in> set (filter (\<lambda>k. k \<in> set (map key other_edge_list))
                      (remdups (map key this_edge_list)))"
    and I: "writes_self s \<and> length s = length h
           \<and> map private_spread_prob s = map private_spread_prob h"
  from k have "k \<in> set (map key this_edge_list)" "k \<in> set (map key other_edge_list)" by auto
  from py_index_total [OF this(1)] py_index_total [OF this(2)] obtain a b where
    a: "py_index (map key this_edge_list) k = Inr a"
    and b: "py_index (map key other_edge_list) k = Inr b" by blast
  let ?t = "this_edge_list ! a" and ?o = "other_edge_list ! b"
  let ?s1 = "append_callback ?t (create_property_sync_callback property_names ?t ?o) s"
  let ?s2 = "append_callback ?o (create_property_sync_callback property_names ?o ?t) ?s1"
  have ws: "writes_self s" using I by simp
  have w1: "writes_self ?s1"
    by (rule append_callback_writes_self [OF ws])
      (simp_all add: create_property_sync_callback_def assms(2))
  have w2: "writes_self ?s2"
    by (rule append_callback_writes_self [OF w1])
      (simp_all add: create_property_sync_callback_def assms(2))
  have "length ?s2 = length h \<and> map private_spread_prob ?s2 = map private_spread_prob h"
    using I by (simp add: append_callback_values)
  with w2 show "\<exists>s'. bind_err (py_index (map key this_edge_list) k) (\<lambda>a.
             bind_err (py_index (map key other_edge_list) k) (\<lambda>b.
               Inr (append_callback (other_edge_list ! b)
                         (create_property_sync_callback property_names (other_edge_list ! b)
                            (this_edge_list ! a))
                         (append_callback (this_edge_list ! a)
                            (create_property_sync_callback property_names (this_edge_list ! a)
                               (other_edge_list ! b))
                            s)))) = Inr s'
          \<and> writes_self s' \<and> length s' = length h
          \<and> map private_spread_prob s' = map private_spread_prob h"
    by (simp add: a b)
qed

lemma init_bilateral_props:
  "\<exists>h. init_bilateral key p0 mm0 ts ls is_trinary tumor_spread_symmetric lnl_spread_symmetric
          = Inr h
       \<and> writes_self h \<and> length h = 2 * length ts + 2 * length ls
       \<and> map private_spread_prob h = replicate (2 * length ts + 2 * length ls) p0"
proof -
  let ?h0 = "map (new_edge p0 mm0) ts @ map (new_edge p0 mm0) ls
               @ map (new_edge p0 mm0) ts @ map (new_edge p0 mm0) ls"
  let ?names = "[''spread_prob''] @ (if is_trinary then [''micro_mod''] else [])"
  have kn: "list_all known_name ?names" by (simp add: known_name_def)
  have w0: "writes_self ?h0"
    by (auto simp: writes_self_def list_all_iff nth_append new_edge_def)
  have l0: "length ?h0 = 2 * length ts + 2 * length ls" by simp
  have v0: "map private_spread_prob ?h0 = replicate (2 * length ts + 2 * length ls) p0"
    by (simp add: new_edge_def comp_def map_replicate_const replicate_add [symmetric])
  have "\<exists>h1. (if tumor_spread_symmetric
            then init_edge_sync key ?names (ipsi_tumor_edges ts ls) (contra_tumor_edges ts ls) ?h0
            else Inr ?h0) = Inr h1 \<and> writes_self h1 \<and> length h1 = length ?h0
           \<and> map private_spread_prob h1 = map private_spread_prob ?h0"
    using init_edge_sync_props [OF w0 kn, of key "ipsi_tumor_edges ts ls"
        "contra_tumor_edges ts ls"] w0 by auto
  then obtain h1 where h1: "(if tumor_spread_symmetric
            then init_edge_sync key ?names (ipsi_tumor_edges ts ls) (contra_tumor_edges ts ls) ?h0
            else Inr ?h0) = Inr h1" and w1: "writes_self h1" and l1: "length h1 = length ?h0"
    and v1: "map private_spread_prob h1 = map private_spread_prob ?h0" by blast
  have "\<exists>h2. (if lnl_spread_symmetric
            then init_edge_sync key ?names (ipsi_lnl_edges ts ls) (contra_lnl_edges ts ls) h1
            else Inr h1) = Inr h2 \<and> writes_self h2 \<and> length h2 = length h1
           \<and> map private_spread_prob h2 = map private_spread_prob h1"
    using init_edge_sync_props [OF w1 kn, of key "ipsi_lnl_edges ts ls"
        "contra_lnl_edges ts ls"] w1 by auto
  then obtain h2 where h2: "(if lnl_spread_symmetric
            then init_edge_sync key ?names (ipsi_lnl_edges ts ls) (contra_lnl_edges ts ls) h1
            else Inr h1) = Inr h2" and w2: "writes_self h2" and l2: "length h2 = length h1"
    and v2: "map private_spread_prob h2 = map private_spread_prob h1" by blast
  have "init_bilateral key p0 mm0 ts ls is_trinary tumor_spread_symmetric lnl_spread_symmetric
      = Inr h2"
    unfolding init_bilateral_def Let_def h1 by (simp add: h2)
  moreover have "length h2 = 2 * length ts + 2 * length ls" using l2 l1 l0 by simp
  moreover have "map private_spread_prob h2 = replicate (2 * length ts + 2 * length ls) p0"
    using v2 v1 v0 by simp
  ultimately show ?thesis using w2 by blast
qed

lemma tumor_edge_positions:
  assumes "e < length ts"
  shows "ipsi_tumor_edges ts ls ! e = e"
    and "contra_tumor_edges ts ls ! e = length ts + length ls + e"
  using assms by (simp_all add: ipsi_tumor_edges_def contra_tumor_edges_def)

text \<open>
  Claim C5 does not hold of the code. In a bilateral model built with
  \<open>tumor_spread_symmetric = True\<close>, writing the spread probability \<open>p\<close> to the tumor
  edge \<open>e\<close> of the ipsilateral side returns, and the matching tumor edge of the
  contralateral side then still reads the value \<open>p0\<close> it was created with, not \<open>p\<close>:
  the write is not mirrored. This holds for every graph, whichever equality the edges
  have and whatever the other two flags are, because every callback that
  \<open>init_edge_sync\<close> registers on an edge writes into that same edge.
\<close>

theorem tumor_edge_write_is_not_mirrored:
  assumes "e < length ts"
  shows "\<exists>h h'. init_bilateral key p0 mm0 ts ls is_trinary True lnl_spread_symmetric = Inr h
           \<and> set_spread_prob (ipsi_tumor_edges ts ls ! e) p h = Inr h'
           \<and> getattr_edge (h' ! (contra_tumor_edges ts ls ! e)) ''spread_prob'' = Inr p0"
proof -
  let ?n = "2 * length ts + 2 * length ls"
  let ?c = "length ts + length ls + e"
  from init_bilateral_props [of key p0 mm0 ts ls is_trinary True lnl_spread_symmetric]
  obtain h where h: "init_bilateral key p0 mm0 ts ls is_trinary True lnl_spread_symmetric = Inr h"
    and w: "writes_self h" and l: "length h = ?n"
    and v: "map private_spread_prob h = replicate ?n p0" by blast
  have e: "e < length h" using assms l by simp
  from set_spread_prob_frame [OF w e, of p] obtain h' where
    s: "set_spread_prob e p h = Inr h'" and f: "\<forall>c. c \<noteq> e \<longrightarrow> h' ! c = h ! c" by blast
  have c: "?c < length h" using assms l by simp
  have "private_spread_prob (h ! ?c) = map private_spread_prob h ! ?c" using c by simp
  also have "\<dots> = p0" unfolding v using c l by simp
  finally have "private_spread_prob (h ! ?c) = p0" .
  moreover have "?c \<noteq> e" using assms by arith
  with f have "h' ! ?c = h ! ?c" by blast
  ultimately have "getattr_edge (h' ! ?c) ''spread_prob'' = Inr p0"
    by (simp add: getattr_edge_def)
  with h s show ?thesis
    unfolding tumor_edge_positions [OF assms] by blast
qed

theorem tumor_edge_write_is_not_mirrored_witness:
  "\<exists>h h'. init_bilateral (\<lambda>a. [''T_to_II'', ''T_to_II''] ! a) 0 1 [''T_to_II''] [] False True True
             = Inr h
       \<and> set_spread_prob 0 (2/5) h = Inr h'
       \<and> getattr_edge (h' ! 1) ''spread_prob'' = Inr 0"
proof -
  have "(0::nat) < length [''T_to_II'']" by simp
  from tumor_edge_write_is_not_mirrored [OF this,
      of "\<lambda>a. [''T_to_II'', ''T_to_II''] ! a" 0 1 "[]" False True "2/5"]
  show ?thesis by (simp add: ipsi_tumor_edges_def contra_tumor_edges_def)
qed

text \<open>
  Claim C5 on the smallest graph, one tumor joined to one LNL, both edges created with
  the spread probability 0, the write being the one of the theorem above. When the edges of the two sides compare
  equal by name, each edge gets the callback that copies from the other side into
  itself: the write of 0.4 to the ipsilateral edge is overwritten with the
  contralateral 0 before the setter returns, and both sides read 0. When edges are
  equal only to themselves, the intersection is empty and no callback is registered:
  the ipsilateral edge reads 0.4 and the contralateral edge 0.
\<close>

lemma tumor_edge_write_by_name:
  "bind_err (bind_err
       (init_bilateral (\<lambda>a. [''T_to_II'', ''T_to_II''] ! a) 0 1 [''T_to_II''] [] False True True)
       (set_spread_prob 0 (2/5)))
     (\<lambda>h. Inr (map private_spread_prob h)) = Inr [0, 0]"
  by (simp add: init_bilateral_def init_edge_sync_def ipsi_tumor_edges_def
      contra_tumor_edges_def ipsi_lnl_edges_def contra_lnl_edges_def py_index_def
      append_callback_def create_property_sync_callback_def new_edge_def set_spread_prob_def
      trigger_def sync_def getattr_edge_def setattr_private_def upt_rec Let_def)

lemma tumor_edge_write_by_identity:
  "bind_err (bind_err
       (init_bilateral (\<lambda>a. a) 0 1 [''T_to_II''] [] False True True)
       (set_spread_prob 0 (2/5)))
     (\<lambda>h. Inr (map private_spread_prob h)) = Inr [2/5, 0]"
  by (simp add: init_bilateral_def init_edge_sync_def ipsi_tumor_edges_def
      contra_tumor_edges_def ipsi_lnl_edges_def contra_lnl_edges_def py_index_def
      append_callback_def create_property_sync_callback_def new_edge_def set_spread_prob_def
      trigger_def sync_def getattr_edge_def setattr_private_def upt_rec Let_def)

text \<open>
  The older interface has no write to one edge that reaches the other side: with
  \<open>base_symmetric\<close>, \<open>set_theta\<close> itself assigns every value to the edge of either
  side. Outside the mode "HMM", and for lists of equal lengths and an array that is long
  enough, the tumor edges of the two sides then carry the same values.
\<close>

lemma set_symmetric_prefix:
  assumes "n \<le> length ipsi" and "length contra = length ipsi" and "cursor + n \<le> length theta"
  shows "fold_err (\<lambda>i (ipsi', contra', cursor').
         if length theta \<le> cursor' then Inl IndexError
         else if length contra' \<le> i then Inl IndexError
         else Inr (ipsi'[i := theta ! cursor'], contra'[i := theta ! cursor'], cursor' + 1))
       [0..<n] (ipsi, contra, cursor)
     = Inr (take n (drop cursor theta) @ drop n ipsi,
            take n (drop cursor theta) @ drop n contra, cursor + n)"
  using assms
proof (induction n)
  case 0
  then show ?case by simp
next
  case (Suc n)
  have t: "take (Suc n) (drop cursor theta) = take n (drop cursor theta) @ [theta ! (cursor + n)]"
    using Suc.prems by (simp add: take_Suc_conv_app_nth)
  have u: "(take n (drop cursor theta) @ drop n xs)[n := theta ! (cursor + n)]
      = take (Suc n) (drop cursor theta) @ drop (Suc n) xs" if "length xs = length ipsi" for xs
  proof -
    have l: "length (take n (drop cursor theta)) = n" using Suc.prems by simp
    have "drop n xs = xs ! n # drop (Suc n) xs"
      using Suc.prems that by (simp add: Cons_nth_drop_Suc)
    moreover have "min (length theta - cursor) n = n" using Suc.prems by simp
    ultimately show ?thesis unfolding t by (simp add: list_update_append)
  qed
  show ?case
    using Suc.prems Suc.IH u [of ipsi] u [of contra]
    by (simp add: fold_err_append)
qed

lemma set_symmetric_total:
  assumes "length contra = length ipsi" and "cursor + length ipsi \<le> length theta"
  shows "set_symmetric theta (ipsi, contra, cursor)
     = Inr (take (length ipsi) (drop cursor theta), take (length ipsi) (drop cursor theta),
            cursor + length ipsi)"
  using set_symmetric_prefix [OF order_refl assms] assms(1) by (simp add: set_symmetric_def)

lemma set_theta_base_symmetric:
  assumes "length (contra_base s) = length (ipsi_base s)"
    and "length (contra_trans s) = length (ipsi_trans s)"
    and "length (ipsi_base s) + length (ipsi_trans s) \<le> length theta"
    and "mode \<noteq> ''HMM''"
  shows "\<exists>s'. set_theta gen_A_both s theta True True mode = Inr s'
           \<and> ipsi_base s' = take (length (ipsi_base s)) theta
           \<and> contra_base s' = ipsi_base s'"
proof -
  have b: "set_symmetric theta (ipsi_base s, contra_base s, 0)
      = Inr (take (length (ipsi_base s)) theta, take (length (ipsi_base s)) theta,
             length (ipsi_base s))"
    using set_symmetric_total [OF assms(1), of 0 theta] assms(3) by simp
  have t: "set_symmetric theta (ipsi_trans s, contra_trans s, length (ipsi_base s))
      = Inr (take (length (ipsi_trans s)) (drop (length (ipsi_base s)) theta),
             take (length (ipsi_trans s)) (drop (length (ipsi_base s)) theta),
             length (ipsi_base s) + length (ipsi_trans s))"
    using set_symmetric_total [OF assms(2), of "length (ipsi_base s)" theta] assms(3) by simp
  show ?thesis
    using assms(4) by (simp add: set_theta_def set_block_def b t)
qed

section \<open>The likelihood after a write of the spread parameters\<close>

lemma vec_mat_vm: "length v = length M \<Longrightarrow> vec_mat v M = Inr (vm v M)"
  by (simp add: vec_mat_def vm_def)

lemma square_ncols: "square_of n X \<Longrightarrow> 0 < n \<Longrightarrow> ncols X = n"
  by (cases X) (auto simp: square_of_def ncols_def)

lemma length_vm_square: "square_of n X \<Longrightarrow> 0 < n \<Longrightarrow> length (vm v X) = n"
  by (simp add: vm_def square_ncols)

lemma mat_mul_vm:
  assumes "square_of n Y" and "square_of n X" and "0 < n"
  shows "mat_mul Y X = Inr (map (\<lambda>r. vm r X) Y)"
    and "square_of n (map (\<lambda>r. vm r X) Y)"
proof -
  have "map_err (\<lambda>r. vec_mat r X) Y = Inr (map (\<lambda>r. vm r X) Y)"
  proof (rule map_err_pure)
    fix r assume "r \<in> set Y"
    then have "length r = length X" using assms by (auto simp: square_of_def list_all_iff)
    then show "vec_mat r X = Inr (vm r X)" by (rule vec_mat_vm)
  qed
  then show "mat_mul Y X = Inr (map (\<lambda>r. vm r X) Y)" by (simp add: mat_mul_def)
  show "square_of n (map (\<lambda>r. vm r X) Y)"
    using assms by (simp add: square_of_def list_all_iff length_vm_square)
qed

lemma mat_pow_nat_mpow:
  assumes "square_of n X" and "0 < n"
  shows "mat_pow_nat X t = Inr (mpow X t) \<and> square_of n (mpow X t)"
proof (induction t)
  case 0
  then show ?case using assms(1) square_eye [of n] by (simp add: square_of_def)
next
  case (Suc t)
  then show ?case using mat_mul_vm [OF _ assms] by simp
qed

lemma state_at_value:
  assumes "square_of n A" and "0 < n"
  shows "bind_err (mat_pow_nat A t) (vec_mat ((replicate n 0)[0 := 1])) = Inr (state_at A t)"
    and "length (state_at A t) = n"
proof -
  from mat_pow_nat_mpow [OF assms, of t] have p: "mat_pow_nat A t = Inr (mpow A t)"
    and sq: "square_of n (mpow A t)" by simp_all
  have l: "length A = n" "length (mpow A t) = n" using assms(1) sq by (simp_all add: square_of_def)
  show "bind_err (mat_pow_nat A t) (vec_mat ((replicate n 0)[0 := 1])) = Inr (state_at A t)"
    using l by (simp add: p vec_mat_vm state_at_def start_state_def)
  show "length (state_at A t) = n"
    unfolding state_at_def by (rule length_vm_square [OF sq assms(2)])
qed

lemma evolve_steps_value:
  assumes "square_of n A" and "0 < n"
  shows "length v = n \<Longrightarrow> evolve_steps k v A = Inr (steps k v A)"
proof (induction k arbitrary: v)
  case 0
  then show ?case by simp
next
  case (Suc k)
  have l: "length v = length A" using Suc.prems assms(1) by (simp add: square_of_def)
  have "length (vm v A) = n" by (rule length_vm_square [OF assms])
  from Suc.IH [OF this] show ?case by (simp add: vec_mat_vm [OF l])
qed

lemma steps_shape:
  assumes "square_of n A" and "0 < n"
  shows "length (steps k v A) = Suc k"
  by (induction k arbitrary: v) simp_all

lemma evolve_cached_value:
  assumes c: "A_cache m = Some A" and sq: "square_of (2 ^ length (lnls m)) A"
  shows "0 \<le> t \<Longrightarrow> evolve np_inv m t None = return_res (Vector (state_at A (nat t)), m)"
    and "0 \<le> k \<Longrightarrow> evolve np_inv m 0 (Some k)
           = return_res (Matrix (steps (nat k) (state_at A 0) A), m)"
proof -
  let ?n = "2 ^ length (lnls m) :: nat"
  have a: "A_get m = return_res (A, m)" using c by (simp add: A_get_def)
  have sqA: "list_all (\<lambda>r. length r = length A) A" using sq by (simp add: square_of_def)
  have n: "0 < ?n" by simp
  show "evolve np_inv m t None = return_res (Vector (state_at A (nat t)), m)" if "0 \<le> t"
    unfolding evolve_def
    using that state_at_value(1) [OF sq n, of "nat t"]
    by (simp add: state_list_states a mat_pow_def sqA)
  show "evolve np_inv m 0 (Some k) = return_res (Matrix (steps (nat k) (state_at A 0) A), m)"
    if "0 \<le> k"
    unfolding evolve_def
    using that state_at_value(1) [OF sq n, of 0]
      evolve_steps_value [OF sq n state_at_value(2) [OF sq n, of 0], of "nat k"]
    by (simp add: state_list_states a mat_pow_def sqA Let_def)
qed

lemma evolve_fresh_value:
  assumes c: "A_cache m = None"
  shows "\<exists>m'. same_base m m' \<and> edges m' = edges m
           \<and> (0 \<le> t \<longrightarrow> evolve np_inv m t None
                 = return_res (Vector (state_at (A_matrix m) (nat t)),
                     m'\<lparr>A_cache := Some (A_matrix m)\<rparr>))
           \<and> (0 \<le> k \<longrightarrow> evolve np_inv m 0 (Some k)
                 = return_res (Matrix (steps (nat k) (state_at (A_matrix m) 0) (A_matrix m)),
                     m'\<lparr>A_cache := Some (A_matrix m)\<rparr>))"
proof -
  let ?n = "2 ^ length (lnls m) :: nat"
  let ?A = "A_matrix m"
  from A_get_fresh [OF c] obtain m' where
    a: "A_get m = return_res (?A, m'\<lparr>A_cache := Some ?A\<rparr>)"
    and sb: "same_base m m'" and ed: "edges m' = edges m" by blast
  have sq: "square_of ?n ?A" by (rule square_A_matrix)
  have sqA: "list_all (\<lambda>r. length r = length ?A) ?A" using sq by (simp add: square_of_def)
  have n: "0 < ?n" by simp
  have 1: "evolve np_inv m t None
      = return_res (Vector (state_at ?A (nat t)), m'\<lparr>A_cache := Some ?A\<rparr>)" if "0 \<le> t"
    unfolding evolve_def
    using that state_at_value(1) [OF sq n, of "nat t"]
    by (simp add: state_list_states a mat_pow_def sqA)
  have 2: "evolve np_inv m 0 (Some k)
      = return_res (Matrix (steps (nat k) (state_at ?A 0) ?A), m'\<lparr>A_cache := Some ?A\<rparr>)"
    if "0 \<le> k"
    unfolding evolve_def
    using that state_at_value(1) [OF sq n, of 0]
      evolve_steps_value [OF sq n state_at_value(2) [OF sq n, of 0], of "nat k"]
    by (simp add: state_list_states a mat_pow_def sqA Let_def)
  from sb ed 1 2 show ?thesis by blast
qed

lemma with_state_cache:
  "with_state (m\<lparr>A_cache := c\<rparr>) s = (with_state m s)\<lparr>A_cache := c\<rparr>"
  by (simp add: with_state_def lnls_def)

lemma same_base_cache:
  "same_base m m' \<Longrightarrow> same_base (m\<lparr>A_cache := c\<rparr>) (m'\<lparr>A_cache := c\<rparr>)"
  by (simp add: same_base_def with_state_cache) (simp add: lnls_def)

lemma diag_fold_cached:
  assumes c: "A_cache m = Some A" and sq: "square_of (2 ^ length (lnls m)) A"
  shows "\<forall>stage \<in> set ts. \<exists>dt. map_of dts stage = Some dt \<and> 0 \<le> np_around dt
            \<and> np_around dt \<le> mt \<Longrightarrow>
         fold_res (diag_time_step np_inv dts (Some mt)) ts (Some acc, m)
           = return_res (Some (fold (\<lambda>stage d. case map_of dts stage of
                        None \<Rightarrow> d
                      | Some dt \<Rightarrow> dict_put d stage (state_at A (nat (np_around dt)))) ts acc), m)"
proof (induction ts arbitrary: acc)
  case Nil
  then show ?case by simp
next
  case (Cons s ts)
  from Cons.prems obtain dt where dt: "map_of dts s = Some dt" "0 \<le> np_around dt"
    "np_around dt \<le> mt" by auto
  have step: "diag_time_step np_inv dts (Some mt) s (Some acc, m)
      = return_res (Some (dict_put acc s (state_at A (nat (np_around dt)))), m)"
    using dt evolve_cached_value(1) [OF c sq dt(2), of np_inv]
    by (simp add: diag_time_step_def)
  show ?case using Cons.IH [of "dict_put acc s (state_at A (nat (np_around dt)))"] Cons.prems
    by (simp add: step dt)
qed

lemma diag_fold_fresh:
  assumes c: "A_cache m = None"
    and ok: "\<forall>stage \<in> set ts. \<exists>dt. map_of dts stage = Some dt \<and> 0 \<le> np_around dt
            \<and> np_around dt \<le> mt"
  shows "\<exists>m2. fold_res (diag_time_step np_inv dts (Some mt)) ts (Some [], m)
              = return_res (Some (diag_state_probs (A_matrix m) dts ts), m2)
           \<and> A_cache m2 = (if ts = [] then None else Some (A_matrix m))
           \<and> same_base (m\<lparr>A_cache := A_cache m2\<rparr>) m2"
proof (cases ts)
  case Nil
  have e: "m\<lparr>A_cache := None\<rparr> = m" using c by simp
  have sb0: "same_base (m\<lparr>A_cache := None\<rparr>) m" unfolding e by (rule same_base_refl)
  show ?thesis using Nil c sb0
    by (intro exI [of _ m]) (simp add: diag_state_probs_def)
next
  case (Cons s ts')
  let ?A = "A_matrix m"
  from ok Cons obtain dt where dt: "map_of dts s = Some dt" "0 \<le> np_around dt"
    "np_around dt \<le> mt" by auto
  from evolve_fresh_value [OF c, of "np_around dt" np_inv] dt(2) obtain m' where
    sb: "same_base m m'"
    and e: "evolve np_inv m (np_around dt) None
        = return_res (Vector (state_at ?A (nat (np_around dt))), m'\<lparr>A_cache := Some ?A\<rparr>)"
    by blast
  let ?m2 = "m'\<lparr>A_cache := Some ?A\<rparr>"
  have step: "diag_time_step np_inv dts (Some mt) s (Some [], m)
      = return_res (Some (dict_put [] s (state_at ?A (nat (np_around dt)))), ?m2)"
    using dt e by (simp add: diag_time_step_def)
  have l: "lnls ?m2 = lnls m" using same_base_fields(8) [OF sb] by (simp add: lnls_def)
  have c2: "A_cache ?m2 = Some ?A" by simp
  have sq: "square_of (2 ^ length (lnls ?m2)) ?A" unfolding l by (rule square_A_matrix)
  have ok': "\<forall>stage \<in> set ts'. \<exists>dt. map_of dts stage = Some dt \<and> 0 \<le> np_around dt
            \<and> np_around dt \<le> mt" using ok Cons by simp
  from diag_fold_cached [OF c2 sq ok', of np_inv "dict_put [] s (state_at ?A (nat (np_around dt)))"]
  have "fold_res (diag_time_step np_inv dts (Some mt)) ts (Some [], m)
      = return_res (Some (diag_state_probs ?A dts ts), ?m2)"
    by (simp add: Cons step diag_state_probs_def dt)
  moreover have "same_base (m\<lparr>A_cache := A_cache ?m2\<rparr>) ?m2"
    using same_base_cache [OF sb] by simp
  ultimately show ?thesis using Cons by (intro exI [of _ ?m2]) simp
qed

lemma dist_fold_cached:
  assumes c: "A_cache m = Some A" and sq: "square_of (2 ^ length (lnls m)) A"
  shows "\<forall>stage \<in> set ts. \<exists>td. map_of tds stage = Some td \<and> length td = Suc k \<Longrightarrow>
         fold_res (time_dist_step np_inv tds (int k)) ts (acc, m)
           = return_res (fold (\<lambda>stage d. case map_of tds stage of
                        None \<Rightarrow> d
                      | Some td \<Rightarrow> dict_put d stage (vm td (steps k (state_at A 0) A))) ts acc, m)"
proof (induction ts arbitrary: acc)
  case Nil
  then show ?case by simp
next
  case (Cons s ts)
  from Cons.prems obtain td where td: "map_of tds s = Some td" "length td = Suc k" by auto
  have n: "0 < (2 ^ length (lnls m) :: nat)" by simp
  have ls: "length (steps k (state_at A 0) A) = Suc k" by (rule steps_shape [OF sq n])
  have step: "time_dist_step np_inv tds (int k) s (acc, m)
      = return_res (dict_put acc s (vm td (steps k (state_at A 0) A)), m)"
    using td evolve_cached_value(2) [OF c sq, of "int k" np_inv] ls
    by (simp add: time_dist_step_def vec_mat_vm)
  show ?case using Cons.IH [of "dict_put acc s (vm td (steps k (state_at A 0) A))"] Cons.prems
    by (simp add: step td)
qed

lemma dist_fold_fresh:
  assumes c: "A_cache m = None"
    and ok: "\<forall>stage \<in> set ts. \<exists>td. map_of tds stage = Some td \<and> length td = Suc k"
  shows "\<exists>m2. fold_res (time_dist_step np_inv tds (int k)) ts ([], m)
              = return_res (dist_state_probs (A_matrix m) tds k ts, m2)
           \<and> A_cache m2 = (if ts = [] then None else Some (A_matrix m))
           \<and> same_base (m\<lparr>A_cache := A_cache m2\<rparr>) m2"
proof (cases ts)
  case Nil
  have e: "m\<lparr>A_cache := None\<rparr> = m" using c by simp
  have sb0: "same_base (m\<lparr>A_cache := None\<rparr>) m" unfolding e by (rule same_base_refl)
  show ?thesis using Nil c sb0
    by (intro exI [of _ m]) (simp add: dist_state_probs_def)
next
  case (Cons s ts')
  let ?A = "A_matrix m"
  from ok Cons obtain td where td: "map_of tds s = Some td" "length td = Suc k" by auto
  from evolve_fresh_value [OF c, of 0 np_inv "int k"] obtain m' where
    sb: "same_base m m'"
    and e: "evolve np_inv m 0 (Some (int k))
        = return_res (Matrix (steps k (state_at ?A 0) ?A), m'\<lparr>A_cache := Some ?A\<rparr>)"
    by auto
  let ?m2 = "m'\<lparr>A_cache := Some ?A\<rparr>"
  have n: "0 < (2 ^ length (lnls m) :: nat)" by simp
  have ls: "length (steps k (state_at ?A 0) ?A) = Suc k"
    by (rule steps_shape [OF square_A_matrix n])
  have step: "time_dist_step np_inv tds (int k) s ([], m)
      = return_res (dict_put [] s (vm td (steps k (state_at ?A 0) ?A)), ?m2)"
    using td e ls by (simp add: time_dist_step_def vec_mat_vm)
  have l: "lnls ?m2 = lnls m" using same_base_fields(8) [OF sb] by (simp add: lnls_def)
  have c2: "A_cache ?m2 = Some ?A" by simp
  have sq: "square_of (2 ^ length (lnls ?m2)) ?A" unfolding l by (rule square_A_matrix)
  have ok': "\<forall>stage \<in> set ts'. \<exists>td. map_of tds stage = Some td \<and> length td = Suc k"
    using ok Cons by simp
  from dist_fold_cached [OF c2 sq ok', of np_inv "dict_put [] s (vm td (steps k (state_at ?A 0) ?A))"]
  have "fold_res (time_dist_step np_inv tds (int k)) ts ([], m)
      = return_res (dist_state_probs ?A tds k ts, ?m2)"
    by (simp add: Cons step dist_state_probs_def td)
  moreover have "same_base (m\<lparr>A_cache := A_cache ?m2\<rparr>) ?m2"
    using same_base_cache [OF sb] by simp
  ultimately show ?thesis using Cons by (intro exI [of _ ?m2]) simp
qed

lemma spread_probs_are_valid_True:
  "spread_probs_are_valid m new = Inr True \<longleftrightarrow>
     length new = length (spread_probs m) \<and> (\<forall>x \<in> set new. 0 \<le> x \<and> x \<le> 1)"
  by (simp add: spread_probs_are_valid_def list_ex_iff) (force simp: not_less)

lemma log_likelihood_valid:
  assumes v: "spread_probs_are_valid m new = Inr True"
    and s: "spread_probs_set m new = (None, m')"
  shows "log_likelihood np_inv (m\<lparr>A_cache := c\<rparr>) new t_stages diag_times max_t time_dists mode
       = (if mode = ''HMM'' then
            (case t_stages of
               None \<Rightarrow> raise_res AttributeError
             | Some ts \<Rightarrow>
                 bind_res (hmm_state_probs np_inv m' ts diag_times max_t time_dists)
                   (\<lambda>(acc, m2). case acc of
                        None \<Rightarrow> return_res (NegInf, m2)
                      | Some state_probs \<Rightarrow> fold_res (llh_step state_probs) ts (Fin 0, m2)))
          else if mode = ''BN'' then bn_log_likelihood m'
          else raise_res UnboundLocalError)"
  using v spread_probs_set_props(4) [OF s, of c]
  by (simp add: log_likelihood_def spread_probs_are_valid_cache)

lemma log_likelihood_diag_times:
  assumes v: "spread_probs_are_valid m new = Inr True"
    and s: "spread_probs_set m new = (None, m')"
    and l: "length dts = length ts"
    and ok: "\<forall>stage \<in> set ts. \<exists>dt. map_of dts stage = Some dt \<and> 0 \<le> np_around dt
            \<and> np_around dt \<le> mt"
  shows "\<exists>m2. log_likelihood np_inv (m\<lparr>A_cache := c\<rparr>) new (Some ts) (Some dts) (Some mt) tds ''HMM''
              = fold_res (llh_step (diag_state_probs (A_matrix m') dts ts)) ts (Fin 0, m2)
           \<and> A_cache m2 = (if ts = [] then None else Some (A_matrix m'))
           \<and> same_base (m'\<lparr>A_cache := A_cache m2\<rparr>) m2"
proof -
  have c': "A_cache m' = None" by (rule spread_probs_set_props(1) [OF s])
  from diag_fold_fresh [OF c' ok, of np_inv] obtain m2 where
    f: "fold_res (diag_time_step np_inv dts (Some mt)) ts (Some [], m')
          = return_res (Some (diag_state_probs (A_matrix m') dts ts), m2)"
    and a: "A_cache m2 = (if ts = [] then None else Some (A_matrix m'))"
    and sb: "same_base (m'\<lparr>A_cache := A_cache m2\<rparr>) m2" by blast
  have "log_likelihood np_inv (m\<lparr>A_cache := c\<rparr>) new (Some ts) (Some dts) (Some mt) tds ''HMM''
      = fold_res (llh_step (diag_state_probs (A_matrix m') dts ts)) ts (Fin 0, m2)"
    by (simp add: log_likelihood_valid [OF v s] hmm_state_probs_def l f)
  then show ?thesis using a sb by blast
qed

lemma log_likelihood_time_dists:
  assumes v: "spread_probs_are_valid m new = Inr True"
    and s: "spread_probs_set m new = (None, m')"
    and l: "length tds = length ts" and ne: "ts \<noteq> []"
    and ok: "\<forall>stage \<in> set ts. \<exists>td. map_of tds stage = Some td \<and> length td = Suc k"
  shows "\<exists>m2. log_likelihood np_inv (m\<lparr>A_cache := c\<rparr>) new (Some ts) None mt (Some tds) ''HMM''
              = fold_res (llh_step (dist_state_probs (A_matrix m') tds k ts)) ts (Fin 0, m2)
           \<and> A_cache m2 = Some (A_matrix m')
           \<and> same_base (m'\<lparr>A_cache := A_cache m2\<rparr>) m2"
proof -
  have c': "A_cache m' = None" by (rule spread_probs_set_props(1) [OF s])
  from ne ok obtain td0 where td0: "map_of tds (hd ts) = Some td0" "length td0 = Suc k"
    by (cases ts) auto
  from dist_fold_fresh [OF c' ok, of np_inv] obtain m2 where
    f: "fold_res (time_dist_step np_inv tds (int k)) ts ([], m')
          = return_res (dist_state_probs (A_matrix m') tds k ts, m2)"
    and a: "A_cache m2 = (if ts = [] then None else Some (A_matrix m'))"
    and sb: "same_base (m'\<lparr>A_cache := A_cache m2\<rparr>) m2" by blast
  have "log_likelihood np_inv (m\<lparr>A_cache := c\<rparr>) new (Some ts) None mt (Some tds) ''HMM''
      = fold_res (llh_step (dist_state_probs (A_matrix m') tds k ts)) ts (Fin 0, m2)"
    by (simp add: log_likelihood_valid [OF v s] hmm_state_probs_def l ne td0 f)
  then show ?thesis using a sb ne by auto
qed

text \<open>
  Claim C4. A setter of spread parameters that returns leaves the model without a
  cached matrix, in a state that does not depend on the matrix cached before, with the
  new parameters in the edges; the next read of \<open>A\<close> computes the matrix from that
  state and caches it. For parameters that pass \<open>_spread_probs_are_valid\<close> the setter
  inside \<open>log_likelihood\<close> returns, and whatever matrix \<open>c\<close> was cached before the
  call, the likelihood is the sum over the T-stages taken with the state distributions
  that the matrix of the newly set parameters gives: for diagnose times within
  \<open>[0, max_t]\<close> the start state evolved for the rounded time, for distributions over
  the diagnose time their product with the evolution up to their last index, and in
  mode "BN" the value of the Bayesian network on the model the setter has left.
\<close>

theorem setters_discard_cached_A:
  "(base_probs_set m new = (None, m') \<longrightarrow>
      reads_fresh_A m' \<and> base_probs_set (m\<lparr>A_cache := c\<rparr>) new = (None, m')
      \<and> base_probs m' = take (length (base_probs m)) new \<and> trans_probs m' = trans_probs m)
   \<and> (trans_probs_set m new = (None, m') \<longrightarrow>
      reads_fresh_A m' \<and> trans_probs_set (m\<lparr>A_cache := c\<rparr>) new = (None, m')
      \<and> trans_probs m' = take (length (trans_probs m)) new \<and> base_probs m' = base_probs m)
   \<and> (spread_probs_set m new = (None, m') \<longrightarrow>
      reads_fresh_A m' \<and> spread_probs_set (m\<lparr>A_cache := c\<rparr>) new = (None, m')
      \<and> spread_probs m' = take (length (spread_probs m)) new)
   \<and> (spread_probs_are_valid m new = Inr True \<longrightarrow>
      (\<exists>m1. spread_probs_set m new = (None, m1) \<and> spread_probs m1 = new))
   \<and> (spread_probs_are_valid m new = Inr True \<and> spread_probs_set m new = (None, m') \<longrightarrow>
      log_likelihood np_inv (m\<lparr>A_cache := c\<rparr>) new t_stages diag_times max_t time_dists ''BN''
        = bn_log_likelihood m'
      \<and> (length dts = length ts
           \<and> (\<forall>stage \<in> set ts. \<exists>dt. map_of dts stage = Some dt \<and> 0 \<le> np_around dt
                  \<and> np_around dt \<le> mt) \<longrightarrow>
         (\<exists>m2. log_likelihood np_inv (m\<lparr>A_cache := c\<rparr>) new (Some ts) (Some dts) (Some mt)
                    time_dists ''HMM''
                  = fold_res (llh_step (diag_state_probs (A_matrix m') dts ts)) ts (Fin 0, m2)
               \<and> A_cache m2 = (if ts = [] then None else Some (A_matrix m'))
               \<and> same_base (m'\<lparr>A_cache := A_cache m2\<rparr>) m2))
      \<and> (length tds = length ts \<and> ts \<noteq> []
           \<and> (\<forall>stage \<in> set ts. \<exists>td. map_of tds stage = Some td \<and> length td = Suc k) \<longrightarrow>
         (\<exists>m2. log_likelihood np_inv (m\<lparr>A_cache := c\<rparr>) new (Some ts) None max_t
                    (Some tds) ''HMM''
                  = fold_res (llh_step (dist_state_probs (A_matrix m') tds k ts)) ts (Fin 0, m2)
               \<and> A_cache m2 = Some (A_matrix m')
               \<and> same_base (m'\<lparr>A_cache := A_cache m2\<rparr>) m2)))"
proof (intro conjI impI)
  assume a: "base_probs_set m new = (None, m')"
  from base_probs_set_props [OF a] show "reads_fresh_A m'"
    and "base_probs_set (m\<lparr>A_cache := c\<rparr>) new = (None, m')"
    and "base_probs m' = take (length (base_probs m)) new" and "trans_probs m' = trans_probs m"
    by (simp_all add: reads_fresh_A_I base_probs_def)
next
  assume a: "trans_probs_set m new = (None, m')"
  from trans_probs_set_props [OF a] show "reads_fresh_A m'"
    and "trans_probs_set (m\<lparr>A_cache := c\<rparr>) new = (None, m')"
    and "trans_probs m' = take (length (trans_probs m)) new" and "base_probs m' = base_probs m"
    by (simp_all add: reads_fresh_A_I trans_probs_def)
next
  assume a: "spread_probs_set m new = (None, m')"
  from spread_probs_set_props [OF a] show "reads_fresh_A m'"
    and "spread_probs_set (m\<lparr>A_cache := c\<rparr>) new = (None, m')"
    and "spread_probs m' = take (length (spread_probs m)) new"
    by (simp_all add: reads_fresh_A_I)
next
  assume v: "spread_probs_are_valid m new = Inr True"
  then have l: "length new = length (spread_probs m)"
    and r: "\<forall>x \<in> set new. 0 \<le> x \<and> x \<le> 1"
    by (simp_all add: spread_probs_are_valid_True)
  from spread_probs_set_total [OF l r] obtain m1 where
    s: "spread_probs_set m new = (None, m1)" by blast
  from spread_probs_set_props(3) [OF s] l have "spread_probs m1 = new" by simp
  with s show "\<exists>m1. spread_probs_set m new = (None, m1) \<and> spread_probs m1 = new" by blast
next
  assume a: "spread_probs_are_valid m new = Inr True \<and> spread_probs_set m new = (None, m')"
  then show "log_likelihood np_inv (m\<lparr>A_cache := c\<rparr>) new t_stages diag_times max_t time_dists
       ''BN'' = bn_log_likelihood m'"
    by (simp add: log_likelihood_valid)
next
  assume a: "spread_probs_are_valid m new = Inr True \<and> spread_probs_set m new = (None, m')"
    and b: "length dts = length ts
           \<and> (\<forall>stage \<in> set ts. \<exists>dt. map_of dts stage = Some dt \<and> 0 \<le> np_around dt
                  \<and> np_around dt \<le> mt)"
  from a b show "\<exists>m2. log_likelihood np_inv (m\<lparr>A_cache := c\<rparr>) new (Some ts) (Some dts) (Some mt)
                    time_dists ''HMM''
                  = fold_res (llh_step (diag_state_probs (A_matrix m') dts ts)) ts (Fin 0, m2)
               \<and> A_cache m2 = (if ts = [] then None else Some (A_matrix m'))
               \<and> same_base (m'\<lparr>A_cache := A_cache m2\<rparr>) m2"
    by (intro log_likelihood_diag_times) simp_all
next
  assume a: "spread_probs_are_valid m new = Inr True \<and> spread_probs_set m new = (None, m')"
    and b: "length tds = length ts \<and> ts \<noteq> []
           \<and> (\<forall>stage \<in> set ts. \<exists>td. map_of tds stage = Some td \<and> length td = Suc k)"
  from a b show "\<exists>m2. log_likelihood np_inv (m\<lparr>A_cache := c\<rparr>) new (Some ts) None max_t
                    (Some tds) ''HMM''
                  = fold_res (llh_step (dist_state_probs (A_matrix m') tds k ts)) ts (Fin 0, m2)
               \<and> A_cache m2 = Some (A_matrix m')
               \<and> same_base (m'\<lparr>A_cache := A_cache m2\<rparr>) m2"
    by (intro log_likelihood_time_dists) simp_all
qed

lemma spread_probs_example_cached:
  "spread_probs (example_model a b c\<lparr>A_cache := x\<rparr>) = [a, b, c]"
  by (simp add: spread_probs_def base_probs_def trans_probs_def base_edges_example
      trans_edges_example) (simp add: example_model_def)

theorem setters_discard_cached_A_witness:
  "spread_probs_set (example_model (3/10) (1/5) (1/2)\<lparr>A_cache := Some [[1]]\<rparr>) [1/2, 1/4, 1/8]
      = (None, example_model (1/2) (1/4) (1/8))
   \<and> reads_fresh_A (example_model (1/2) (1/4) (1/8))
   \<and> spread_probs (example_model (1/2) (1/4) (1/8)) = [1/2, 1/4, 1/8]
   \<and> log_likelihood (\<lambda>X. Inl ValueError)
        (example_model (3/10) (1/5) (1/2)\<lparr>A_cache := Some [[1]]\<rparr>) [1/2, 1/4, 1/8]
        None None None None ''BN'' = bn_log_likelihood (example_model (1/2) (1/4) (1/8))
   \<and> (\<exists>m2. log_likelihood (\<lambda>X. Inl ValueError)
          (example_model (3/10) (1/5) (1/2)\<lparr>A_cache := Some [[1]]\<rparr>) [1/2, 1/4, 1/8]
          (Some [''early'']) (Some [(''early'', 2)]) (Some 10) None ''HMM''
        = fold_res (llh_step
            [(''early'', state_at (A_matrix (example_model (1/2) (1/4) (1/8))) 2)])
            [''early''] (Fin 0, m2)
        \<and> A_cache m2 = Some (A_matrix (example_model (1/2) (1/4) (1/8))))
   \<and> (\<exists>m2. log_likelihood (\<lambda>X. Inl ValueError)
          (example_model (3/10) (1/5) (1/2)\<lparr>A_cache := Some [[1]]\<rparr>) [1/2, 1/4, 1/8]
          (Some [''early'']) None None (Some [(''early'', [1/2, 1/2])]) ''HMM''
        = fold_res (llh_step
            [(''early'', vm [1/2, 1/2]
                (steps 1 (state_at (A_matrix (example_model (1/2) (1/4) (1/8))) 0)
                   (A_matrix (example_model (1/2) (1/4) (1/8)))))])
            [''early''] (Fin 0, m2)
        \<and> A_cache m2 = Some (A_matrix (example_model (1/2) (1/4) (1/8))))"
proof -
  let ?m = "example_model (3/10) (1/5) (1/2)\<lparr>A_cache := Some [[1]]\<rparr>"
  let ?m' = "example_model (1/2) (1/4) (1/8)"
  have s: "spread_probs_set ?m [1/2, 1/4, 1/8] = (None, ?m')"
    by (rule spread_probs_set_example) simp_all
  have v: "spread_probs_are_valid ?m [1/2, 1/4, 1/8] = Inr True"
    by (simp add: spread_probs_are_valid_def spread_probs_example_cached)
  have e: "?m'\<lparr>A_cache := None\<rparr> = ?m'" by (simp add: example_model_def)
  have p: "spread_probs ?m' = [1/2, 1/4, 1/8]"
    using spread_probs_example_cached [where a = "1/2" and b = "1/4" and c = "1/8" and x = None]
    by (simp add: e)
  have n: "np_around 2 = 2" using np_around_int [of 2] by simp
  show ?thesis
    using setters_discard_cached_A [where m = ?m and new = "[1/2, 1/4, 1/8]" and m' = ?m'
        and c = "Some [[1]]" and np_inv = "\<lambda>X. Inl ValueError" and t_stages = None
        and diag_times = None and max_t = None and time_dists = None
        and dts = "[(''early'', 2)]" and ts = "[''early'']" and mt = 10
        and tds = "[(''early'', [1/2, 1/2])]" and k = 1] s v p
    by (simp add: n diag_state_probs_def dist_state_probs_def) blast
qed

section \<open>Data compression for every T-stage\<close>

lemma compress_props:
  assumes r: "\<forall>row \<in> set table. length row = n_obs * L"
  shows "compresses (obs_rows n_obs L) table
           (fst (np_unique (filter (\<lambda>col. length (filter id col) \<noteq> length (obs_rows n_obs L))
                   (map (compat_vector (obs_rows n_obs L)) table))))
           (snd (np_unique (filter (\<lambda>col. length (filter id col) \<noteq> length (obs_rows n_obs L))
                   (map (compat_vector (obs_rows n_obs L)) table))))"
proof -
  let ?n = "n_obs * L"
  let ?ol = "obs_rows n_obs L"
  let ?cv = "compat_vector ?ol"
  let ?P = "\<lambda>col. length (filter id col) \<noteq> length ?ol"
  define tmp where "tmp = filter ?P (map ?cv table)"
  define C where "C = sort (remdups tmp)"
  define f where "f = map (count_list tmp) C"
  have u: "np_unique tmp = (C, f)"
    by (simp add: np_unique_def Let_def C_def f_def)
  have lcv: "length (?cv row) = 2 ^ ?n" for row
    by (simp add: compat_vector_def)
  have P: "?P (?cv row) \<longleftrightarrow> ?cv row \<noteq> replicate (2 ^ ?n) True" for row
    using filter_all_length [of id "?cv row"] all_true_replicate [of "?cv row"] lcv [of row]
    by auto
  have inC: "\<And>k. k < length C \<Longrightarrow> C ! k \<in> set tmp"
    unfolding C_def by (metis nth_mem set_remdups set_sort)
  have k: "length (C ! k) = length ?ol \<and> C ! k \<noteq> replicate (length ?ol) True
          \<and> f ! k = length (filter (\<lambda>row. ?cv row = C ! k) table)" if "k < length C" for k
  proof -
    from inC [OF that] obtain row where row: "C ! k = ?cv row" and Pk: "?P (C ! k)"
      unfolding tmp_def by auto
    have "f ! k = count_list tmp (C ! k)" using that by (simp add: f_def)
    also have "\<dots> = count_list (map ?cv table) (C ! k)"
      unfolding tmp_def using Pk by (rule count_list_filter)
    also have "\<dots> = length (filter (\<lambda>row. ?cv row = C ! k) table)"
      by (rule count_list_map)
    finally have fk: "f ! k = length (filter (\<lambda>row. ?cv row = C ! k) table)" .
    have "C ! k \<noteq> replicate (2 ^ ?n) True" using P [of row] Pk unfolding row by blast
    moreover have "length (C ! k) = 2 ^ ?n" unfolding row by (rule lcv)
    ultimately show ?thesis using fk by simp
  qed
  have "sum_list f = length tmp" unfolding f_def C_def by (rule sum_counts_remdups)
  also have "\<dots> = length (filter (\<lambda>row. ?P (?cv row)) table)"
    unfolding tmp_def by (simp only: filter_map comp_def length_map)
  also have "filter (\<lambda>row. ?P (?cv row)) table
      = filter (\<lambda>row. \<exists>d \<in> set row. d \<noteq> None) table"
  proof (rule filter_cong [OF refl])
    fix row assume "row \<in> set table"
    with r have "length row = ?n" by simp
    from all_ones_iff_missing [OF this] P [of row]
    show "?P (?cv row) \<longleftrightarrow> (\<exists>d \<in> set row. d \<noteq> None)" by blast
  qed
  finally have s: "sum_list f = length (filter (\<lambda>row. \<exists>d \<in> set row. d \<noteq> None) table)" .
  have d: "distinct C" by (simp add: C_def)
  have lf: "length f = length C" by (simp add: f_def)
  have "compresses ?ol table C f"
    unfolding compresses_def using d lf k s by blast
  then show ?thesis unfolding tmp_def [symmetric] u by simp
qed

lemma gen_C_value:
  assumes t: "modality_tables m = Some tables"
    and c: "obs_list_cache m = None
            \<or> obs_list_cache m = Some (obs_rows (length tables) (length (lnls m)))"
    and r: "\<forall>row \<in> set table. length row = length tables * length (lnls m)"
  shows "\<exists>m' C f. gen_C m table (Some stage) True True = return_res m'
     \<and> modality_tables m' = Some tables \<and> nodes m' = nodes m
     \<and> obs_list_cache m' = Some (obs_rows (length tables) (length (lnls m)))
     \<and> stored_C m' = (stored_C m)(stage \<mapsto> C) \<and> stored_f m' = (stored_f m)(stage \<mapsto> f)
     \<and> compresses (obs_rows (length tables) (length (lnls m))) table C f"
proof -
  let ?n = "length tables * length (lnls m)"
  let ?ol = "obs_rows (length tables) (length (lnls m))"
  let ?cv = "compat_vector ?ol"
  let ?P = "\<lambda>col. length (filter id col) \<noteq> length ?ol"
  define tmp where "tmp = filter ?P (map ?cv table)"
  define C where "C = fst (np_unique tmp)"
  define f where "f = snd (np_unique tmp)"
  define m1 where "m1 = m\<lparr>obs_list_cache := Some ?ol\<rparr>"
  define C0 where "C0 = stored_C m"
  define f0 where "f0 = stored_f m"
  have cf: "(case (C_dict m, f_dict m) of
                        (Some c, Some f) \<Rightarrow> (c, f)
                      | _ \<Rightarrow> (Map.empty, Map.empty)) = (C0, f0)"
    unfolding C0_def f0_def
    by (cases "C_dict m"; cases "f_dict m") (auto simp: stored_C_def stored_f_def)
  define m' where
    "m' = m1\<lparr>C_dict := Some (C0(stage \<mapsto> C)), f_dict := Some (f0(stage \<mapsto> f))\<rparr>"
  have ol: "obs_list m = return_res (?ol, m1)"
    unfolding m1_def by (rule obs_list_pure [OF t c])
  have lens: "\<forall>obs \<in> set ?ol. length obs = ?n"
    by (auto simp: in_set_conv_nth length_obs_rows_nth)
  have tm: "map_err (\<lambda>row. map_err (\<lambda>obs. compatible obs row) ?ol) table
           = Inr (map ?cv table)"
    by (rule tmp_C_pure [OF r lens])
  have u: "np_unique tmp = (C, f)" by (simp add: C_def f_def)
  have g: "gen_C m table (Some stage) True True = return_res m'"
    unfolding gen_C_def Let_def ol bind_res_return prod.case tm sum.case if_True
      tmp_def [symmetric] u m'_def
    using cf by simp
  have p: "compresses ?ol table C f"
    unfolding C_def f_def tmp_def by (rule compress_props [OF r])
  have "stored_C m' = C0(stage \<mapsto> C)" and "stored_f m' = f0(stage \<mapsto> f)"
    by (auto simp: m'_def stored_C_def stored_f_def)
  moreover have "modality_tables m' = Some tables" "nodes m' = nodes m"
    "obs_list_cache m' = Some ?ol"
    using t by (simp_all add: m'_def m1_def)
  ultimately show ?thesis using g p unfolding C0_def f0_def by blast
qed

lemma table_row_pure:
  assumes "\<forall>k \<in> set keys. \<exists>d. map_of (diagnoses_of p) k = Some d \<and> length d = L"
  shows "table_row keys p = Inr (patient_row keys p)"
    and "length (patient_row keys p) = length keys * L"
proof -
  have "map_err (\<lambda>k. case map_of (diagnoses_of p) k of
                              None \<Rightarrow> Inl KeyError
                            | Some d \<Rightarrow> Inr d) keys
      = Inr (map (\<lambda>k. case map_of (diagnoses_of p) k of None \<Rightarrow> [] | Some d \<Rightarrow> d) keys)"
    using assms by (intro map_err_pure) auto
  then show "table_row keys p = Inr (patient_row keys p)"
    by (simp add: table_row_def patient_row_def)
  show "length (patient_row keys p) = length keys * L"
    using assms unfolding patient_row_def
    by (induction keys) (auto simp: length_concat)
qed

lemma stage_table_pure:
  assumes "\<forall>p \<in> set data. t_stage_of p = stage \<longrightarrow>
      (\<forall>k \<in> set keys. \<exists>d. map_of (diagnoses_of p) k = Some d \<and> length d = L)"
  shows "map_err (table_row keys) (filter (\<lambda>p. t_stage_of p = stage) data)
           = Inr (stage_rows keys data stage)"
    and "\<forall>row \<in> set (stage_rows keys data stage). length row = length keys * L"
proof -
  show "map_err (table_row keys) (filter (\<lambda>p. t_stage_of p = stage) data)
           = Inr (stage_rows keys data stage)"
    unfolding stage_rows_def
  proof (rule map_err_pure)
    fix x assume "x \<in> set (filter (\<lambda>p. t_stage_of p = stage) data)"
    with assms have "\<forall>k \<in> set keys. \<exists>d. map_of (diagnoses_of x) k = Some d \<and> length d = L"
      by simp
    then show "table_row keys x = Inr (patient_row keys x)" by (rule table_row_pure(1))
  qed
  show "\<forall>row \<in> set (stage_rows keys data stage). length row = length keys * L"
  proof
    fix row assume "row \<in> set (stage_rows keys data stage)"
    then obtain x where x: "x \<in> set data" "t_stage_of x = stage" "row = patient_row keys x"
      unfolding stage_rows_def by auto
    with assms have "\<forall>k \<in> set keys. \<exists>d. map_of (diagnoses_of x) k = Some d \<and> length d = L"
      by simp
    from table_row_pure(2) [OF this] x show "length row = length keys * L" by simp
  qed
qed

lemma load_stages:
  assumes t: "modality_tables m = Some tables"
    and c: "obs_list_cache m = None
            \<or> obs_list_cache m = Some (obs_rows (length tables) (length (lnls m)))"
    and d: "\<forall>p \<in> set data. t_stage_of p \<in> set stages \<longrightarrow>
      (\<forall>k \<in> set (map fst tables). \<exists>d. map_of (diagnoses_of p) k = Some d
            \<and> length d = length (lnls m))"
  shows "\<exists>m'. fold_res (\<lambda>stage m2.
                 case map_err (table_row (map fst tables))
                        (filter (\<lambda>p. t_stage_of p = stage) data) of
                   Inl e \<Rightarrow> raise_res e
                 | Inr table \<Rightarrow> gen_C m2 table (Some stage) True True) stages m
              = return_res m'
           \<and> (\<forall>stage. if stage \<in> set stages
                 then (\<exists>C f. stored_C m' stage = Some C \<and> stored_f m' stage = Some f
                     \<and> compresses (obs_rows (length tables) (length (lnls m)))
                          (stage_rows (map fst tables) data stage) C f)
                 else stored_C m' stage = stored_C m stage
                    \<and> stored_f m' stage = stored_f m stage)"
  using t c d
proof (induction stages arbitrary: m)
  case Nil
  show ?case by (intro exI [of _ m]) simp
next
  case (Cons s ss)
  let ?keys = "map fst tables"
  let ?ol = "obs_rows (length tables) (length (lnls m))"
  let ?step = "\<lambda>stage m2.
                 case map_err (table_row ?keys)
                        (filter (\<lambda>p. t_stage_of p = stage) data) of
                   Inl e \<Rightarrow> raise_res e
                 | Inr table \<Rightarrow> gen_C m2 table (Some stage) True True"
  have ds: "\<forall>p \<in> set data. t_stage_of p = s \<longrightarrow>
      (\<forall>k \<in> set ?keys. \<exists>d. map_of (diagnoses_of p) k = Some d \<and> length d = length (lnls m))"
    using Cons.prems(3) by simp
  note tb = stage_table_pure [OF ds]
  have r: "\<forall>row \<in> set (stage_rows ?keys data s). length row = length tables * length (lnls m)"
    using tb(2) by simp
  from gen_C_value [OF Cons.prems(1) Cons.prems(2) r, of s] obtain m2 C f where
    g: "gen_C m (stage_rows ?keys data s) (Some s) True True = return_res m2"
    and t2: "modality_tables m2 = Some tables" and n2: "nodes m2 = nodes m"
    and o2: "obs_list_cache m2 = Some ?ol"
    and sC: "stored_C m2 = (stored_C m)(s \<mapsto> C)" and sf: "stored_f m2 = (stored_f m)(s \<mapsto> f)"
    and p: "compresses ?ol (stage_rows ?keys data s) C f" by blast
  have l2: "lnls m2 = lnls m" using n2 by (simp add: lnls_def)
  have c2: "obs_list_cache m2 = None
            \<or> obs_list_cache m2 = Some (obs_rows (length tables) (length (lnls m2)))"
    using o2 l2 by simp
  have d2: "\<forall>p \<in> set data. t_stage_of p \<in> set ss \<longrightarrow>
      (\<forall>k \<in> set (map fst tables). \<exists>d. map_of (diagnoses_of p) k = Some d
            \<and> length d = length (lnls m2))"
    using Cons.prems(3) l2 by simp
  from Cons.IH [OF t2 c2 d2] obtain m' where
    f': "fold_res ?step ss m2 = return_res m'"
    and a: "\<forall>stage. if stage \<in> set ss
                 then (\<exists>C f. stored_C m' stage = Some C \<and> stored_f m' stage = Some f
                     \<and> compresses ?ol (stage_rows ?keys data stage) C f)
                 else stored_C m' stage = stored_C m2 stage
                    \<and> stored_f m' stage = stored_f m2 stage"
    unfolding l2 by blast
  have "fold_res ?step (s # ss) m = return_res m'"
    by (simp add: tb(1) g f')
  moreover have "if stage \<in> set (s # ss)
                 then (\<exists>C f. stored_C m' stage = Some C \<and> stored_f m' stage = Some f
                     \<and> compresses ?ol (stage_rows ?keys data stage) C f)
                 else stored_C m' stage = stored_C m stage
                    \<and> stored_f m' stage = stored_f m stage" for stage
  proof (cases "stage \<in> set ss")
    case True
    from a have "if stage \<in> set ss
                 then (\<exists>C f. stored_C m' stage = Some C \<and> stored_f m' stage = Some f
                     \<and> compresses ?ol (stage_rows ?keys data stage) C f)
                 else stored_C m' stage = stored_C m2 stage
                    \<and> stored_f m' stage = stored_f m2 stage" by (rule spec)
    with True show ?thesis by simp
  next
    case False
    from a have "if stage \<in> set ss
                 then (\<exists>C f. stored_C m' stage = Some C \<and> stored_f m' stage = Some f
                     \<and> compresses ?ol (stage_rows ?keys data stage) C f)
                 else stored_C m' stage = stored_C m2 stage
                    \<and> stored_f m' stage = stored_f m2 stage" by (rule spec)
    with False have e: "stored_C m' stage = stored_C m2 stage" "stored_f m' stage = stored_f m2 stage"
      by (simp_all split: if_splits)
    show ?thesis
    proof (cases "stage = s")
      case True
      then show ?thesis using e sC sf p by simp
    next
      case ne: False
      then show ?thesis using e sC sf False by simp
    qed
  qed
  ultimately show ?case by blast
qed

lemma modalities_set_frame:
  assumes "modalities_set m spsn = Inr mm"
  shows "\<exists>tb. mm = m\<lparr>modality_tables := Some tb\<rparr>"
  using assms by (auto simp: modalities_set_def bind_err_def split: sum.splits)

lemma load_data_hmm:
  assumes pre: "modality_spsn = None \<and> modalities_get m \<noteq> [] \<and> mm = m
                \<or> (\<exists>spsn. modality_spsn = Some spsn \<and> modalities_set m spsn = Inr mm)"
    and t: "modality_tables mm = Some tables"
    and c: "obs_list_cache m = None
            \<or> obs_list_cache m = Some (obs_rows (length tables) (length (lnls m)))"
    and st: "stages = (case t_stages of None \<Rightarrow> remdups (map t_stage_of data) | Some ts \<Rightarrow> ts)"
    and d: "\<forall>p \<in> set data. t_stage_of p \<in> set stages \<longrightarrow>
      (\<forall>k \<in> set (map fst tables). \<exists>d. map_of (diagnoses_of p) k = Some d
            \<and> length d = length (lnls m))"
  shows "\<exists>m'. load_data m data t_stages modality_spsn ''HMM'' True True = Some (Inr m')
           \<and> (\<forall>stage. if stage \<in> set stages
                 then (\<exists>C f. stored_C m' stage = Some C \<and> stored_f m' stage = Some f
                     \<and> compresses (obs_rows (length tables) (length (lnls m)))
                          (stage_rows (map fst tables) data stage) C f)
                 else stored_C m' stage = stored_C m stage
                    \<and> stored_f m' stage = stored_f m stage)"
proof -
  have mm: "\<exists>tb. mm = m\<lparr>modality_tables := tb\<rparr>"
    using pre
  proof
    assume "modality_spsn = None \<and> modalities_get m \<noteq> [] \<and> mm = m"
    then have "mm = m\<lparr>modality_tables := modality_tables m\<rparr>" by simp
    then show ?thesis by blast
  next
    assume "\<exists>spsn. modality_spsn = Some spsn \<and> modalities_set m spsn = Inr mm"
    then show ?thesis using modalities_set_frame by blast
  qed
  then obtain tb where tb: "mm = m\<lparr>modality_tables := tb\<rparr>" by blast
  have l: "lnls mm = lnls m" by (simp add: tb)
  have o: "obs_list_cache mm = obs_list_cache m" by (simp add: tb)
  have s: "stored_C mm = stored_C m" "stored_f mm = stored_f m"
    by (auto simp: tb stored_C_def stored_f_def)
  have first: "(case modality_spsn of
              Some spsn \<Rightarrow> modalities_set m spsn
            | None \<Rightarrow> if modalities_get m = [] then Inl ValueError else Inr m) = Inr mm"
    using pre by auto
  have c1: "obs_list_cache mm = None
            \<or> obs_list_cache mm = Some (obs_rows (length tables) (length (lnls mm)))"
    using c by (simp add: l o)
  have d1: "\<forall>p \<in> set data. t_stage_of p \<in> set stages \<longrightarrow>
      (\<forall>k \<in> set (map fst tables). \<exists>d. map_of (diagnoses_of p) k = Some d
            \<and> length d = length (lnls mm))"
    using d by (simp add: l)
  from load_stages [OF t c1 d1] obtain m' where
    f: "fold_res (\<lambda>stage m2.
                 case map_err (table_row (map fst tables))
                        (filter (\<lambda>p. t_stage_of p = stage) data) of
                   Inl e \<Rightarrow> raise_res e
                 | Inr table \<Rightarrow> gen_C m2 table (Some stage) True True) stages mm
              = return_res m'"
    and a: "\<forall>stage. if stage \<in> set stages
                 then (\<exists>C f. stored_C m' stage = Some C \<and> stored_f m' stage = Some f
                     \<and> compresses (obs_rows (length tables) (length (lnls mm)))
                          (stage_rows (map fst tables) data stage) C f)
                 else stored_C m' stage = stored_C mm stage
                    \<and> stored_f m' stage = stored_f mm stage" by blast
  have "load_data m data t_stages modality_spsn ''HMM'' True True = Some (Inr m')"
    unfolding load_data_def first using f by (simp add: t st Let_def return_res_def)
  with a show ?thesis unfolding l s by blast
qed


lemma compressesD:
  assumes "compresses ol rows C f"
  shows "distinct C" and "length f = length C"
    and "sum_list f = length (filter (\<lambda>row. \<exists>d \<in> set row. d \<noteq> None) rows)"
  using assms by (simp_all add: compresses_def)



end
